(* ===== verification/Sgc_Prelude.thy ===== *)
theory Sgc_Prelude
  imports Main "HOL-Library.Word" "HOL-Library.AList" "HOL-Library.Sublist"
begin

text \<open>
  Shared vocabulary of the development: the lemma collections the component proofs draw on, the
  association-list reading of the daemon's hash maps, reachability of a transition system, and the
  two interface locales (a queue that is served in a known order, a queue that also takes back a
  client at the end of that order).
\<close>

section \<open>Lemma collections\<close>

named_theorems sgc_ops \<open>definitions of the operations, for unfolding one step of the model\<close>
named_theorems sgc_frame \<open>what an operation leaves alone\<close>

section \<open>Hash maps as association lists\<close>

text \<open>
  A Rust hash map is an association list with distinct keys: lookup is \<^const>\<open>map_of\<close>,
  \<open>insert\<close> and an update through \<open>get_mut\<close> are \<^const>\<open>AList.update\<close>, \<open>remove\<close> is
  \<^const>\<open>AList.delete\<close>, and iterating visits the list in its order.  Rust leaves the iteration
  order open; every statement of the development holds for every list order.
\<close>

lemma map_of_update [simp]: "map_of (AList.update k v al) = (map_of al)(k \<mapsto> v)"
  by (rule update_conv')

lemma map_of_delete_eq [simp]: "map_of (AList.delete k al) = (map_of al)(k := None)"
  by (rule delete_conv')

lemma distinct_keys_update [simp]:
  "distinct (map fst al) \<Longrightarrow> distinct (map fst (AList.update k v al))"
  by (rule distinct_update)

lemma distinct_keys_delete [simp]:
  "distinct (map fst al) \<Longrightarrow> distinct (map fst (AList.delete k al))"
  by (rule distinct_delete)

lemma keys_update_present [simp]:
  "map_of al k = Some u \<Longrightarrow> map fst (AList.update k v al) = map fst al"
  by (simp add: update_keys map_of_eq_None_iff [symmetric] image_iff)
    (metis map_of_SomeD fst_conv)

text \<open>A loop over \<open>iter_mut()\<close> that changes each entry in place.\<close>

definition map_entries :: "('k \<Rightarrow> 'v \<Rightarrow> 'v) \<Rightarrow> ('k \<times> 'v) list \<Rightarrow> ('k \<times> 'v) list" where
  "map_entries f al = map (\<lambda>(k, v). (k, f k v)) al"

lemma map_entries_keys [simp]: "map fst (map_entries f al) = map fst al"
  by (simp add: map_entries_def case_prod_beta comp_def)

lemma map_of_map_entries [simp]: "map_of (map_entries f al) k = map_option (f k) (map_of al k)"
  by (induction al) (auto simp: map_entries_def)

lemma map_entries_comp: "map_entries f (map_entries g al) = map_entries (\<lambda>k v. f k (g k v)) al"
  by (simp add: map_entries_def comp_def case_prod_beta)

text \<open>Membership in an association list with distinct keys is lookup.\<close>

lemma in_alist_iff_lookup:
  "distinct (map fst al) \<Longrightarrow> (k, v) \<in> set al \<longleftrightarrow> map_of al k = Some v"
  by auto

lemma map_of_memI: "map_of al k = Some v \<Longrightarrow> (k, v) \<in> set al"
  by (rule map_of_SomeD)

section \<open>Lists\<close>

lemma distinct_map_filter_keep: "distinct (map f xs) \<Longrightarrow> distinct (map f (filter P xs))"
  by (induction xs) auto

declare dropWhile_eq_Nil_conv [simp del]

lemma dropWhile_Cons_split:
  "dropWhile P xs = y # ys \<longleftrightarrow> (\<exists>us. xs = us @ y # ys \<and> (\<forall>u\<in>set us. P u) \<and> \<not> P y)"
  by (auto simp: dropWhile_eq_Cons_conv intro: exI [where x = "takeWhile P xs"] dest: set_takeWhileD)

lemma filter_removed_middle:
  "xs = us @ x # vs \<Longrightarrow> \<not> P x \<Longrightarrow> filter P (us @ vs) = filter P xs"
  by simp

lemma subseq_distinct: "subseq xs ys \<Longrightarrow> distinct ys \<Longrightarrow> distinct xs"
  by (auto simp: subseq_conv_nths distinct_nthsI)

lemma filter_absent: "f x \<notin> f ` set xs \<Longrightarrow> filter (\<lambda>y. P y \<and> f y = f x) xs = []"
  by (induction xs) auto

lemma filter_unique_index:
  "distinct (map f xs) \<Longrightarrow> x \<in> set xs \<Longrightarrow> P x \<Longrightarrow> filter (\<lambda>y. P y \<and> f y = f x) xs = [x]"
  by (induction xs) (auto simp: filter_absent)

lemma in_map_filter_iff: "y \<in> set (List.map_filter f xs) \<longleftrightarrow> (\<exists>x\<in>set xs. f x = Some y)"
  by (induction xs) (auto simp: map_filter_simps split: option.splits)

lemma find_SomeD: "find P xs = Some x \<Longrightarrow> P x \<and> x \<in> set xs"
  by (induction xs) (auto split: if_splits)

section \<open>Reachability\<close>

inductive reach :: "('s \<Rightarrow> bool) \<Rightarrow> ('s \<Rightarrow> 'e \<Rightarrow> 's \<Rightarrow> bool) \<Rightarrow> 's \<Rightarrow> bool"
  for start :: "'s \<Rightarrow> bool" and step :: "'s \<Rightarrow> 'e \<Rightarrow> 's \<Rightarrow> bool" where
  reach_start: "start s \<Longrightarrow> reach start step s"
| reach_step: "reach start step s \<Longrightarrow> step s e t \<Longrightarrow> reach start step t"

text \<open>What an inductive invariant of a transition system gives its clients.\<close>

locale invariant_system =
  fixes start :: "'s \<Rightarrow> bool"
    and step :: "'s \<Rightarrow> 'e \<Rightarrow> 's \<Rightarrow> bool"
    and inv :: "'s \<Rightarrow> bool"
  assumes inv_start: "start s \<Longrightarrow> inv s"
    and inv_step: "inv s \<Longrightarrow> step s e t \<Longrightarrow> inv t"
begin

lemma reach_inv: "reach start step s \<Longrightarrow> inv s"
  by (induction rule: reach.induct) (auto intro: inv_start inv_step)

lemma reach_step_inv: "reach start step s \<Longrightarrow> step s e t \<Longrightarrow> inv t"
  by (rule inv_step [OF reach_inv])

end

section \<open>Queues served in a known order\<close>

text \<open>\<open>drain pop n q\<close> is what \<open>n\<close> successive services hand out.\<close>

fun drain :: "('q \<Rightarrow> ('w \<times> 'q) option) \<Rightarrow> nat \<Rightarrow> 'q \<Rightarrow> 'w list" where
  "drain pop 0 q = []"
| "drain pop (Suc n) q = (case pop q of None \<Rightarrow> [] | Some (w, q') \<Rightarrow> w # drain pop n q')"

locale service_queue =
  fixes pop :: "'q \<Rightarrow> ('w \<times> 'q) option"
    and order :: "'q \<Rightarrow> 'w list"
  assumes pop_empty: "order q = [] \<Longrightarrow> pop q = None"
    and pop_head: "order q = w # ws \<Longrightarrow> \<exists>q'. pop q = Some (w, q') \<and> order q' = ws"
begin

lemma pop_None_iff: "pop q = None \<longleftrightarrow> order q = []"
  using pop_empty pop_head by (cases "order q") force+

lemma pop_Some_order: "pop q = Some (w, q') \<Longrightarrow> order q = w # order q'"
  using pop_empty pop_head by (cases "order q") force+

lemma drain_take: "drain pop n q = take n (order q)"
proof (induction n arbitrary: q)
  case (Suc n)
  then show ?case
    by (cases "pop q") (auto simp: pop_None_iff pop_empty dest: pop_Some_order)
qed simp

lemma drain_all: "drain pop (length (order q)) q = order q"
  by (simp add: drain_take)

end

locale requeue_queue = service_queue pop order
  for pop :: "'q \<Rightarrow> ('w \<times> 'q) option" and order :: "'q \<Rightarrow> 'w list" +
  fixes requeue :: "'q \<Rightarrow> 'w \<Rightarrow> 'q"
  assumes requeue_order: "order (requeue q w) = order q @ [w]"
begin

text \<open>A requeued client is served once, and after everybody who was waiting.\<close>

lemma requeue_served_last:
  "drain pop (Suc (length (order q))) (requeue q w) = drain pop (length (order q)) q @ [w]"
  by (simp add: drain_take requeue_order del: drain.simps)

lemma requeue_head_kept: "order q = v # vs \<Longrightarrow> \<exists>q'. pop (requeue q w) = Some (v, q')"
  using pop_head [of "requeue q w" v "vs @ [w]"] by (auto simp: requeue_order)

end

end
