(* ===== verification/Sgc_Types.thy ===== *)
theory Sgc_Types
  imports Sgc_Prelude
begin

text \<open>
  The data every component shares: resource names (the wire protocol's types, as the daemon's
  patterns and \<open>AGENT.md\<close> list them), client identities and their allocation
  (\<open>src/types.rs\<close>, \<open>src/server.rs\<close>), and the advertised list (\<open>src/types.rs\<close>).
\<close>

section \<open>Resource names\<close>

type_synonym u8 = "8 word"
type_synonym u64 = "64 word"

datatype input_resource = Mouse u8 | Keyboard u8 | Touch u8

datatype resource = Fbdev | Drm u8 | Input input_resource

text \<open>The pattern \<open>matches!(resource, Resource::Input(_))\<close>.\<close>

fun is_input :: "resource \<Rightarrow> bool" where
  "is_input (Input _) = True"
| "is_input _ = False"

section \<open>Client identities\<close>

type_synonym client_id = u64

text \<open>The static counter starts at 1; \<open>fetch_add\<close> returns the old value and wraps at the width.\<close>

definition NEXT_CLIENT_ID_init :: u64 where
  "NEXT_CLIENT_ID_init = 1"

definition alloc_client_id :: "u64 \<Rightarrow> client_id \<times> u64" where
  "alloc_client_id next_id = (next_id, next_id + 1)"

section \<open>The advertised list\<close>

type_synonym advertised = "resource list"

definition adv_new :: "resource list \<Rightarrow> advertised" where
  "adv_new resources = resources"

definition adv_snapshot :: "advertised \<Rightarrow> resource list" where
  "adv_snapshot adv = adv"

definition adv_insert :: "resource \<Rightarrow> advertised \<Rightarrow> advertised" where
  "adv_insert r adv = (if r \<in> set adv then adv else adv @ [r])"

definition adv_remove :: "resource \<Rightarrow> advertised \<Rightarrow> advertised" where
  "adv_remove r adv = filter (\<lambda>entry. entry \<noteq> r) adv"

lemma set_adv_insert [simp]: "set (adv_insert r adv) = insert r (set adv)"
  by (auto simp: adv_insert_def)

lemma set_adv_remove [simp]: "set (adv_remove r adv) = set adv - {r}"
  by (auto simp: adv_remove_def)

lemma distinct_adv_insert [simp]: "distinct adv \<Longrightarrow> distinct (adv_insert r adv)"
  by (auto simp: adv_insert_def)

lemma distinct_adv_remove [simp]: "distinct adv \<Longrightarrow> distinct (adv_remove r adv)"
  by (simp add: adv_remove_def)

lemma prefix_adv_insert: "prefix adv (adv_insert r adv)"
  by (auto simp: adv_insert_def)

lemma subseq_adv_remove: "subseq (adv_remove r adv) adv"
  by (simp add: adv_remove_def)

lemma adv_remove_insert:
  "r \<notin> set adv \<Longrightarrow> adv_remove r (adv_insert r adv) = adv"
  by (simp add: adv_insert_def adv_remove_def filter_id_conv) auto

end
