(* ===== verification/Windowing_Policy.thy ===== *)
theory Windowing_Policy
  imports Sgc_Types
begin

text \<open>
  The arbitration policy (\<open>src/windowing/policy.rs\<close>): what an acquire does in each slot state,
  which waiter is served next, and where a preempted owner is put back.  The two preemptive
  policies are interpretations of the queue locales: first-in first-out serves the list as it is,
  last-in first-out serves it reversed, and in both a requeued client is served last.
\<close>

section \<open>Types\<close>

datatype slot_state = SlotFree | SlotGranted | SlotRevoking

datatype acquire_decision = DecideGrant | DecideRevokeAndQueue | DecideQueue | DecideDeny

datatype policy = FirstOwner | LatestOwner | FairQueue

section \<open>Operations\<close>

fun decide :: "policy \<Rightarrow> slot_state \<Rightarrow> acquire_decision" where
  "decide _ SlotFree = DecideGrant"
| "decide FirstOwner _ = DecideDeny"
| "decide _ SlotGranted = DecideRevokeAndQueue"
| "decide _ SlotRevoking = DecideQueue"

fun pop_waiter :: "policy \<Rightarrow> 'a list \<Rightarrow> 'a option \<times> 'a list" where
  "pop_waiter FirstOwner ws = (None, ws)"
| "pop_waiter LatestOwner ws = (if ws = [] then (None, []) else (Some (last ws), butlast ws))"
| "pop_waiter FairQueue ws = (case ws of [] \<Rightarrow> (None, []) | w # ws' \<Rightarrow> (Some w, ws'))"

fun requeue_waiter :: "policy \<Rightarrow> 'a list \<Rightarrow> 'a \<Rightarrow> 'a list" where
  "requeue_waiter FirstOwner ws w = ws"
| "requeue_waiter LatestOwner ws w = w # ws"
| "requeue_waiter FairQueue ws w = ws @ [w]"

text \<open>\<open>FromStr\<close>: the error carries the text that was not a policy name.\<close>

definition policy_from_str :: "string \<Rightarrow> string + policy" where
  "policy_from_str s =
     (if s = ''first-owner'' then Inr FirstOwner
      else if s = ''latest-owner'' then Inr LatestOwner
      else if s = ''fair-queue'' then Inr FairQueue
      else Inl s)"

section \<open>Service order\<close>

text \<open>The order in which a policy serves a queue, first to be served first.\<close>

fun policy_order :: "policy \<Rightarrow> 'a list \<Rightarrow> 'a list" where
  "policy_order FirstOwner ws = []"
| "policy_order LatestOwner ws = rev ws"
| "policy_order FairQueue ws = ws"

definition pop_opt :: "policy \<Rightarrow> 'a list \<Rightarrow> ('a \<times> 'a list) option" where
  "pop_opt p ws = (case pop_waiter p ws of (None, _) \<Rightarrow> None | (Some w, ws') \<Rightarrow> Some (w, ws'))"

lemma set_policy_order: "set (policy_order p ws) \<subseteq> set ws"
  by (cases p) auto

lemma policy_order_filter: "policy_order p (filter P ws) = filter P (policy_order p ws)"
  by (cases p) (auto simp: rev_filter)

interpretation first_owner: service_queue "pop_opt FirstOwner" "policy_order FirstOwner"
  by unfold_locales (auto simp: pop_opt_def)

interpretation latest_owner: requeue_queue "pop_opt LatestOwner" "policy_order LatestOwner"
  "requeue_waiter LatestOwner"
proof unfold_locales
  fix q :: "'a list" and w ws
  assume "policy_order LatestOwner q = w # ws"
  then have "q = rev ws @ [w]"
    by (metis policy_order.simps(2) rev.simps(2) rev_rev_ident)
  then show "\<exists>q'. pop_opt LatestOwner q = Some (w, q') \<and> policy_order LatestOwner q' = ws"
    by (simp add: pop_opt_def)
qed (auto simp: pop_opt_def)

interpretation fair_queue: requeue_queue "pop_opt FairQueue" "policy_order FairQueue"
  "requeue_waiter FairQueue"
  by unfold_locales (auto simp: pop_opt_def split: list.splits)

interpretation any_policy: service_queue "pop_opt p" "policy_order p" for p
  by (cases p)
    (simp_all add: first_owner.service_queue_axioms latest_owner.service_queue_axioms
      fair_queue.service_queue_axioms)

lemma pop_waiter_None: "pop_waiter p ws = (None, ws') \<Longrightarrow> ws' = ws \<and> policy_order p ws = []"
  by (cases p) (auto split: list.splits if_splits)

lemma pop_waiter_Some:
  "pop_waiter p ws = (Some w, ws') \<Longrightarrow>
    policy_order p ws = w # policy_order p ws' \<and> (ws = w # ws' \<or> ws = ws' @ [w])"
  by (cases p) (auto split: list.splits if_splits simp: rev_eq_Cons_iff
      intro: append_butlast_last_id [symmetric] simp flip: rev_swap)

lemma pop_waiter_shorter: "pop_waiter p ws = (Some w, ws') \<Longrightarrow> length ws = Suc (length ws')"
  by (auto dest!: pop_waiter_Some)

lemma set_requeue_waiter: "set (requeue_waiter p ws w) \<subseteq> insert w (set ws)"
  by (cases p) auto

end
