(* ===== verification/Engine_Model.thy ===== *)
theory Engine_Model
  imports Windowing_Policy
begin

text \<open>
  The policy engine (\<open>src/windowing/engine.rs\<close>): one slot per resource, the control registry, and
  one definition per operation of the actor.  The engine is single-threaded, so a command is one
  function from engine to engine; what it pushes into control channels is returned beside the new
  state, in the order it is pushed.

  Parameters: \<open>ok ch m\<close> says whether tokio's unbounded sender accepts \<open>m\<close> on channel \<open>ch\<close> (it
  does while the receiving connection task lives), and \<open>now\<close> is the clock reading of the command,
  in milliseconds.  Log lines are not modelled; a denial carries its reason as a value.
\<close>

section \<open>Data\<close>

type_synonym instant = nat
type_synonym chan = nat

definition REVOKE_TIMEOUT :: nat where
  "REVOKE_TIMEOUT = 5000"

datatype control_message =
  CtlRevoke resource
| CtlGrant resource
| CtlAdvertise "resource list"

type_synonym send_ok = "chan \<Rightarrow> control_message \<Rightarrow> bool"
type_synonym outbox = "(chan \<times> control_message) list"
type_synonym registry = "(client_id \<times> chan) list"

datatype deny_reason =
  NotRegistered resource
| AlreadyOwned resource
| DeviceAway resource
| HeldByClient resource client_id
| OwnedBy resource client_id
| NotAvailable resource
| EngineUnavailable

datatype acquire_outcome = OutcomeGranted | OutcomeQueued | OutcomeDenied deny_reason

record waiter =
  wclient :: client_id
  seat_claim :: bool

record slot =
  slot_policy :: policy
  owner :: "client_id option"
  waiters :: "waiter list"
  revoke_deadline :: "instant option"
  suspended :: bool

datatype engine_command =
  CmdSuspend resource
| CmdResume resource
| CmdRegister client_id chan
| CmdAcquire client_id resource
| CmdRelease client_id resource
| CmdDisconnected client_id
| CmdOffer resource policy
| CmdBroadcast control_message

record engine =
  slots :: "(resource \<times> slot) list"
  control_reg :: registry

definition send :: "send_ok \<Rightarrow> chan \<Rightarrow> control_message \<Rightarrow> outbox" where
  "send ok ch m = (if ok ch m then [(ch, m)] else [])"

definition put_slot :: "resource \<Rightarrow> slot \<Rightarrow> engine \<Rightarrow> engine" where
  "put_slot r s e = e\<lparr>slots := AList.update r s (slots e)\<rparr>"

text \<open>The loop \<open>for (resource, slot) in slots.iter_mut()\<close>.\<close>

definition each_slot :: "(resource \<Rightarrow> slot \<Rightarrow> slot \<times> outbox) \<Rightarrow> engine \<Rightarrow> engine \<times> outbox" where
  "each_slot f e =
     (e\<lparr>slots := map_entries (\<lambda>r s. fst (f r s)) (slots e)\<rparr>,
      concat (map (\<lambda>(r, s). snd (f r s)) (slots e)))"

section \<open>Slots\<close>

definition slot_state :: "slot \<Rightarrow> slot_state" where
  "slot_state s =
     (case (owner s, revoke_deadline s) of
        (None, _) \<Rightarrow> SlotFree
      | (Some _, None) \<Rightarrow> SlotGranted
      | (Some _, Some _) \<Rightarrow> SlotRevoking)"

definition is_queued :: "slot \<Rightarrow> client_id \<Rightarrow> bool" where
  "is_queued s c = list_ex (\<lambda>w. wclient w = c) (waiters s)"

definition pop_seat_claim :: "slot \<Rightarrow> (waiter \<times> slot) option" where
  "pop_seat_claim s =
     (case List.extract seat_claim (waiters s) of
        None \<Rightarrow> None
      | Some (before, w, after) \<Rightarrow> Some (w, s\<lparr>waiters := before @ after\<rparr>))"

definition slot_pop_waiter :: "slot \<Rightarrow> (waiter \<times> slot) option" where
  "slot_pop_waiter s =
     (case pop_waiter (slot_policy s) (waiters s) of
        (None, _) \<Rightarrow> None
      | (Some w, rest) \<Rightarrow> Some (w, s\<lparr>waiters := rest\<rparr>))"

definition new_slot :: "policy \<Rightarrow> slot" where
  "new_slot p =
     \<lparr>slot_policy = p, owner = None, waiters = [], revoke_deadline = None, suspended = False\<rparr>"

section \<open>Serving the queue\<close>

text \<open>The two nested matches at the head of the loop of \<open>grant_next\<close>.\<close>

definition next_waiter :: "slot \<Rightarrow> (waiter \<times> slot) option" where
  "next_waiter s =
     (case pop_seat_claim s of
        Some x \<Rightarrow> Some x
      | None \<Rightarrow> slot_pop_waiter s)"

lemma next_waiter_shorter:
  "next_waiter s = Some (w, s') \<Longrightarrow> length (waiters s) = Suc (length (waiters s'))"
  by (auto simp: next_waiter_def pop_seat_claim_def slot_pop_waiter_def extract_Some_iff
      split: option.splits prod.splits dest!: pop_waiter_shorter)

function grant_next :: "send_ok \<Rightarrow> registry \<Rightarrow> resource \<Rightarrow> slot \<Rightarrow> slot \<times> outbox" where
  "grant_next ok reg r s =
     (case next_waiter s of
        None \<Rightarrow> (s, [])
      | Some (w, s') \<Rightarrow>
          (case map_of reg (wclient w) of
             Some ch \<Rightarrow>
               if ok ch (CtlGrant r)
               then (s'\<lparr>owner := Some (wclient w)\<rparr>, [(ch, CtlGrant r)])
               else grant_next ok reg r s'
           | None \<Rightarrow> grant_next ok reg r s'))"
  by pat_completeness auto
termination
  by (relation "measure (\<lambda>(ok, reg, r, s). length (waiters s))") (auto dest: next_waiter_shorter)

declare grant_next.simps [simp del]

definition force_reclaim :: "send_ok \<Rightarrow> registry \<Rightarrow> resource \<Rightarrow> slot \<Rightarrow> slot \<times> outbox" where
  "force_reclaim ok reg r s = grant_next ok reg r (s\<lparr>owner := None, revoke_deadline := None\<rparr>)"

section \<open>The seat\<close>

fun is_display :: "resource \<Rightarrow> bool" where
  "is_display (Drm _) = True"
| "is_display Fbdev = True"
| "is_display _ = False"

definition holds_display :: "(resource \<times> slot) list \<Rightarrow> client_id \<Rightarrow> bool" where
  "holds_display sl c = list_ex (\<lambda>(r, s). is_display r \<and> owner s = Some c) sl"

fun revoke_held ::
  "send_ok \<Rightarrow> instant \<Rightarrow> client_id \<Rightarrow> resource list \<Rightarrow> engine \<Rightarrow> engine \<times> outbox" where
  "revoke_held ok now ex_seat [] e = (e, [])"
| "revoke_held ok now ex_seat (r # rs) e =
     (case map_of (control_reg e) ex_seat of
        None \<Rightarrow> revoke_held ok now ex_seat rs e
      | Some ch \<Rightarrow>
          (case map_of (slots e) r of
             None \<Rightarrow> revoke_held ok now ex_seat rs e
           | Some s \<Rightarrow>
               let (e', out) =
                 revoke_held ok now ex_seat rs
                   (put_slot r (s\<lparr>revoke_deadline := Some (now + REVOKE_TIMEOUT)\<rparr>) e)
               in (e', send ok ch (CtlRevoke r) @ out)))"

definition held_inputs :: "client_id \<Rightarrow> engine \<Rightarrow> resource list" where
  "held_inputs c e = map fst (filter (\<lambda>(r, s). is_input r \<and> owner s = Some c) (slots e))"

definition release_seat_inputs ::
  "send_ok \<Rightarrow> instant \<Rightarrow> client_id \<Rightarrow> engine \<Rightarrow> engine \<times> outbox" where
  "release_seat_inputs ok now ex_seat e = revoke_held ok now ex_seat (held_inputs ex_seat e) e"

section \<open>Acquire and release\<close>

text \<open>The arm \<open>RevokeAndQueue | Queue\<close> of \<open>acquire_one\<close>, for the slot \<open>s\<close> of \<open>r\<close>.\<close>

definition queue_waiter ::
  "send_ok \<Rightarrow> instant \<Rightarrow> client_id \<Rightarrow> resource \<Rightarrow> bool \<Rightarrow> slot \<Rightarrow> engine \<Rightarrow>
    acquire_outcome \<times> engine \<times> outbox" where
  "queue_waiter ok now c r seat_steal s e =
     (if is_queued s c then (OutcomeQueued, e, [])
      else
        let s1 = s\<lparr>waiters := waiters s @ [\<lparr>wclient = c, seat_claim = seat_steal\<rparr>]\<rparr>
        in (case (revoke_deadline s1, owner s1) of
              (None, Some ow) \<Rightarrow>
                (case map_of (control_reg e) ow of
                   Some ch \<Rightarrow>
                     (OutcomeQueued,
                      put_slot r (s1\<lparr>revoke_deadline := Some (now + REVOKE_TIMEOUT)\<rparr>) e,
                      send ok ch (CtlRevoke r))
                 | None \<Rightarrow>
                     let (s2, out) = grant_next ok (control_reg e) r (s1\<lparr>owner := None\<rparr>)
                     in (OutcomeQueued, put_slot r s2 e, out))
            | _ \<Rightarrow> (OutcomeQueued, put_slot r s1 e, [])))"

definition acquire_one ::
  "send_ok \<Rightarrow> instant \<Rightarrow> client_id \<Rightarrow> resource \<Rightarrow> engine \<Rightarrow> acquire_outcome \<times> engine \<times> outbox" where
  "acquire_one ok now c r e =
     (let requester_is_seat = holds_display (slots e) c;
          holder = Option.bind (map_of (slots e) r) owner;
          holder_is_seat = (case holder of None \<Rightarrow> False | Some ow \<Rightarrow> holds_display (slots e) ow)
      in (case map_of (slots e) r of
            None \<Rightarrow> (OutcomeDenied (NotRegistered r), e, [])
          | Some s \<Rightarrow>
              if owner s = Some c then (OutcomeDenied (AlreadyOwned r), e, [])
              else if suspended s then (OutcomeDenied (DeviceAway r), e, [])
              else (case (if is_input r \<and> \<not> requester_is_seat then holder else None) of
                      Some ow \<Rightarrow> (OutcomeDenied (HeldByClient r ow), e, [])
                    | None \<Rightarrow>
                        let seat_steal =
                              (is_input r \<and> requester_is_seat \<and> holder \<noteq> None \<and> \<not> holder_is_seat);
                            decision =
                              (if seat_steal then DecideRevokeAndQueue
                               else decide (slot_policy s) (slot_state s))
                        in (case decision of
                              DecideGrant \<Rightarrow>
                                (OutcomeGranted, put_slot r (s\<lparr>owner := Some c\<rparr>) e, [])
                            | DecideDeny \<Rightarrow>
                                (OutcomeDenied (case owner s of Some ow \<Rightarrow> OwnedBy r ow
                                                | None \<Rightarrow> NotAvailable r), e, [])
                            | DecideRevokeAndQueue \<Rightarrow> queue_waiter ok now c r seat_steal s e
                            | DecideQueue \<Rightarrow> queue_waiter ok now c r seat_steal s e))))"

definition release_slot ::
  "send_ok \<Rightarrow> registry \<Rightarrow> client_id \<Rightarrow> resource \<Rightarrow> slot \<Rightarrow> slot \<times> outbox" where
  "release_slot ok reg c r s =
     (let revoking = (revoke_deadline s \<noteq> None);
          s1 = s\<lparr>owner := None, revoke_deadline := None\<rparr>;
          s2 = (if revoking \<and> waiters s1 \<noteq> []
                then s1\<lparr>waiters := requeue_waiter (slot_policy s1) (waiters s1)
                                    \<lparr>wclient = c, seat_claim = False\<rparr>\<rparr>
                else s1)
      in grant_next ok reg r s2)"

definition release_one ::
  "send_ok \<Rightarrow> client_id \<Rightarrow> resource \<Rightarrow> engine \<Rightarrow> engine \<times> outbox" where
  "release_one ok c r e =
     (case map_of (slots e) r of
        None \<Rightarrow> (e, [])
      | Some s \<Rightarrow>
          if owner s \<noteq> Some c then (e, [])
          else let (s', out) = release_slot ok (control_reg e) c r s in (put_slot r s' e, out))"

section \<open>Commands\<close>

definition disconnect_slot ::
  "send_ok \<Rightarrow> registry \<Rightarrow> client_id \<Rightarrow> resource \<Rightarrow> slot \<Rightarrow> slot \<times> outbox" where
  "disconnect_slot ok reg c r s =
     (let s1 = s\<lparr>waiters := filter (\<lambda>w. wclient w \<noteq> c) (waiters s)\<rparr>
      in if owner s1 = Some c
         then grant_next ok reg r (s1\<lparr>owner := None, revoke_deadline := None\<rparr>)
         else (s1, []))"

definition handle_disconnected :: "send_ok \<Rightarrow> client_id \<Rightarrow> engine \<Rightarrow> engine \<times> outbox" where
  "handle_disconnected ok c e =
     (let e1 = e\<lparr>control_reg := AList.delete c (control_reg e)\<rparr>
      in each_slot (disconnect_slot ok (control_reg e1) c) e1)"

definition handle_release_cmd ::
  "send_ok \<Rightarrow> instant \<Rightarrow> client_id \<Rightarrow> resource \<Rightarrow> engine \<Rightarrow> engine \<times> outbox" where
  "handle_release_cmd ok now c r e =
     (let left_seat = (is_display r \<and> Option.bind (map_of (slots e) r) owner = Some c);
          (e1, out1) = release_one ok c r e
      in if left_seat
         then let (e2, out2) = release_seat_inputs ok now c e1 in (e2, out1 @ out2)
         else (e1, out1))"

definition handle_broadcast :: "send_ok \<Rightarrow> control_message \<Rightarrow> engine \<Rightarrow> outbox" where
  "handle_broadcast ok m e = concat (map (\<lambda>(c, ch). send ok ch m) (control_reg e))"

definition handle_suspend :: "resource \<Rightarrow> engine \<Rightarrow> engine" where
  "handle_suspend r e =
     (case map_of (slots e) r of
        None \<Rightarrow> e
      | Some s \<Rightarrow> put_slot r (s\<lparr>suspended := True, revoke_deadline := None\<rparr>) e)"

definition handle_resume :: "send_ok \<Rightarrow> resource \<Rightarrow> engine \<Rightarrow> engine \<times> outbox" where
  "handle_resume ok r e =
     (case map_of (slots e) r of
        None \<Rightarrow> (e, [])
      | Some s \<Rightarrow>
          if \<not> suspended s then (e, [])
          else
            let s1 = s\<lparr>suspended := False\<rparr>
            in (case owner s1 of
                  Some ow \<Rightarrow>
                    (case map_of (control_reg e) ow of
                       Some ch \<Rightarrow> (put_slot r s1 e, send ok ch (CtlGrant r))
                     | None \<Rightarrow> (put_slot r (s1\<lparr>owner := None\<rparr>) e, []))
                | None \<Rightarrow> (put_slot r s1 e, [])))"

definition handle_offer :: "resource \<Rightarrow> policy \<Rightarrow> engine \<Rightarrow> engine" where
  "handle_offer r p e = (if map_of (slots e) r \<noteq> None then e else put_slot r (new_slot p) e)"

text \<open>The reply of an acquire is the first component; the other commands have none.\<close>

fun handle_command ::
  "send_ok \<Rightarrow> instant \<Rightarrow> engine_command \<Rightarrow> engine \<Rightarrow> acquire_outcome option \<times> engine \<times> outbox" where
  "handle_command ok now (CmdRegister c ch) e =
     (None, e\<lparr>control_reg := AList.update c ch (control_reg e)\<rparr>, [])"
| "handle_command ok now (CmdDisconnected c) e = (None, handle_disconnected ok c e)"
| "handle_command ok now (CmdAcquire c r) e =
     (let (res, e', out) = acquire_one ok now c r e in (Some res, e', out))"
| "handle_command ok now (CmdRelease c r) e = (None, handle_release_cmd ok now c r e)"
| "handle_command ok now (CmdBroadcast m) e = (None, e, handle_broadcast ok m e)"
| "handle_command ok now (CmdSuspend r) e = (None, handle_suspend r e, [])"
| "handle_command ok now (CmdResume r) e = (None, handle_resume ok r e)"
| "handle_command ok now (CmdOffer r p) e = (None, handle_offer r p e, [])"

section \<open>The actor loop\<close>

text \<open>The engine starts with one free slot per resource of the policy map.\<close>

definition init_engine :: "(resource \<times> policy) list \<Rightarrow> engine" where
  "init_engine policies =
     \<lparr>slots = map (\<lambda>(r, p). (r, new_slot p)) policies, control_reg = []\<rparr>"

definition deadlines :: "engine \<Rightarrow> instant list" where
  "deadlines e = List.map_filter (\<lambda>(r, s). revoke_deadline s) (slots e)"

definition next_deadline :: "engine \<Rightarrow> instant option" where
  "next_deadline e = (case deadlines e of [] \<Rightarrow> None | d # ds \<Rightarrow> Some (fold min ds d))"

definition expired :: "instant \<Rightarrow> slot \<Rightarrow> bool" where
  "expired now s = (case revoke_deadline s of None \<Rightarrow> False | Some d \<Rightarrow> d \<le> now)"

definition reclaim_slot ::
  "send_ok \<Rightarrow> registry \<Rightarrow> instant \<Rightarrow> resource \<Rightarrow> slot \<Rightarrow> slot \<times> outbox" where
  "reclaim_slot ok reg now r s = (if expired now s then force_reclaim ok reg r s else (s, []))"

definition expired_seats :: "instant \<Rightarrow> engine \<Rightarrow> client_id list" where
  "expired_seats now e =
     List.map_filter (\<lambda>(r, s). if expired now s \<and> is_display r then owner s else None) (slots e)"

fun release_all_seats ::
  "send_ok \<Rightarrow> instant \<Rightarrow> client_id list \<Rightarrow> engine \<Rightarrow> engine \<times> outbox" where
  "release_all_seats ok now [] e = (e, [])"
| "release_all_seats ok now (c # cs) e =
     (let (e1, out1) = release_seat_inputs ok now c e;
          (e2, out2) = release_all_seats ok now cs e1
      in (e2, out1 @ out2))"

definition handle_timeout :: "send_ok \<Rightarrow> instant \<Rightarrow> engine \<Rightarrow> engine \<times> outbox" where
  "handle_timeout ok now e =
     (let (e1, out1) = each_slot (reclaim_slot ok (control_reg e) now) e;
          (e2, out2) = release_all_seats ok now (expired_seats now e) e1
      in (e2, out1 @ out2))"

text \<open>The loop fed with a finite run of timed commands, none of which meets a passed deadline.\<close>

fun run_commands ::
  "send_ok \<Rightarrow> (instant \<times> engine_command) list \<Rightarrow> engine \<Rightarrow>
    acquire_outcome option list \<times> engine \<times> outbox" where
  "run_commands ok [] e = ([], e, [])"
| "run_commands ok ((now, cmd) # cmds) e =
     (let (res, e1, out1) = handle_command ok now cmd e;
          (ress, e2, out2) = run_commands ok cmds e1
      in (res # ress, e2, out1 @ out2))"

text \<open>
  One turn of the loop of \<open>run_engine\<close>: a command arrives, or the earliest deadline has passed.
  The clock never goes back.  An acquire comes from a connection task, which registers its client
  before it reads a request and reports the disconnect last; \<open>admissible\<close> says so.
\<close>

record engine_sys =
  eng :: engine
  clock :: instant

fun admissible :: "engine \<Rightarrow> engine_command \<Rightarrow> bool" where
  "admissible e (CmdAcquire c _) = (map_of (control_reg e) c \<noteq> None)"
| "admissible e _ = True"

datatype engine_event =
  Handled engine_command "acquire_outcome option" outbox
| TimedOut outbox

inductive engine_step :: "engine_sys \<Rightarrow> engine_event \<Rightarrow> engine_sys \<Rightarrow> bool" where
  step_command:
    "clock s \<le> now \<Longrightarrow> admissible (eng s) cmd \<Longrightarrow>
     handle_command ok now cmd (eng s) = (res, e', out) \<Longrightarrow>
     engine_step s (Handled cmd res out) \<lparr>eng = e', clock = now\<rparr>"
| step_timeout:
    "next_deadline (eng s) = Some d \<Longrightarrow> clock s \<le> now \<Longrightarrow> d \<le> now \<Longrightarrow>
     handle_timeout ok now (eng s) = (e', out) \<Longrightarrow>
     engine_step s (TimedOut out) \<lparr>eng = e', clock = now\<rparr>"

inductive_cases engine_step_HandledE: "engine_step s (Handled cmd res out) t"
inductive_cases engine_step_TimedOutE: "engine_step s (TimedOut out) t"

definition engine_start :: "engine_sys \<Rightarrow> bool" where
  "engine_start s = (\<exists>policies. distinct (map fst policies) \<and> eng s = init_engine policies)"

end
