(* ===== verification/Engine_Service.thy ===== *)
theory Engine_Service
  imports Engine_Model
begin

text \<open>
  How a freed slot is handed over.  \<open>service_order\<close> is the abstract queue of a slot: the seat's
  claims in arrival order, then the other waiters in the order of the policy.  The pop of the loop
  of \<open>grant_next\<close> is an interpretation of the queue locale over it, and \<open>grant_next\<close> itself
  serves the first waiter of that order that can be reached.
\<close>

section \<open>The abstract queue\<close>

definition service_order :: "slot \<Rightarrow> waiter list" where
  "service_order s =
     filter seat_claim (waiters s) @
     policy_order (slot_policy s) (filter (\<lambda>w. \<not> seat_claim w) (waiters s))"

definition deliverable :: "send_ok \<Rightarrow> registry \<Rightarrow> resource \<Rightarrow> waiter \<Rightarrow> bool" where
  "deliverable ok reg r w =
     (case map_of reg (wclient w) of None \<Rightarrow> False | Some ch \<Rightarrow> ok ch (CtlGrant r))"

lemma pop_seat_claim_None: "pop_seat_claim s = None \<longleftrightarrow> filter seat_claim (waiters s) = []"
  using extract_None_iff [of seat_claim "waiters s"]
  by (auto simp: pop_seat_claim_def filter_empty_conv split: option.splits)

lemma pop_seat_claim_Some:
  "pop_seat_claim s = Some (w, s') \<longleftrightarrow>
    (\<exists>us vs. waiters s = us @ w # vs \<and> s' = s\<lparr>waiters := us @ vs\<rparr> \<and> seat_claim w \<and>
      (\<forall>u\<in>set us. \<not> seat_claim u))"
proof -
  have "pop_seat_claim s = Some (w, s') \<longleftrightarrow>
      (\<exists>us vs. List.extract seat_claim (waiters s) = Some (us, w, vs) \<and>
        s' = s\<lparr>waiters := us @ vs\<rparr>)"
    by (auto simp: pop_seat_claim_def split: option.splits)
  then show ?thesis
    by (auto simp: extract_Some_iff)
qed

lemma next_waiter_split:
  assumes "next_waiter s = Some (w, s')"
  obtains us vs where "waiters s = us @ w # vs" "s' = s\<lparr>waiters := us @ vs\<rparr>"
proof (cases "pop_seat_claim s")
  case None
  with assms have "pop_waiter (slot_policy s) (waiters s) = (Some w, waiters s')"
    and "s' = s\<lparr>waiters := waiters s'\<rparr>"
    by (auto simp: next_waiter_def slot_pop_waiter_def split: prod.splits option.splits)
  then show thesis
    using that [of "[]" "waiters s'"] that [of "waiters s'" "[]"] by (auto dest!: pop_waiter_Some)
next
  case (Some x)
  with assms that show thesis
    by (auto simp: next_waiter_def pop_seat_claim_Some)
qed

lemma service_order_no_claims:
  "filter seat_claim (waiters s) = [] \<Longrightarrow>
    service_order s = policy_order (slot_policy s) (waiters s)"
  by (auto simp: service_order_def filter_empty_conv intro!: arg_cong2 [where f = policy_order])

interpretation slot_service: service_queue next_waiter service_order
proof unfold_locales
  fix s assume empty: "service_order s = []"
  then have "pop_seat_claim s = None" and "policy_order (slot_policy s) (waiters s) = []"
    using service_order_no_claims [of s] by (auto simp: service_order_def pop_seat_claim_None)
  then show "next_waiter s = None"
    by (auto simp: next_waiter_def slot_pop_waiter_def split: prod.splits option.splits
        dest: pop_waiter_Some)
next
  fix s w ws assume head: "service_order s = w # ws"
  show "\<exists>s'. next_waiter s = Some (w, s') \<and> service_order s' = ws"
  proof (cases "pop_seat_claim s")
    case None
    then have no_claim: "filter seat_claim (waiters s) = []"
      by (simp add: pop_seat_claim_None)
    with head have "pop_opt (slot_policy s) (waiters s) \<noteq> None"
      by (simp add: any_policy.pop_None_iff service_order_no_claims)
    then obtain v rest where pop: "pop_waiter (slot_policy s) (waiters s) = (Some v, rest)"
      by (auto simp: pop_opt_def split: prod.splits option.splits)
    then have "filter seat_claim rest = []"
      using no_claim by (auto dest!: pop_waiter_Some split: if_splits)
    with pop no_claim head None show ?thesis
      by (auto simp: next_waiter_def slot_pop_waiter_def service_order_no_claims
          dest: pop_waiter_Some)
  next
    case (Some x)
    then obtain v us vs where split: "waiters s = us @ v # vs" "seat_claim v"
        "\<forall>u\<in>set us. \<not> seat_claim u" and "pop_seat_claim s = Some (v, s\<lparr>waiters := us @ vs\<rparr>)"
      by (cases x) (auto simp: pop_seat_claim_Some)
    moreover have "filter seat_claim us = []"
      using split by (simp add: filter_empty_conv)
    ultimately show ?thesis
      using head by (auto simp: next_waiter_def service_order_def)
  qed
qed

lemma service_order_set: "set (service_order s) \<subseteq> set (waiters s)"
  unfolding service_order_def using set_policy_order by fastforce

text \<open>A queue that the policy can serve completely has nobody left when its order is empty.\<close>

lemma service_order_Nil_waiters:
  assumes "service_order s = []" and "slot_policy s = FirstOwner \<Longrightarrow> \<forall>w\<in>set (waiters s). seat_claim w"
  shows "waiters s = []"
proof (cases "slot_policy s")
  case FirstOwner
  with assms show ?thesis
    by (cases "waiters s") (auto simp: service_order_def filter_empty_conv)
qed (use assms in \<open>auto simp: service_order_def filter_empty_conv\<close>)

section \<open>The hand-over loop\<close>

lemma grant_next_nobody: "next_waiter s = None \<Longrightarrow> grant_next ok reg r s = (s, [])"
  by (simp add: grant_next.simps)

lemma grant_next_served:
  "next_waiter s = Some (w, s') \<Longrightarrow> map_of reg (wclient w) = Some ch \<Longrightarrow> ok ch (CtlGrant r) \<Longrightarrow>
    grant_next ok reg r s = (s'\<lparr>owner := Some (wclient w)\<rparr>, [(ch, CtlGrant r)])"
  by (simp add: grant_next.simps)

lemma grant_next_skipped:
  "next_waiter s = Some (w, s') \<Longrightarrow> \<not> deliverable ok reg r w \<Longrightarrow>
    grant_next ok reg r s = grant_next ok reg r s'"
  by (simp add: grant_next.simps [of ok reg r s] deliverable_def split: option.splits)

text \<open>Induction over the loop: it stops with nobody, serves a waiter, or drops one and goes on.\<close>

lemma grant_next_rule [case_names nobody served skipped]:
  assumes nobody: "\<And>s. next_waiter s = None \<Longrightarrow> P s (s, [])"
    and served: "\<And>s w us vs ch. next_waiter s = Some (w, s\<lparr>waiters := us @ vs\<rparr>) \<Longrightarrow>
      waiters s = us @ w # vs \<Longrightarrow> map_of reg (wclient w) = Some ch \<Longrightarrow> ok ch (CtlGrant r) \<Longrightarrow>
      P s (s\<lparr>waiters := us @ vs, owner := Some (wclient w)\<rparr>, [(ch, CtlGrant r)])"
    and skipped: "\<And>s w us vs x. next_waiter s = Some (w, s\<lparr>waiters := us @ vs\<rparr>) \<Longrightarrow>
      waiters s = us @ w # vs \<Longrightarrow> \<not> deliverable ok reg r w \<Longrightarrow>
      P (s\<lparr>waiters := us @ vs\<rparr>) x \<Longrightarrow> P s x"
  shows "P s (grant_next ok reg r s)"
proof (induction "length (waiters s)" arbitrary: s)
  case 0
  then have "next_waiter s = None"
    by (cases "next_waiter s") (auto dest: next_waiter_shorter)
  then show ?case
    using nobody by (simp add: grant_next_nobody)
next
  case (Suc n)
  show ?case
  proof (cases "next_waiter s")
    case None
    then show ?thesis
      using nobody by (simp add: grant_next_nobody)
  next
    case (Some p)
    then obtain w s' where nw: "next_waiter s = Some (w, s')" by (cases p) auto
    then obtain us vs where split: "waiters s = us @ w # vs" "s' = s\<lparr>waiters := us @ vs\<rparr>"
      by (rule next_waiter_split)
    show ?thesis
    proof (cases "deliverable ok reg r w")
      case True
      with nw split served show ?thesis
        by (auto simp: deliverable_def grant_next_served split: option.splits)
    next
      case False
      have "P s' (grant_next ok reg r s')"
        using Suc split by simp
      with False nw split skipped show ?thesis
        by (simp add: grant_next_skipped)
    qed
  qed
qed

lemma grant_next_frame [sgc_frame]:
  "slot_policy (fst (grant_next ok reg r s)) = slot_policy s \<and>
   revoke_deadline (fst (grant_next ok reg r s)) = revoke_deadline s \<and>
   suspended (fst (grant_next ok reg r s)) = suspended s \<and>
   subseq (waiters (fst (grant_next ok reg r s))) (waiters s)"
proof (rule grant_next_rule)
  fix s w us vs x
  assume "waiters s = us @ w # vs"
    and "slot_policy (fst x) = slot_policy (s\<lparr>waiters := us @ vs\<rparr>) \<and>
      revoke_deadline (fst x) = revoke_deadline (s\<lparr>waiters := us @ vs\<rparr>) \<and>
      suspended (fst x) = suspended (s\<lparr>waiters := us @ vs\<rparr>) \<and>
      subseq (waiters (fst x)) (waiters (s\<lparr>waiters := us @ vs\<rparr>))"
  then show "slot_policy (fst x) = slot_policy s \<and> revoke_deadline (fst x) = revoke_deadline s \<and>
      suspended (fst x) = suspended s \<and> subseq (waiters (fst x)) (waiters s)"
    using subseq_order.trans [of "waiters (fst x)" "us @ vs" "us @ w # vs"]
    by (simp add: subseq_append' list_emb_Cons)
qed (auto simp: subseq_append' list_emb_Cons)

lemmas grant_next_simps [simp] =
  grant_next_frame [THEN conjunct1]
  grant_next_frame [THEN conjunct2, THEN conjunct1]
  grant_next_frame [THEN conjunct2, THEN conjunct2, THEN conjunct1]

lemmas grant_next_subseq = grant_next_frame [THEN conjunct2, THEN conjunct2, THEN conjunct2]

text \<open>What a hand-over of slot \<open>s\<close> must produce, on the abstract queue.\<close>

definition handed_over ::
  "send_ok \<Rightarrow> registry \<Rightarrow> resource \<Rightarrow> slot \<Rightarrow> slot \<times> outbox \<Rightarrow> bool" where
  "handed_over ok reg r s res =
     (case dropWhile (\<lambda>w. \<not> deliverable ok reg r w) (service_order s) of
        [] \<Rightarrow> owner (fst res) = owner s \<and> service_order (fst res) = [] \<and> snd res = []
      | w # rest \<Rightarrow> owner (fst res) = Some (wclient w) \<and> service_order (fst res) = rest \<and>
          (\<exists>ch. map_of reg (wclient w) = Some ch \<and> snd res = [(ch, CtlGrant r)]))"

lemma service_order_owner [simp]: "service_order (s\<lparr>owner := x\<rparr>) = service_order s"
  by (simp add: service_order_def)

lemma service_order_deadline [simp]: "service_order (s\<lparr>revoke_deadline := x\<rparr>) = service_order s"
  by (simp add: service_order_def)

lemma grant_next_handed_over: "handed_over ok reg r s (grant_next ok reg r s)"
proof (rule grant_next_rule [where P = "handed_over ok reg r"])
  fix s assume "next_waiter s = None"
  then show "handed_over ok reg r s (s, [])"
    by (simp add: handed_over_def slot_service.pop_None_iff)
next
  fix s w us vs ch
  assume nw: "next_waiter s = Some (w, s\<lparr>waiters := us @ vs\<rparr>)"
    and "map_of reg (wclient w) = Some ch" "ok ch (CtlGrant r)"
  with slot_service.pop_Some_order [OF nw]
  show "handed_over ok reg r s
      (s\<lparr>waiters := us @ vs, owner := Some (wclient w)\<rparr>, [(ch, CtlGrant r)])"
    by (simp add: handed_over_def deliverable_def)
next
  fix s w us vs x
  assume nw: "next_waiter s = Some (w, s\<lparr>waiters := us @ vs\<rparr>)" "\<not> deliverable ok reg r w"
    and "handed_over ok reg r (s\<lparr>waiters := us @ vs\<rparr>) x"
  with slot_service.pop_Some_order [OF nw(1)] show "handed_over ok reg r s x"
    by (cases "dropWhile (\<lambda>w. \<not> deliverable ok reg r w) (service_order (s\<lparr>waiters := us @ vs\<rparr>))")
      (simp_all add: handed_over_def)
qed

text \<open>The same fact as case distinctions, for the proofs that follow.\<close>

lemma grant_next_out_cases:
  obtains (nobody) "owner (fst (grant_next ok reg r s)) = owner s" "snd (grant_next ok reg r s) = []"
      "service_order (fst (grant_next ok reg r s)) = []"
    | (served) w ch where "w \<in> set (waiters s)" "map_of reg (wclient w) = Some ch"
      "owner (fst (grant_next ok reg r s)) = Some (wclient w)"
      "snd (grant_next ok reg r s) = [(ch, CtlGrant r)]"
proof (cases "dropWhile (\<lambda>w. \<not> deliverable ok reg r w) (service_order s)")
  case Nil
  with grant_next_handed_over [of ok reg r s, unfolded handed_over_def] nobody show thesis by simp
next
  case (Cons w rest)
  then have "w \<in> set (waiters s)"
    using service_order_set [of s] by (force simp: dropWhile_Cons_split)
  with Cons grant_next_handed_over [of ok reg r s, unfolded handed_over_def] served show thesis by auto
qed

lemma grant_next_owner_not_waiting:
  assumes "distinct (map wclient (waiters s))" "owner s = None"
    and "owner (fst (grant_next ok reg r s)) = Some c"
  shows "c \<notin> wclient ` set (waiters (fst (grant_next ok reg r s)))"
proof -
  have "distinct (map wclient (waiters s)) \<longrightarrow> owner s = None \<longrightarrow>
      owner (fst (grant_next ok reg r s)) = Some c \<longrightarrow>
      c \<notin> wclient ` set (waiters (fst (grant_next ok reg r s)))"
    by (rule grant_next_rule) auto
  with assms show ?thesis by blast
qed

end
