(* ===== verification/Engine_Invariants.thy ===== *)
theory Engine_Invariants
  imports Engine_Service
begin

text \<open>
  The well-formedness invariant of the engine and that every command and every timeout keeps it;
  with the transition-system locale this gives the invariant in every reachable state.
\<close>

section \<open>The invariant\<close>

text \<open>
  For the slot \<open>s\<close> of \<open>r\<close> under the registry \<open>reg\<close>: nobody waits twice; the owner is connected
  and does not wait; waiters are connected; a free slot has no waiters and no revoke in flight;
  a first-owner slot queues only the seat's claims; only inputs have such claims.
\<close>

definition slot_inv :: "(client_id \<rightharpoonup> chan) \<Rightarrow> resource \<Rightarrow> slot \<Rightarrow> bool" where
  "slot_inv reg r s \<longleftrightarrow>
     distinct (map wclient (waiters s)) \<and>
     (\<forall>c. owner s = Some c \<longrightarrow> c \<in> dom reg \<and> c \<notin> wclient ` set (waiters s)) \<and>
     wclient ` set (waiters s) \<subseteq> dom reg \<and>
     (owner s = None \<longrightarrow> waiters s = [] \<and> revoke_deadline s = None) \<and>
     (slot_policy s = FirstOwner \<longrightarrow> (\<forall>w\<in>set (waiters s). seat_claim w)) \<and>
     (\<forall>w\<in>set (waiters s). seat_claim w \<longrightarrow> is_input r)"

definition engine_inv :: "engine \<Rightarrow> bool" where
  "engine_inv e \<longleftrightarrow>
     distinct (map fst (slots e)) \<and> distinct (map fst (control_reg e)) \<and>
     (\<forall>r s. map_of (slots e) r = Some s \<longrightarrow> slot_inv (map_of (control_reg e)) r s)"

lemma engine_invD:
  assumes "engine_inv e"
  shows "distinct (map fst (slots e))" "distinct (map fst (control_reg e))"
    and "map_of (slots e) r = Some s \<Longrightarrow> slot_inv (map_of (control_reg e)) r s"
  using assms by (auto simp: engine_inv_def)

lemma engine_inv_put_slot:
  "engine_inv e \<Longrightarrow> slot_inv (map_of (control_reg e)) r s \<Longrightarrow> engine_inv (put_slot r s e)"
  by (auto simp: engine_inv_def put_slot_def)

lemma slot_inv_registry_mono: "slot_inv reg r s \<Longrightarrow> dom reg \<subseteq> dom reg' \<Longrightarrow> slot_inv reg' r s"
  unfolding slot_inv_def by blast

lemma slot_inv_new_slot: "slot_inv reg r (new_slot p)"
  by (simp add: slot_inv_def new_slot_def)

section \<open>Handing a slot over keeps it\<close>

text \<open>What a slot must satisfy when it is freed, just before \<open>grant_next\<close>.\<close>

definition freed :: "(client_id \<rightharpoonup> chan) \<Rightarrow> resource \<Rightarrow> slot \<Rightarrow> bool" where
  "freed reg r s \<longleftrightarrow>
     owner s = None \<and> revoke_deadline s = None \<and> distinct (map wclient (waiters s)) \<and>
     wclient ` set (waiters s) \<subseteq> dom reg \<and>
     (slot_policy s = FirstOwner \<longrightarrow> (\<forall>w\<in>set (waiters s). seat_claim w)) \<and>
     (\<forall>w\<in>set (waiters s). seat_claim w \<longrightarrow> is_input r)"

lemma subseq_setD: "subseq xs ys \<Longrightarrow> set xs \<subseteq> set ys"
  by (auto simp: subseq_conv_nths set_nths)

lemma subseq_distinct_map: "subseq xs ys \<Longrightarrow> distinct (map f ys) \<Longrightarrow> distinct (map f xs)"
  by (auto simp: subseq_conv_nths nths_map [symmetric] distinct_nthsI)

lemma grant_next_inv:
  assumes "freed (map_of reg) r s"
  shows "slot_inv (map_of reg) r (fst (grant_next ok reg r s))"
proof -
  let ?s' = "fst (grant_next ok reg r s)"
  have sub: "set (waiters ?s') \<subseteq> set (waiters s)"
    by (rule subseq_setD [OF grant_next_subseq])
  have dist: "distinct (map wclient (waiters ?s'))"
    using assms by (simp add: freed_def subseq_distinct_map [OF grant_next_subseq])
  have owner_ok: "c \<in> dom (map_of reg) \<and> c \<notin> wclient ` set (waiters ?s')" if "owner ?s' = Some c" for c
    using assms that grant_next_owner_not_waiting [of s ok reg r c]
    by (cases rule: grant_next_out_cases [of ok reg r s]) (auto simp: freed_def)
  have free_ok: "waiters ?s' = []" if "owner ?s' = None"
    using assms that sub
    by (cases rule: grant_next_out_cases [of ok reg r s])
      (auto simp: freed_def intro!: service_order_Nil_waiters)
  have "wclient ` set (waiters ?s') \<subseteq> dom (map_of reg)"
    using sub assms unfolding freed_def by blast
  then show ?thesis
    using assms sub dist owner_ok free_ok by (simp add: slot_inv_def freed_def subset_iff) blast
qed

lemma slot_inv_freed:
  "slot_inv reg r s \<Longrightarrow> freed reg r (s\<lparr>owner := None, revoke_deadline := None\<rparr>)"
  by (auto simp: slot_inv_def freed_def)

lemma force_reclaim_inv:
  "slot_inv (map_of reg) r s \<Longrightarrow> slot_inv (map_of reg) r (fst (force_reclaim ok reg r s))"
  by (simp add: force_reclaim_def grant_next_inv slot_inv_freed)

lemma reclaim_slot_inv:
  "slot_inv (map_of reg) r s \<Longrightarrow> slot_inv (map_of reg) r (fst (reclaim_slot ok reg now r s))"
  by (simp add: reclaim_slot_def force_reclaim_inv)

lemma disconnect_slot_inv:
  assumes "slot_inv (map_of reg) r s"
  shows "slot_inv (map_of (AList.delete c reg)) r (fst (disconnect_slot ok (AList.delete c reg) c r s))"
proof (cases "owner s = Some c")
  case True
  have "freed (map_of (AList.delete c reg)) r
      (s\<lparr>waiters := filter (\<lambda>w. wclient w \<noteq> c) (waiters s), owner := None, revoke_deadline := None\<rparr>)"
    using assms by (auto simp: slot_inv_def freed_def distinct_map_filter_keep)
  from grant_next_inv [OF this] True show ?thesis
    by (simp add: disconnect_slot_def)
next
  case False
  then show ?thesis
    using assms by (auto simp: slot_inv_def disconnect_slot_def distinct_map_filter_keep)
qed

lemma release_slot_inv:
  assumes "slot_inv (map_of reg) r s" "owner s = Some c"
  shows "slot_inv (map_of reg) r (fst (release_slot ok reg c r s))"
proof -
  have "freed (map_of reg) r (s\<lparr>owner := None, revoke_deadline := None,
      waiters := requeue_waiter (slot_policy s) (waiters s) \<lparr>wclient = c, seat_claim = False\<rparr>\<rparr>)"
    using assms by (cases "slot_policy s") (auto simp: slot_inv_def freed_def)
  with assms show ?thesis
    by (auto simp: release_slot_def Let_def intro!: grant_next_inv slot_inv_freed)
qed

section \<open>Every command keeps it\<close>

lemma queue_waiter_inv:
  assumes inv: "engine_inv e" and s: "map_of (slots e) r = Some s"
    and c: "c \<in> dom (map_of (control_reg e))" and not_owner: "owner s \<noteq> Some c"
    and held: "owner s \<noteq> None"
    and claim: "seat_steal \<Longrightarrow> is_input r" "slot_policy s = FirstOwner \<Longrightarrow> seat_steal"
  shows "engine_inv (fst (snd (queue_waiter ok now c r seat_steal s e)))"
proof -
  let ?s1 = "s\<lparr>waiters := waiters s @ [\<lparr>wclient = c, seat_claim = seat_steal\<rparr>]\<rparr>"
  have sinv: "slot_inv (map_of (control_reg e)) r s"
    using inv s by (rule engine_invD)
  then obtain ow ch where ow: "owner s = Some ow" "map_of (control_reg e) ow = Some ch"
    using held by (auto simp: slot_inv_def)
  have "slot_inv (map_of (control_reg e)) r (?s1\<lparr>revoke_deadline := d\<rparr>)" if "\<not> is_queued s c" for d
    using sinv c not_owner ow claim that
    by (auto simp: slot_inv_def is_queued_def list_ex_iff)
  from this [of "revoke_deadline s"] this show ?thesis
    using inv ow by (auto simp: queue_waiter_def Let_def engine_inv_put_slot split: option.splits)
qed

lemma decide_queues:
  "decide p (slot_state s) = DecideRevokeAndQueue \<or> decide p (slot_state s) = DecideQueue \<Longrightarrow>
    p \<noteq> FirstOwner \<and> owner s \<noteq> None"
  by (cases p) (auto simp: slot_state_def split: option.splits)

lemma decide_grants: "decide p (slot_state s) = DecideGrant \<longleftrightarrow> owner s = None"
  by (cases p) (auto simp: slot_state_def split: option.splits)

lemma acquire_one_inv:
  assumes inv: "engine_inv e" and c: "c \<in> dom (map_of (control_reg e))"
  shows "engine_inv (fst (snd (acquire_one ok now c r e)))"
proof (cases "map_of (slots e) r")
  case None
  then show ?thesis using inv by (simp add: acquire_one_def)
next
  case (Some s)
  then have sinv: "slot_inv (map_of (control_reg e)) r s"
    using inv by (simp add: engine_invD)
  have "slot_inv (map_of (control_reg e)) r (s\<lparr>owner := Some c\<rparr>)" if "owner s = None"
    using sinv c that by (auto simp: slot_inv_def)
  then have grant: "engine_inv (put_slot r (s\<lparr>owner := Some c\<rparr>) e)" if "owner s = None"
    using inv that by (simp add: engine_inv_put_slot)
  show ?thesis
    using inv Some grant decide_queues [of "slot_policy s" s] decide_grants [of "slot_policy s" s]
    by (auto simp: acquire_one_def Let_def split: option.splits acquire_decision.splits if_splits
        intro!: queue_waiter_inv c)
qed

lemma release_one_inv: "engine_inv e \<Longrightarrow> engine_inv (fst (release_one ok c r e))"
  by (auto simp: release_one_def split: option.splits prod.splits
      intro!: engine_inv_put_slot dest!: release_slot_inv [OF engine_invD(3), of e r _ c ok])

lemma put_slot_reg [simp]: "control_reg (put_slot r s e) = control_reg e"
  by (simp add: put_slot_def)

lemma put_slot_lookup [simp]: "map_of (slots (put_slot r s e)) = (map_of (slots e))(r \<mapsto> s)"
  by (simp add: put_slot_def)

text \<open>Revoking what an ex-seat holds changes deadlines of owned slots only.\<close>

lemma slot_inv_deadline:
  "slot_inv reg r s \<Longrightarrow> owner s \<noteq> None \<Longrightarrow> slot_inv reg r (s\<lparr>revoke_deadline := d\<rparr>)"
  by (auto simp: slot_inv_def)

lemma revoke_held_inv:
  assumes "engine_inv e" "\<forall>r\<in>set rs. \<exists>s. map_of (slots e) r = Some s \<and> owner s = Some c"
  shows "engine_inv (fst (revoke_held ok now c rs e))"
  using assms
proof (induction rs arbitrary: e)
  case (Cons r rs)
  then obtain s where s: "map_of (slots e) r = Some s" "owner s = Some c" by auto
  let ?e' = "put_slot r (s\<lparr>revoke_deadline := Some (now + REVOKE_TIMEOUT)\<rparr>) e"
  have "engine_inv ?e'"
    using Cons.prems(1) s by (auto intro!: engine_inv_put_slot slot_inv_deadline dest: engine_invD)
  moreover have "\<forall>r\<in>set rs. \<exists>s. map_of (slots ?e') r = Some s \<and> owner s = Some c"
    using Cons.prems(2) s by auto
  ultimately show ?case
    using Cons.IH [of ?e'] Cons.IH [of e] Cons.prems s
    by (simp add: Let_def case_prod_beta split: option.splits)
qed simp

lemma held_inputs_iff:
  "distinct (map fst (slots e)) \<Longrightarrow>
    r \<in> set (held_inputs c e) \<longleftrightarrow> is_input r \<and> (\<exists>s. map_of (slots e) r = Some s \<and> owner s = Some c)"
  by (force simp: held_inputs_def image_iff)

lemma release_seat_inputs_inv: "engine_inv e \<Longrightarrow> engine_inv (fst (release_seat_inputs ok now c e))"
  by (simp add: release_seat_inputs_def revoke_held_inv held_inputs_iff engine_invD)

lemma release_all_seats_inv: "engine_inv e \<Longrightarrow> engine_inv (fst (release_all_seats ok now cs e))"
proof (induction cs arbitrary: e)
  case (Cons c cs)
  then have "engine_inv (fst (release_seat_inputs ok now c e))"
    by (simp add: release_seat_inputs_inv)
  then show ?case
    by (simp add: Let_def case_prod_beta Cons.IH)
qed simp

lemma each_slot_reg [simp]: "control_reg (fst (each_slot f e)) = control_reg e"
  by (simp add: each_slot_def)

lemma each_slot_lookup [simp]:
  "map_of (slots (fst (each_slot f e))) r = map_option (\<lambda>s. fst (f r s)) (map_of (slots e) r)"
  by (simp add: each_slot_def)

lemma each_slot_inv:
  assumes "distinct (map fst (slots e))" "distinct (map fst (control_reg e))"
    and "\<And>r s. map_of (slots e) r = Some s \<Longrightarrow> slot_inv (map_of (control_reg e)) r (fst (f r s))"
  shows "engine_inv (fst (each_slot f e))"
  using assms by (auto simp: engine_inv_def each_slot_def)

lemma handle_disconnected_inv: "engine_inv e \<Longrightarrow> engine_inv (fst (handle_disconnected ok c e))"
  unfolding handle_disconnected_def Let_def
  by (rule each_slot_inv) (simp_all add: engine_invD disconnect_slot_inv del: map_of_delete_eq)

lemma handle_timeout_inv: "engine_inv e \<Longrightarrow> engine_inv (fst (handle_timeout ok now e))"
proof -
  assume inv: "engine_inv e"
  then have "engine_inv (fst (each_slot (reclaim_slot ok (control_reg e) now) e))"
    by (simp add: each_slot_inv engine_invD reclaim_slot_inv)
  then show ?thesis
    by (simp add: handle_timeout_def Let_def case_prod_beta release_all_seats_inv)
qed

lemma handle_release_cmd_inv: "engine_inv e \<Longrightarrow> engine_inv (fst (handle_release_cmd ok now c r e))"
  by (simp add: handle_release_cmd_def Let_def case_prod_beta release_one_inv
      release_seat_inputs_inv)

lemma handle_suspend_inv: "engine_inv e \<Longrightarrow> engine_inv (handle_suspend r e)"
  by (auto simp: handle_suspend_def slot_inv_def split: option.splits
      intro!: engine_inv_put_slot dest: engine_invD)

lemma handle_resume_inv: "engine_inv e \<Longrightarrow> engine_inv (fst (handle_resume ok r e))"
  by (auto simp: handle_resume_def Let_def split: option.splits
      intro!: engine_inv_put_slot dest: engine_invD(3) simp: slot_inv_def)

lemma handle_offer_inv: "engine_inv e \<Longrightarrow> engine_inv (handle_offer r p e)"
  by (simp add: handle_offer_def engine_inv_put_slot slot_inv_new_slot)

lemma handle_register_inv:
  "engine_inv e \<Longrightarrow> engine_inv (e\<lparr>control_reg := AList.update c ch (control_reg e)\<rparr>)"
  by (auto simp: engine_inv_def intro: slot_inv_registry_mono [of "map_of (control_reg e)"])

lemma handle_command_inv:
  assumes "engine_inv e" "admissible e cmd"
  shows "engine_inv (fst (snd (handle_command ok now cmd e)))"
  using assms acquire_one_inv
  by (cases cmd)
    (auto simp: handle_disconnected_inv handle_release_cmd_inv handle_suspend_inv handle_resume_inv
      handle_offer_inv handle_register_inv Let_def domIff case_prod_beta)

section \<open>Reachable states\<close>

lemma init_engine_inv: "distinct (map fst policies) \<Longrightarrow> engine_inv (init_engine policies)"
proof -
  assume "distinct (map fst policies)"
  moreover have "\<exists>p. s = new_slot p" if "map_of (map (\<lambda>(r, p). (r, new_slot p)) policies) r = Some s" for r s
    using map_of_SomeD [OF that] by auto
  ultimately show ?thesis
    using slot_inv_new_slot
    by (fastforce simp: engine_inv_def init_engine_def comp_def case_prod_beta)
qed

interpretation engine_reach: invariant_system engine_start engine_step "\<lambda>s. engine_inv (eng s)"
proof unfold_locales
  fix s assume "engine_start s"
  then show "engine_inv (eng s)"
    by (auto simp: engine_start_def init_engine_inv)
next
  fix s e t assume inv: "engine_inv (eng s)" and "engine_step s e t"
  from this(2) show "engine_inv (eng t)"
  proof cases
    case (step_command now cmd ok res e' out)
    with handle_command_inv [OF inv, of cmd ok now] show ?thesis by simp
  next
    case (step_timeout d now ok e' out)
    with handle_timeout_inv [OF inv, of ok now] show ?thesis by simp
  qed
qed

end
