(* ===== verification/Engine_Frames.thy ===== *)
theory Engine_Frames
  imports Engine_Invariants
begin

text \<open>
  What each engine operation changes and what it leaves alone: the owner of every resource, the
  slot a command works on, and the messages it pushes.  The engine's properties rest on these.
\<close>

section \<open>Owners\<close>

definition owner_of :: "engine \<Rightarrow> resource \<Rightarrow> client_id option" where
  "owner_of e r = Option.bind (map_of (slots e) r) owner"

lemma owner_of_slot: "map_of (slots e) r = Some s \<Longrightarrow> owner_of e r = owner s"
  by (simp add: owner_of_def)

lemma owner_of_SomeE:
  assumes "owner_of e r = Some c"
  obtains s where "map_of (slots e) r = Some s" "owner s = Some c"
  using assms by (auto simp: owner_of_def bind_eq_Some_conv)

lemma owner_of_put_slot [simp]:
  "owner_of (put_slot r s e) r' = (if r' = r then owner s else owner_of e r')"
  by (simp add: owner_of_def)

lemma owner_of_register [simp]: "owner_of (e\<lparr>control_reg := reg\<rparr>) = owner_of e"
  by (simp add: owner_of_def fun_eq_iff)

lemma owner_registered:
  "engine_inv e \<Longrightarrow> owner_of e r = Some c \<Longrightarrow> \<exists>ch. map_of (control_reg e) c = Some ch"
  by (auto elim!: owner_of_SomeE dest!: engine_invD(3) simp: slot_inv_def)

section \<open>Revoking the inputs of an ex-seat\<close>

text \<open>The deadline a revoke arms.\<close>

abbreviation rearmed :: "instant \<Rightarrow> slot \<Rightarrow> slot" where
  "rearmed now s \<equiv> s\<lparr>revoke_deadline := Some (now + REVOKE_TIMEOUT)\<rparr>"

lemma revoke_held_reg [simp]: "control_reg (fst (revoke_held ok now c rs e)) = control_reg e"
  by (induction ok now c rs e rule: revoke_held.induct)
    (simp_all add: Let_def case_prod_beta split: option.splits)

lemma revoke_held_unregistered:
  "map_of (control_reg e) c = None \<Longrightarrow> revoke_held ok now c rs e = (e, [])"
  by (induction rs) simp_all

lemma revoke_held_lookup:
  assumes "map_of (control_reg e) c = Some ch"
  shows "map_of (slots (fst (revoke_held ok now c rs e))) r =
    map_option (\<lambda>s. if r \<in> set rs then rearmed now s else s) (map_of (slots e) r)"
  using assms
proof (induction rs arbitrary: e)
  case (Cons q rs)
  then show ?case
    by (cases "map_of (slots e) q"; cases "map_of (slots e) r")
      (auto simp: Let_def case_prod_beta)
qed (simp add: option.map_ident)

lemma revoke_held_out:
  assumes "map_of (control_reg e) c = Some ch" "\<forall>r\<in>set rs. map_of (slots e) r \<noteq> None"
  shows "snd (revoke_held ok now c rs e) = concat (map (\<lambda>r. send ok ch (CtlRevoke r)) rs)"
  using assms
proof (induction rs arbitrary: e)
  case (Cons q rs)
  then obtain s where "map_of (slots e) q = Some s" by auto
  with Cons show ?case
    by (simp add: Let_def case_prod_beta)
qed simp

lemma release_seat_inputs_reg [simp]:
  "control_reg (fst (release_seat_inputs ok now c e)) = control_reg e"
  by (simp add: release_seat_inputs_def)

lemma release_seat_inputs_lookup:
  assumes "distinct (map fst (slots e))"
  shows "map_of (slots (fst (release_seat_inputs ok now c e))) r =
    map_option (\<lambda>s. if is_input r \<and> owner s = Some c \<and> map_of (control_reg e) c \<noteq> None
                     then rearmed now s else s) (map_of (slots e) r)"
  using assms revoke_held_unregistered revoke_held_lookup
  by (cases "map_of (control_reg e) c"; cases "map_of (slots e) r")
    (auto simp: release_seat_inputs_def held_inputs_iff)

lemma release_seat_inputs_owner [simp]:
  assumes "distinct (map fst (slots e))"
  shows "owner_of (fst (release_seat_inputs ok now c e)) r = owner_of e r"
  using release_seat_inputs_lookup [OF assms]
  by (cases "map_of (slots e) r") (simp_all add: owner_of_def)

lemma release_seat_inputs_out:
  assumes "(ch, m) \<in> set (snd (release_seat_inputs ok now c e))" and "distinct (map fst (slots e))"
  shows "\<exists>r. m = CtlRevoke r \<and> r \<in> set (held_inputs c e) \<and> map_of (control_reg e) c = Some ch"
proof (cases "map_of (control_reg e) c")
  case None
  with assms show ?thesis
    by (simp add: release_seat_inputs_def revoke_held_unregistered)
next
  case (Some ch')
  moreover from assms(2) have "\<forall>r\<in>set (held_inputs c e). map_of (slots e) r \<noteq> None"
    by (auto simp: held_inputs_iff)
  ultimately show ?thesis
    using assms(1) revoke_held_out [of e c ch' "held_inputs c e" ok now]
    by (auto simp: release_seat_inputs_def send_def split: if_splits)
qed

lemma keys_put_slot [simp]:
  "map_of (slots e) r = Some s' \<Longrightarrow> map fst (slots (put_slot r s e)) = map fst (slots e)"
  by (simp add: put_slot_def)

lemma release_seat_inputs_keys [simp]:
  "map fst (slots (fst (release_seat_inputs ok now c e))) = map fst (slots e)"
proof -
  have "map fst (slots (fst (revoke_held ok now c rs e))) = map fst (slots e)" for rs
    by (induction rs arbitrary: e) (simp_all add: Let_def case_prod_beta split: option.splits)
  then show ?thesis by (simp add: release_seat_inputs_def)
qed

lemma release_all_seats_frame:
  assumes "distinct (map fst (slots e))"
  shows "control_reg (fst (release_all_seats ok now cs e)) = control_reg e \<and>
    map fst (slots (fst (release_all_seats ok now cs e))) = map fst (slots e) \<and>
    owner_of (fst (release_all_seats ok now cs e)) r = owner_of e r"
  using assms
proof (induction cs arbitrary: e)
  case (Cons c cs)
  have "distinct (map fst (slots (fst (release_seat_inputs ok now c e))))"
    using Cons.prems by simp
  from Cons.IH [OF this] Cons.prems show ?case
    by (simp add: Let_def case_prod_beta)
qed simp

lemma release_all_seats_lookup:
  assumes "distinct (map fst (slots e))"
  shows "map_of (slots (fst (release_all_seats ok now cs e))) r =
    map_option (\<lambda>s. if is_input r \<and> (\<exists>c\<in>set cs. owner s = Some c \<and> map_of (control_reg e) c \<noteq> None)
                     then rearmed now s else s) (map_of (slots e) r)"
  using assms
proof (induction cs arbitrary: e)
  case (Cons c cs)
  have "distinct (map fst (slots (fst (release_seat_inputs ok now c e))))"
    using Cons.prems by simp
  note IH = Cons.IH [OF this] and step = release_seat_inputs_lookup [OF Cons.prems, of ok now c r]
  show ?case
  proof (cases "map_of (slots e) r")
    case None
    with IH step show ?thesis by (simp add: Let_def case_prod_beta)
  next
    case (Some s)
    define s1 where
      "s1 = (if is_input r \<and> owner s = Some c \<and> map_of (control_reg e) c \<noteq> None
             then rearmed now s else s)"
    have "map_of (slots (fst (release_seat_inputs ok now c e))) r = Some s1"
      using step Some by (simp add: s1_def)
    moreover have "owner s1 = owner s" "rearmed now s1 = rearmed now s"
      by (simp_all add: s1_def)
    ultimately have "map_of (slots (fst (release_all_seats ok now (c # cs) e))) r =
        Some (if is_input r \<and> (\<exists>c\<in>set cs. owner s = Some c \<and> map_of (control_reg e) c \<noteq> None)
              then rearmed now s else s1)"
      using IH by (simp add: Let_def case_prod_beta) auto
    with Some show ?thesis
      by (auto simp: s1_def simp del: release_all_seats.simps)
  qed
qed (simp add: option.map_ident)

lemma release_all_seats_out:
  assumes "(ch, m) \<in> set (snd (release_all_seats ok now cs e))" and "distinct (map fst (slots e))"
  shows "\<exists>r. m = CtlRevoke r"
  using assms
proof (induction cs arbitrary: e)
  case (Cons c cs)
  have "distinct (map fst (slots (fst (release_seat_inputs ok now c e))))"
    using Cons.prems by simp
  with Cons show ?case
    by (auto simp: Let_def case_prod_beta dest: release_seat_inputs_out)
qed simp

section \<open>Acquire\<close>

text \<open>In a well-formed engine an acquire that queues changes the queue and the revoke only.\<close>

lemma queue_waiter_cases:
  assumes inv: "engine_inv e" and s: "map_of (slots e) r = Some s" and held: "owner s \<noteq> None"
  obtains (already) "is_queued s c" "queue_waiter ok now c r st s e = (OutcomeQueued, e, [])"
    | (joined) "\<not> is_queued s c" "revoke_deadline s \<noteq> None"
      "queue_waiter ok now c r st s e =
        (OutcomeQueued, put_slot r (s\<lparr>waiters := waiters s @ [\<lparr>wclient = c, seat_claim = st\<rparr>]\<rparr>) e, [])"
    | (revoked) ow ch where "\<not> is_queued s c" "revoke_deadline s = None" "owner s = Some ow"
      "map_of (control_reg e) ow = Some ch"
      "queue_waiter ok now c r st s e =
        (OutcomeQueued,
         put_slot r (rearmed now (s\<lparr>waiters := waiters s @ [\<lparr>wclient = c, seat_claim = st\<rparr>]\<rparr>)) e,
         send ok ch (CtlRevoke r))"
proof -
  from held obtain ow where ow: "owner s = Some ow" by auto
  moreover from this s inv obtain ch where "map_of (control_reg e) ow = Some ch"
    using owner_registered [of e r ow] by (auto simp: owner_of_def)
  ultimately show thesis
    using that by (cases "is_queued s c"; cases "revoke_deadline s") (auto simp: queue_waiter_def Let_def)
qed

text \<open>The seat takes a device from a holder that is not on the display.\<close>

definition seat_steals :: "engine \<Rightarrow> client_id \<Rightarrow> resource \<Rightarrow> slot \<Rightarrow> bool" where
  "seat_steals e c r s \<longleftrightarrow>
     is_input r \<and> holds_display (slots e) c \<and>
     (\<exists>ow. owner s = Some ow \<and> \<not> holds_display (slots e) ow)"

lemma acquire_one_unregistered:
  "map_of (slots e) r = None \<Longrightarrow> acquire_one ok now c r e = (OutcomeDenied (NotRegistered r), e, [])"
  by (simp add: acquire_one_def)

lemma acquire_one_registered:
  assumes "map_of (slots e) r = Some s"
  shows "acquire_one ok now c r e =
    (if owner s = Some c then (OutcomeDenied (AlreadyOwned r), e, [])
     else if suspended s then (OutcomeDenied (DeviceAway r), e, [])
     else case owner s of
       None \<Rightarrow> (OutcomeGranted, put_slot r (s\<lparr>owner := Some c\<rparr>) e, [])
     | Some ow \<Rightarrow>
         if is_input r \<and> \<not> holds_display (slots e) c
         then (OutcomeDenied (HeldByClient r ow), e, [])
         else if slot_policy s = FirstOwner \<and> \<not> seat_steals e c r s
         then (OutcomeDenied (OwnedBy r ow), e, [])
         else queue_waiter ok now c r (seat_steals e c r s) s e)"
proof (cases "owner s")
  case None
  with assms show ?thesis
    by (simp add: acquire_one_def slot_state_def Let_def)
next
  case (Some ow)
  with assms show ?thesis
    by (cases "slot_policy s"; cases "revoke_deadline s")
      (simp_all add: acquire_one_def slot_state_def seat_steals_def Let_def)
qed

text \<open>Every acquire denies, grants a free slot, or queues on a held one.\<close>

lemma acquire_one_cases:
  obtains (denied) why where "acquire_one ok now c r e = (OutcomeDenied why, e, [])"
    | (granted) s where "map_of (slots e) r = Some s" "owner s = None" "\<not> suspended s"
      "acquire_one ok now c r e = (OutcomeGranted, put_slot r (s\<lparr>owner := Some c\<rparr>) e, [])"
    | (queued) s where "map_of (slots e) r = Some s" "owner s \<noteq> None" "owner s \<noteq> Some c"
      "\<not> suspended s" "slot_policy s = FirstOwner \<Longrightarrow> seat_steals e c r s"
      "acquire_one ok now c r e = queue_waiter ok now c r (seat_steals e c r s) s e"
proof (cases "map_of (slots e) r")
  case None
  then show thesis using denied by (simp add: acquire_one_unregistered)
next
  case (Some s)
  note eq = acquire_one_registered [OF Some, of ok now c]
  show thesis
  proof (cases "owner s")
    case None
    with Some eq show thesis using denied granted by (cases "suspended s") auto
  next
    case (Some ow)
    with \<open>map_of (slots e) r = Some s\<close> eq show thesis
      using denied queued by (auto split: if_splits)
  qed
qed

lemma acquire_one_reg [simp]: "control_reg (fst (snd (acquire_one ok now c r e))) = control_reg e"
  by (cases rule: acquire_one_cases [of ok now c r e])
    (auto simp: queue_waiter_def Let_def case_prod_beta split: option.splits)

section \<open>Release\<close>

lemma release_one_reg [simp]: "control_reg (fst (release_one ok c r e)) = control_reg e"
  by (simp add: release_one_def Let_def case_prod_beta split: option.splits)

lemma release_one_keys [simp]: "map fst (slots (fst (release_one ok c r e))) = map fst (slots e)"
  by (simp add: release_one_def Let_def case_prod_beta split: option.splits)

lemma release_one_lookup_other [simp]:
  "r' \<noteq> r \<Longrightarrow> map_of (slots (fst (release_one ok c r e))) r' = map_of (slots e) r'"
  by (simp add: release_one_def Let_def case_prod_beta split: option.splits)

lemma release_one_owner:
  "map_of (slots e) r = Some s \<Longrightarrow> owner s = Some c \<Longrightarrow>
    release_one ok c r e =
      (put_slot r (fst (release_slot ok (control_reg e) c r s)) e,
       snd (release_slot ok (control_reg e) c r s))"
  by (simp add: release_one_def Let_def case_prod_beta)

lemma release_one_not_owner: "owner_of e r \<noteq> Some c \<Longrightarrow> release_one ok c r e = (e, [])"
  by (auto simp: release_one_def owner_of_def split: option.splits)

lemma handle_release_cmd_owner:
  assumes "distinct (map fst (slots e))"
  shows "owner_of (fst (handle_release_cmd ok now c r e)) r' =
    owner_of (fst (release_one ok c r e)) r'"
  using assms by (simp add: handle_release_cmd_def Let_def case_prod_beta)

lemma handle_release_cmd_reg [simp]:
  "control_reg (fst (handle_release_cmd ok now c r e)) = control_reg e"
  by (simp add: handle_release_cmd_def Let_def case_prod_beta)

lemma release_slot_eq:
  "release_slot ok reg c r s =
     grant_next ok reg r
       (s\<lparr>waiters := (if revoke_deadline s \<noteq> None \<and> waiters s \<noteq> []
           then requeue_waiter (slot_policy s) (waiters s) \<lparr>wclient = c, seat_claim = False\<rparr>
           else waiters s),
         owner := None, revoke_deadline := None\<rparr>)"
  by (cases s) (simp add: release_slot_def Let_def)

end
