(* ===== verification/Engine_Properties.thy ===== *)
theory Engine_Properties
  imports Engine_Frames
begin

text \<open>
  The properties of the policy engine: who can hold a resource, how it changes hands, what the
  seat is owed, what a suspended device keeps, and that a silent owner is reclaimed in time.
\<close>

section \<open>Reachable runs\<close>

text \<open>A run of timed commands that the actor loop can perform from clock reading \<open>now\<close>.\<close>

fun admissible_run :: "send_ok \<Rightarrow> instant \<Rightarrow> (instant \<times> engine_command) list \<Rightarrow> engine \<Rightarrow> bool" where
  "admissible_run ok now [] e = True"
| "admissible_run ok now ((t, cmd) # cmds) e =
     (now \<le> t \<and> admissible e cmd \<and>
      admissible_run ok t cmds (fst (snd (handle_command ok t cmd e))))"

fun end_time :: "instant \<Rightarrow> (instant \<times> engine_command) list \<Rightarrow> instant" where
  "end_time now [] = now"
| "end_time now ((t, cmd) # cmds) = end_time t cmds"

lemma run_commands_reach:
  assumes "reach engine_start engine_step \<lparr>eng = e, clock = now\<rparr>" "admissible_run ok now cmds e"
  shows "reach engine_start engine_step
    \<lparr>eng = fst (snd (run_commands ok cmds e)), clock = end_time now cmds\<rparr>"
  using assms
proof (induction cmds arbitrary: e now)
  case (Cons tc cmds)
  obtain t cmd where tc: "tc = (t, cmd)" by (cases tc)
  obtain res e' out where eq: "handle_command ok t cmd e = (res, e', out)"
    using prod_cases3 by blast
  with Cons.prems tc have "engine_step \<lparr>eng = e, clock = now\<rparr> (Handled cmd res out) \<lparr>eng = e', clock = t\<rparr>"
    by (auto intro: step_command)
  with Cons.prems(1) have "reach engine_start engine_step \<lparr>eng = e', clock = t\<rparr>"
    by (rule reach_step)
  with Cons.IH [of e' t] Cons.prems(2) tc eq show ?case
    by (simp add: Let_def case_prod_beta)
qed simp

lemma init_reach:
  "distinct (map fst policies) \<Longrightarrow>
    reach engine_start engine_step \<lparr>eng = init_engine policies, clock = now\<rparr>"
  by (rule reach_start) (auto simp: engine_start_def)

lemmas run_reach = run_commands_reach [OF init_reach]

section \<open>The invariant\<close>

text \<open>C1. In every state the engine can reach, every slot is well formed: nobody waits twice, the
  owner is a connected client that does not also wait, all waiters are connected, a free slot has
  neither waiters nor a revoke in flight, first-owner slots queue nothing but the seat's claims, and
  only input slots carry such claims.\<close>

theorem reachable_engine_inv:
  assumes "reach engine_start engine_step s"
  shows "engine_inv (eng s)"
  using assms by (rule engine_reach.reach_inv)

text \<open>A run used by the witnesses: two clients, the second preempts the first on the display.\<close>

definition demo_run :: "(instant \<times> engine_command) list" where
  "demo_run =
     [(0, CmdRegister 1 101), (0, CmdRegister 2 102), (1, CmdAcquire 1 Fbdev), (2, CmdAcquire 2 Fbdev)]"

definition demo_state :: engine where
  "demo_state = fst (snd (run_commands (\<lambda>_ _. True) demo_run (init_engine [(Fbdev, FairQueue)])))"

lemma demo_reach: "reach engine_start engine_step \<lparr>eng = demo_state, clock = 2\<rparr>"
proof -
  have "distinct (map fst [(Fbdev, FairQueue)])" by simp
  moreover have "admissible_run (\<lambda>_ _. True) 0 demo_run (init_engine [(Fbdev, FairQueue)])"
    by code_simp
  moreover have "end_time 0 demo_run = 2" by code_simp
  ultimately show ?thesis
    using run_reach [of "[(Fbdev, FairQueue)]" "\<lambda>_ _. True" 0 demo_run] by (simp only: demo_state_def)
qed

lemma demo_state_eq:
  "demo_state =
     \<lparr>slots = [(Fbdev, \<lparr>slot_policy = FairQueue, owner = Some 1,
         waiters = [\<lparr>wclient = 2, seat_claim = False\<rparr>], revoke_deadline = Some 5002, suspended = False\<rparr>)],
      control_reg = [(1, 101), (2, 102)]\<rparr>"
  by code_simp

theorem reachable_engine_inv_witness:
  "owner_of demo_state Fbdev = Some 1 \<and> engine_inv demo_state"
  using reachable_engine_inv [OF demo_reach] by (simp add: demo_state_eq owner_of_def)

section \<open>How ownership changes\<close>

lemma grant_next_gained:
  assumes "owner s = None" "owner (fst (grant_next ok reg r s)) = Some c"
  shows "\<exists>ch. map_of reg c = Some ch \<and> snd (grant_next ok reg r s) = [(ch, CtlGrant r)]"
  using assms by (cases rule: grant_next_out_cases [of ok reg r s]) auto

lemma grant_next_out_owner:
  assumes "(ch, m) \<in> set (snd (grant_next ok reg r s))"
  shows "m = CtlGrant r \<and> (\<exists>c. map_of reg c = Some ch \<and> owner (fst (grant_next ok reg r s)) = Some c)"
  using assms by (cases rule: grant_next_out_cases [of ok reg r s]) auto

lemma acquire_one_owner_of:
  assumes "engine_inv e"
  shows "owner_of (fst (snd (acquire_one ok now c r e))) r' =
    (if r' = r \<and> fst (acquire_one ok now c r e) = OutcomeGranted then Some c else owner_of e r')"
proof (cases rule: acquire_one_cases [of ok now c r e])
  case (queued s)
  from assms queued(1,2) show ?thesis
  proof (cases rule: queue_waiter_cases [of e r s c ok now "seat_steals e c r s"])
    case already with queued show ?thesis by simp
  next
    case joined with queued show ?thesis by (simp add: owner_of_def)
  next
    case revoked with queued show ?thesis by (simp add: owner_of_def)
  qed
qed (simp_all add: owner_of_def)

lemma acquire_one_granted_free:
  assumes "engine_inv e" "fst (acquire_one ok now c r e) = OutcomeGranted"
  shows "owner_of e r = None \<and> snd (snd (acquire_one ok now c r e)) = []"
proof (cases rule: acquire_one_cases [of ok now c r e])
  case (queued s)
  from assms(1) queued(1,2) show ?thesis
    by (cases rule: queue_waiter_cases [of e r s c ok now "seat_steals e c r s"])
      (use queued assms(2) in auto)
qed (use assms in \<open>simp_all add: owner_of_def\<close>)

lemma acquire_one_out:
  assumes "engine_inv e" "(ch, m) \<in> set (snd (snd (acquire_one ok now c r e)))"
  shows "m = CtlRevoke r"
proof (cases rule: acquire_one_cases [of ok now c r e])
  case (queued s)
  from assms(1) queued(1,2) show ?thesis
    by (cases rule: queue_waiter_cases [of e r s c ok now "seat_steals e c r s"])
      (use queued assms(2) in \<open>auto simp: send_def split: if_splits\<close>)
qed (use assms in auto)

lemma release_one_owner_of:
  "owner_of e r \<noteq> Some c \<or> r' \<noteq> r \<Longrightarrow> owner_of (fst (release_one ok c r e)) r' = owner_of e r'"
  by (auto simp: release_one_not_owner owner_of_def)

lemma release_one_released:
  assumes "owner_of e r = Some c"
  obtains s2 where "owner s2 = None"
    "owner_of (fst (release_one ok c r e)) r = owner (fst (grant_next ok (control_reg e) r s2))"
    "snd (release_one ok c r e) = snd (grant_next ok (control_reg e) r s2)"
proof -
  from assms obtain s where s: "map_of (slots e) r = Some s" "owner s = Some c"
    by (rule owner_of_SomeE)
  show thesis
    by (rule that [of "s\<lparr>waiters := (if revoke_deadline s \<noteq> None \<and> waiters s \<noteq> []
           then requeue_waiter (slot_policy s) (waiters s) \<lparr>wclient = c, seat_claim = False\<rparr>
           else waiters s), owner := None, revoke_deadline := None\<rparr>"])
      (simp_all add: release_one_owner [OF s] release_slot_eq)
qed

lemma disconnect_slot_owner:
  "owner s \<noteq> Some c \<Longrightarrow> owner (fst (disconnect_slot ok reg c r s)) = owner s \<and>
    snd (disconnect_slot ok reg c r s) = []"
  by (simp add: disconnect_slot_def)

lemma reclaim_slot_live: "\<not> expired now s \<Longrightarrow> reclaim_slot ok reg now r s = (s, [])"
  by (simp add: reclaim_slot_def)

lemma owner_of_each_slot:
  "owner_of (fst (each_slot f e)) r = Option.bind (map_of (slots e) r) (\<lambda>s. owner (fst (f r s)))"
  by (cases "map_of (slots e) r") (simp_all add: owner_of_def)

lemma each_slot_out:
  "(ch, m) \<in> set (snd (each_slot f e)) \<Longrightarrow> distinct (map fst (slots e)) \<Longrightarrow>
    \<exists>r s. map_of (slots e) r = Some s \<and> (ch, m) \<in> set (snd (f r s))"
  by (auto simp: each_slot_def)

lemma handle_disconnected_owner_of:
  "owner_of e r \<noteq> Some c \<Longrightarrow> owner_of (fst (handle_disconnected ok c e)) r = owner_of e r"
  by (cases "map_of (slots e) r")
    (simp_all add: handle_disconnected_def Let_def owner_of_each_slot disconnect_slot_owner owner_of_def)

lemma handle_suspend_owner_of [simp]: "owner_of (handle_suspend r e) = owner_of e"
  by (auto simp: handle_suspend_def owner_of_def fun_eq_iff split: option.splits)

lemma handle_resume_owner_of:
  "engine_inv e \<Longrightarrow> owner_of (fst (handle_resume ok r e)) r' = owner_of e r'"
  using owner_registered [of e r]
  by (auto simp: handle_resume_def owner_of_def Let_def split: option.splits)

lemma handle_offer_owner_of [simp]: "owner_of (handle_offer r p e) = owner_of e"
  by (auto simp: handle_offer_def owner_of_def new_slot_def fun_eq_iff)

lemma handle_timeout_owner_of:
  assumes "engine_inv e"
  shows "owner_of (fst (handle_timeout ok now e)) r =
    owner_of (fst (each_slot (reclaim_slot ok (control_reg e) now) e)) r"
proof -
  have "distinct (map fst (slots (fst (each_slot (reclaim_slot ok (control_reg e) now) e))))"
    using assms by (simp add: each_slot_def engine_invD)
  from release_all_seats_frame [OF this] show ?thesis
    by (simp add: handle_timeout_def Let_def case_prod_beta)
qed

lemma handle_release_cmd_changed:
  assumes "owner_of (fst (handle_release_cmd ok now c' r' e)) r \<noteq> owner_of e r"
    and "distinct (map fst (slots e))"
  shows "r' = r \<and> owner_of e r = Some c'"
  using assms release_one_owner_of [of e r' c' r ok]
  by (auto simp: handle_release_cmd_owner)

lemma handle_command_lost:
  assumes inv: "engine_inv e"
    and "owner_of e r = Some c" "owner_of (fst (snd (handle_command ok now cmd e))) r \<noteq> Some c"
  shows "cmd = CmdRelease c r \<or> cmd = CmdDisconnected c"
proof (cases cmd)
  case (CmdAcquire c' r')
  with assms show ?thesis
    using acquire_one_granted_free [OF inv, of ok now c' r']
    by (auto simp: acquire_one_owner_of Let_def case_prod_beta split: if_splits)
next
  case (CmdRelease c' r')
  then have "r' = r" "owner_of e r = Some c'"
    using assms handle_release_cmd_changed [of ok now c' r' e r] by (auto simp: engine_invD)
  with assms(2) CmdRelease show ?thesis by simp
next
  case (CmdDisconnected c')
  with assms show ?thesis
    using handle_disconnected_owner_of [of e r c' ok] by auto
qed (use assms in \<open>simp_all add: handle_resume_owner_of\<close>)

lemma handle_timeout_lost:
  assumes "engine_inv e" "owner_of e r = Some c" "owner_of (fst (handle_timeout ok now e)) r \<noteq> Some c"
  shows "\<exists>s d. map_of (slots e) r = Some s \<and> revoke_deadline s = Some d \<and> d \<le> now"
proof -
  from assms(2) obtain s where s: "map_of (slots e) r = Some s" "owner s = Some c"
    by (rule owner_of_SomeE)
  then have "expired now s"
    using assms
    by (cases "expired now s")
      (simp_all add: handle_timeout_owner_of owner_of_each_slot reclaim_slot_live)
  with s show ?thesis
    by (auto simp: expired_def split: option.splits)
qed

text \<open>C2. No client loses a resource behind its back: whenever a step of the engine takes a resource
  from its owner, the step is that owner's own release of it, that owner's disconnect, or the expiry
  of a revoke that was in flight for that resource.  In particular no acquire of another client,
  suspend, resume, offer or broadcast takes a resource away.\<close>

theorem ownership_lost_only_by:
  assumes "reach engine_start engine_step s" "engine_step s ev t"
    and "owner_of (eng s) r = Some c" "owner_of (eng t) r \<noteq> Some c"
  shows "(\<exists>res out. ev = Handled (CmdRelease c r) res out) \<or>
    (\<exists>res out. ev = Handled (CmdDisconnected c) res out) \<or>
    (\<exists>out sl d. ev = TimedOut out \<and> map_of (slots (eng s)) r = Some sl \<and>
      revoke_deadline sl = Some d \<and> d \<le> clock t)"
  using assms(2)
proof cases
  case (step_command now cmd ok res e' out)
  then show ?thesis
    using handle_command_lost [OF engine_reach.reach_inv [OF assms(1)] assms(3), of ok now cmd] assms(4)
    by auto
next
  case (step_timeout d now ok e' out)
  then show ?thesis
    using handle_timeout_lost [OF engine_reach.reach_inv [OF assms(1)] assms(3), of ok now] assms(4)
    by auto
qed

theorem ownership_lost_only_by_witness:
  "\<exists>ev t. engine_step \<lparr>eng = demo_state, clock = 2\<rparr> ev t \<and> owner_of (eng t) Fbdev = Some 2 \<and>
    ((\<exists>res out. ev = Handled (CmdRelease 1 Fbdev) res out) \<or>
     (\<exists>res out. ev = Handled (CmdDisconnected 1) res out) \<or>
     (\<exists>out sl d. ev = TimedOut out \<and> map_of (slots demo_state) Fbdev = Some sl \<and>
       revoke_deadline sl = Some d \<and> d \<le> clock t))"
proof -
  let ?s = "\<lparr>eng = demo_state, clock = 2\<rparr>"
  obtain e' out where eq: "handle_timeout (\<lambda>_ _. True) 6000 demo_state = (e', out)"
    by fastforce
  have own: "owner_of e' Fbdev = Some 2"
  proof -
    have "owner_of (fst (handle_timeout (\<lambda>_ _. True) 6000 demo_state)) Fbdev = Some 2"
      by code_simp
    with eq show ?thesis by simp
  qed
  have "next_deadline demo_state = Some 5002" by code_simp
  then have step: "engine_step ?s (TimedOut out) \<lparr>eng = e', clock = 6000\<rparr>"
    using eq by (auto intro: step_timeout)
  have "owner_of (eng ?s) Fbdev = Some 1" by code_simp
  then show ?thesis
    using ownership_lost_only_by [OF demo_reach step, of Fbdev 1] own step by fastforce
qed

lemma handle_command_gained:
  assumes inv: "engine_inv e" and before: "owner_of e r \<noteq> Some c"
    and after: "owner_of (fst (snd (handle_command ok now cmd e))) r = Some c"
  shows "cmd = CmdAcquire c r \<and> fst (handle_command ok now cmd e) = Some OutcomeGranted \<and>
      owner_of e r = None \<or>
    (\<exists>ch. map_of (control_reg (fst (snd (handle_command ok now cmd e)))) c = Some ch \<and>
      (ch, CtlGrant r) \<in> set (snd (snd (handle_command ok now cmd e))))"
proof (cases cmd)
  case (CmdAcquire c' r')
  with assms show ?thesis
    using acquire_one_granted_free [OF inv, of ok now c' r']
    by (auto simp: acquire_one_owner_of Let_def case_prod_beta split: if_splits)
next
  case (CmdRelease c' r')
  let ?rel = "release_one ok c' r' e"
  from CmdRelease have own: "r' = r" "owner_of e r = Some c'"
    using assms handle_release_cmd_changed [of ok now c' r' e r] by (auto simp: engine_invD)
  from release_one_released [OF own(2), of ok] obtain s2 where s2: "owner s2 = None"
      "owner_of (fst ?rel) r = owner (fst (grant_next ok (control_reg e) r s2))"
      "snd ?rel = snd (grant_next ok (control_reg e) r s2)"
    using own by metis
  moreover have "owner_of (fst ?rel) r = Some c"
    using after inv CmdRelease by (simp add: handle_release_cmd_owner engine_invD)
  ultimately obtain ch where "map_of (control_reg e) c = Some ch" "snd ?rel = [(ch, CtlGrant r)]"
    using grant_next_gained by metis
  then show ?thesis
    using CmdRelease by (auto simp: handle_release_cmd_def Let_def case_prod_beta)
next
  case (CmdDisconnected c')
  let ?reg = "AList.delete c' (control_reg e)"
  have own: "owner_of e r = Some c'"
    using handle_disconnected_owner_of [of e r c' ok] before after CmdDisconnected by auto
  then obtain s where s: "map_of (slots e) r = Some s" "owner s = Some c'"
    by (rule owner_of_SomeE)
  let ?s1 = "s\<lparr>waiters := filter (\<lambda>w. wclient w \<noteq> c') (waiters s), owner := None, revoke_deadline := None\<rparr>"
  have dis: "disconnect_slot ok ?reg c' r s = grant_next ok ?reg r ?s1"
    using s by (simp add: disconnect_slot_def)
  then have "owner (fst (grant_next ok ?reg r ?s1)) = Some c"
    using s after CmdDisconnected
    by (simp add: handle_disconnected_def Let_def owner_of_each_slot)
  then obtain ch where "map_of ?reg c = Some ch" "snd (disconnect_slot ok ?reg c' r s) = [(ch, CtlGrant r)]"
    using grant_next_gained [of ?s1 ok ?reg r c] dis by auto
  moreover have "(r, s) \<in> set (slots e)"
    using s by (rule_tac map_of_SomeD)
  ultimately show ?thesis
    using CmdDisconnected by (force simp: handle_disconnected_def each_slot_def Let_def)
qed (use assms in \<open>simp_all add: handle_resume_owner_of\<close>)

lemma handle_timeout_gained:
  assumes inv: "engine_inv e" and before: "owner_of e r \<noteq> Some c"
    and after: "owner_of (fst (handle_timeout ok now e)) r = Some c"
  shows "\<exists>ch. map_of (control_reg e) c = Some ch \<and> (ch, CtlGrant r) \<in> set (snd (handle_timeout ok now e))"
proof -
  let ?f = "reclaim_slot ok (control_reg e) now"
  from after inv obtain s where s: "map_of (slots e) r = Some s" "owner (fst (?f r s)) = Some c"
    by (auto simp: handle_timeout_owner_of owner_of_each_slot bind_eq_Some_conv)
  with before have "expired now s"
    by (cases "expired now s") (auto simp: owner_of_def reclaim_slot_def)
  with s obtain ch where "map_of (control_reg e) c = Some ch" "snd (?f r s) = [(ch, CtlGrant r)]"
    using grant_next_gained [of "s\<lparr>owner := None, revoke_deadline := None\<rparr>" ok "control_reg e" r c]
    by (auto simp: reclaim_slot_def force_reclaim_def)
  moreover from s have "(r, s) \<in> set (slots e)"
    by (rule_tac map_of_SomeD)
  ultimately show ?thesis
    by (force simp: handle_timeout_def each_slot_def Let_def case_prod_beta)
qed

lemma handle_timeout_reg [simp]:
  "engine_inv e \<Longrightarrow> control_reg (fst (handle_timeout ok now e)) = control_reg e"
  using release_all_seats_frame [of "fst (each_slot (reclaim_slot ok (control_reg e) now) e)"]
  by (simp add: handle_timeout_def Let_def case_prod_beta each_slot_def engine_invD)

text \<open>C3. Nobody becomes an owner silently: when a step makes a client the owner of a resource it
  did not own, then either the step is that client's own acquire of the resource, it found the
  resource free and was answered "granted", or a Grant for that resource was delivered to the
  control channel the client is registered with.\<close>

theorem ownership_gained_is_announced:
  assumes "reach engine_start engine_step s" "engine_step s ev t"
    and "owner_of (eng s) r \<noteq> Some c" "owner_of (eng t) r = Some c"
  shows "(\<exists>out. ev = Handled (CmdAcquire c r) (Some OutcomeGranted) out \<and> owner_of (eng s) r = None) \<or>
    (\<exists>ch out. map_of (control_reg (eng t)) c = Some ch \<and> (ch, CtlGrant r) \<in> set out \<and>
      (ev = TimedOut out \<or> (\<exists>cmd res. ev = Handled cmd res out)))"
  using assms(2)
proof cases
  case (step_command now cmd ok res e' out)
  then show ?thesis
    using handle_command_gained [OF engine_reach.reach_inv [OF assms(1)] assms(3), of ok now cmd] assms(4)
    by auto
next
  case (step_timeout d now ok e' out)
  then have "control_reg e' = control_reg (eng s)"
    using handle_timeout_reg [OF engine_reach.reach_inv [OF assms(1)], of ok now] by simp
  with step_timeout show ?thesis
    using handle_timeout_gained [OF engine_reach.reach_inv [OF assms(1)] assms(3), of ok now] assms(4)
    by auto
qed

theorem ownership_gained_is_announced_witness:
  "\<exists>ev t ch out. engine_step \<lparr>eng = demo_state, clock = 2\<rparr> ev t \<and> owner_of (eng t) Fbdev = Some 2 \<and>
    map_of (control_reg (eng t)) 2 = Some ch \<and> (ch, CtlGrant Fbdev) \<in> set out \<and>
    (ev = TimedOut out \<or> (\<exists>cmd res. ev = Handled cmd res out))"
proof -
  obtain e' out where eq: "handle_command (\<lambda>_ _. True) 3 (CmdRelease 1 Fbdev) demo_state = (None, e', out)"
    by fastforce
  have "owner_of (fst (snd (handle_command (\<lambda>_ _. True) 3 (CmdRelease 1 Fbdev) demo_state))) Fbdev = Some 2"
    by code_simp
  with eq have own: "owner_of e' Fbdev = Some 2" by simp
  have step: "engine_step \<lparr>eng = demo_state, clock = 2\<rparr> (Handled (CmdRelease 1 Fbdev) None out)
      \<lparr>eng = e', clock = 3\<rparr>"
    using eq by (auto intro: step_command)
  have "owner_of (eng \<lparr>eng = demo_state, clock = 2\<rparr>) Fbdev \<noteq> Some 2" by code_simp
  then show ?thesis
    using ownership_gained_is_announced [OF demo_reach step, of Fbdev 2] own step by fastforce
qed

end
