(* ===== verification/Engine_Timing.thy ===== *)
theory Engine_Timing
  imports Engine_Properties
begin

text \<open>
  Messages and time: every Grant that is pushed names the owner the step ends with, a timeout frees
  exactly what has expired, and a revoke in flight is decided within the revoke timeout.
\<close>

section \<open>Grants name the owner\<close>

lemma disconnect_slot_out_owner:
  "(ch, m) \<in> set (snd (disconnect_slot ok reg c r s)) \<Longrightarrow>
    m = CtlGrant r \<and> (\<exists>c'. map_of reg c' = Some ch \<and> owner (fst (disconnect_slot ok reg c r s)) = Some c')"
  unfolding disconnect_slot_def Let_def by (simp split: if_splits) (rule grant_next_out_owner)

lemma reclaim_slot_out_owner:
  "(ch, m) \<in> set (snd (reclaim_slot ok reg now r s)) \<Longrightarrow>
    m = CtlGrant r \<and> (\<exists>c'. map_of reg c' = Some ch \<and> owner (fst (reclaim_slot ok reg now r s)) = Some c')"
  unfolding reclaim_slot_def force_reclaim_def by (simp split: if_splits) (rule grant_next_out_owner)

lemma handle_resume_grantE:
  assumes "(ch, CtlGrant r) \<in> set (snd (handle_resume ok r' e))"
  obtains s ow where "map_of (slots e) r' = Some s" "suspended s" "owner s = Some ow"
    "map_of (control_reg e) ow = Some ch" "r' = r"
proof -
  from assms obtain s where s: "map_of (slots e) r' = Some s" "suspended s"
    by (auto simp: handle_resume_def split: option.splits if_splits)
  with assms obtain ow where ow: "owner s = Some ow"
    by (cases "owner s") (auto simp: handle_resume_def)
  with s assms obtain ch' where ch': "map_of (control_reg e) ow = Some ch'"
      "(ch, CtlGrant r) \<in> set (send ok ch' (CtlGrant r'))"
    by (cases "map_of (control_reg e) ow") (auto simp: handle_resume_def)
  then have "ch' = ch \<and> r' = r"
    by (auto simp: send_def split: if_splits)
  with s ow ch'(1) show thesis
    by (intro that) auto
qed

lemma handle_command_grant_owner:
  assumes inv: "engine_inv e" and no_bc: "\<And>m. cmd \<noteq> CmdBroadcast m"
    and out: "(ch, CtlGrant r) \<in> set (snd (snd (handle_command ok now cmd e)))"
  shows "\<exists>c. map_of (control_reg (fst (snd (handle_command ok now cmd e)))) c = Some ch \<and>
    owner_of (fst (snd (handle_command ok now cmd e))) r = Some c"
proof (cases cmd)
  case (CmdAcquire c r')
  with out show ?thesis
    using acquire_one_out [OF inv] by (fastforce simp: Let_def case_prod_beta)
next
  case (CmdRelease c r')
  let ?rel = "release_one ok c r' e"
  have "distinct (map fst (slots (fst ?rel)))"
    using inv by (simp add: engine_invD)
  with out CmdRelease have "(ch, CtlGrant r) \<in> set (snd ?rel)"
    by (auto simp: handle_release_cmd_def Let_def case_prod_beta dest: release_seat_inputs_out
        split: if_splits)
  moreover from this have own: "owner_of e r' = Some c"
    using release_one_not_owner [of e r' c ok] by (cases "owner_of e r' = Some c") auto
  ultimately have "\<exists>c'. map_of (control_reg e) c' = Some ch \<and> owner_of (fst ?rel) r = Some c'"
    using release_one_released [OF own, of ok] grant_next_out_owner by (metis control_message.inject(2))
  with CmdRelease inv show ?thesis
    by (simp add: handle_release_cmd_owner engine_invD)
next
  case (CmdDisconnected c)
  let ?reg = "AList.delete c (control_reg e)"
  let ?e1 = "e\<lparr>control_reg := ?reg\<rparr>"
  from out CmdDisconnected inv obtain q s where s: "map_of (slots e) q = Some s"
      "(ch, CtlGrant r) \<in> set (snd (disconnect_slot ok ?reg c q s))"
    using each_slot_out [of ch "CtlGrant r" "disconnect_slot ok ?reg c" ?e1]
    by (auto simp: handle_disconnected_def Let_def engine_invD)
  then have "q = r \<and> (\<exists>c'. map_of ?reg c' = Some ch \<and> owner (fst (disconnect_slot ok ?reg c q s)) = Some c')"
    using disconnect_slot_out_owner [OF s(2)] by (simp add: control_message.inject)
  with CmdDisconnected s show ?thesis
    by (auto simp: handle_disconnected_def Let_def owner_of_each_slot simp del: map_of_delete_eq)
next
  case (CmdResume r')
  with out have "(ch, CtlGrant r) \<in> set (snd (handle_resume ok r' e))" by simp
  then obtain s ow where s: "map_of (slots e) r' = Some s" "suspended s" "owner s = Some ow"
      "map_of (control_reg e) ow = Some ch" "r' = r"
    by (rule handle_resume_grantE)
  then have "fst (handle_resume ok r' e) = put_slot r' (s\<lparr>suspended := False\<rparr>) e"
    by (simp add: handle_resume_def Let_def)
  with CmdResume s show ?thesis by simp
qed (use no_bc out in simp_all)

lemma handle_timeout_grant_owner:
  assumes inv: "engine_inv e" and out: "(ch, CtlGrant r) \<in> set (snd (handle_timeout ok now e))"
  shows "\<exists>c. map_of (control_reg e) c = Some ch \<and> owner_of (fst (handle_timeout ok now e)) r = Some c"
proof -
  let ?f = "reclaim_slot ok (control_reg e) now"
  have "distinct (map fst (slots (fst (each_slot ?f e))))"
    using inv by (simp add: each_slot_def engine_invD)
  then have "(ch, CtlGrant r) \<in> set (snd (each_slot ?f e))"
    using out release_all_seats_out [of ch "CtlGrant r" ok now "expired_seats now e" "fst (each_slot ?f e)"]
    by (auto simp: handle_timeout_def Let_def case_prod_beta)
  with inv obtain q s where s: "map_of (slots e) q = Some s" "(ch, CtlGrant r) \<in> set (snd (?f q s))"
    using each_slot_out [of ch "CtlGrant r" ?f e] by (auto simp: engine_invD)
  then have "q = r \<and> (\<exists>c'. map_of (control_reg e) c' = Some ch \<and> owner (fst (?f q s)) = Some c')"
    using reclaim_slot_out_owner [OF s(2)] by simp
  with s inv show ?thesis
    by (auto simp: handle_timeout_owner_of owner_of_each_slot)
qed

text \<open>C4. A Grant never goes to anybody but the owner: every Grant a step delivers (a broadcast that
  the caller itself fills with a Grant apart) goes to the channel of the client that owns the
  resource after the step, so two clients are never granted the same resource by one step.\<close>

theorem grants_go_to_the_owner:
  assumes "reach engine_start engine_step s" "engine_step s ev t"
    and "ev = TimedOut out \<or> (\<exists>cmd res. ev = Handled cmd res out \<and> (\<forall>m. cmd \<noteq> CmdBroadcast m))"
    and "(ch, CtlGrant r) \<in> set out"
  shows "\<exists>c. map_of (control_reg (eng t)) c = Some ch \<and> owner_of (eng t) r = Some c"
  using assms(2)
proof cases
  case (step_command now cmd ok res e' out')
  then show ?thesis
    using handle_command_grant_owner [OF engine_reach.reach_inv [OF assms(1)], of cmd ch r ok now] assms(3,4)
    by auto
next
  case (step_timeout d now ok e' out')
  then have "control_reg e' = control_reg (eng s)"
    using handle_timeout_reg [OF engine_reach.reach_inv [OF assms(1)], of ok now] by simp
  with step_timeout show ?thesis
    using handle_timeout_grant_owner [OF engine_reach.reach_inv [OF assms(1)], of ch r ok now] assms(3,4)
    by auto
qed

theorem grants_go_to_the_owner_witness:
  "\<exists>t out. engine_step \<lparr>eng = demo_state, clock = 2\<rparr> (Handled (CmdRelease 1 Fbdev) None out) t \<and>
    (102, CtlGrant Fbdev) \<in> set out \<and>
    (\<exists>c. map_of (control_reg (eng t)) c = Some 102 \<and> owner_of (eng t) Fbdev = Some c)"
proof -
  obtain e' out where eq: "handle_command (\<lambda>_ _. True) 3 (CmdRelease 1 Fbdev) demo_state = (None, e', out)"
    by fastforce
  have "snd (snd (handle_command (\<lambda>_ _. True) 3 (CmdRelease 1 Fbdev) demo_state)) = [(102, CtlGrant Fbdev)]"
    by code_simp
  with eq have out: "(102, CtlGrant Fbdev) \<in> set out" by simp
  have step: "engine_step \<lparr>eng = demo_state, clock = 2\<rparr> (Handled (CmdRelease 1 Fbdev) None out)
      \<lparr>eng = e', clock = 3\<rparr>"
    using eq by (auto intro: step_command)
  from grants_go_to_the_owner [OF demo_reach step _ out] step out show ?thesis by blast
qed

section \<open>Timeouts\<close>

lemma handle_timeout_lookup:
  assumes inv: "engine_inv e" and s: "map_of (slots e) r = Some s"
  shows "\<exists>s'. map_of (slots (fst (handle_timeout ok now e))) r = Some s' \<and>
    owner s' = owner (fst (reclaim_slot ok (control_reg e) now r s)) \<and>
    (s' = fst (reclaim_slot ok (control_reg e) now r s) \<or>
     s' = rearmed now (fst (reclaim_slot ok (control_reg e) now r s)))"
proof -
  let ?e1 = "fst (each_slot (reclaim_slot ok (control_reg e) now) e)"
  have "distinct (map fst (slots ?e1))"
    using inv by (simp add: each_slot_def engine_invD)
  from release_all_seats_lookup [OF this, of ok now "expired_seats now e" r] s show ?thesis
    by (simp add: handle_timeout_def Let_def case_prod_beta)
qed

lemma handle_timeout_lookup_None:
  assumes "engine_inv e" and "map_of (slots e) r = None"
  shows "map_of (slots (fst (handle_timeout ok now e))) r = None"
proof -
  let ?e1 = "fst (each_slot (reclaim_slot ok (control_reg e) now) e)"
  have "distinct (map fst (slots ?e1))"
    using assms(1) by (simp add: each_slot_def engine_invD)
  from release_all_seats_lookup [OF this, of ok now "expired_seats now e" r] assms(2) show ?thesis
    by (simp add: handle_timeout_def Let_def case_prod_beta)
qed

lemma reclaim_slot_not_expired: "\<not> expired now (fst (reclaim_slot ok reg now r s))"
  by (simp add: reclaim_slot_def force_reclaim_def expired_def)

lemma reclaim_slot_handed_over:
  "expired now s \<Longrightarrow>
    handed_over ok reg r (s\<lparr>owner := None, revoke_deadline := None\<rparr>) (reclaim_slot ok reg now r s)"
  by (simp add: reclaim_slot_def force_reclaim_def grant_next_handed_over)

text \<open>Who a free slot goes to: the first waiter, in service order, that can be reached.\<close>

definition next_owner :: "send_ok \<Rightarrow> registry \<Rightarrow> resource \<Rightarrow> slot \<Rightarrow> client_id option" where
  "next_owner ok reg r s =
     map_option wclient (find (deliverable ok reg r) (service_order s))"

lemma find_dropWhile: "find P xs = (case dropWhile (\<lambda>x. \<not> P x) xs of [] \<Rightarrow> None | x # _ \<Rightarrow> Some x)"
  by (induction xs) simp_all

lemma handed_over_next_owner:
  "handed_over ok reg r (s\<lparr>owner := None, revoke_deadline := d\<rparr>) res \<Longrightarrow>
    owner (fst res) = next_owner ok reg r s"
  by (simp add: handed_over_def next_owner_def find_dropWhile split: list.splits)

lemma next_owner_waits:
  assumes "next_owner ok reg r s = Some c" shows "c \<in> wclient ` set (waiters s)"
proof -
  from assms obtain w where "find (deliverable ok reg r) (service_order s) = Some w" "c = wclient w"
    by (auto simp: next_owner_def)
  moreover from this have "w \<in> set (service_order s)"
    by (auto simp: find_Some_iff)
  ultimately show ?thesis
    using service_order_set by blast
qed

lemma handle_timeout_owner_of_expired:
  assumes "engine_inv e" "map_of (slots e) r = Some s"
  shows "owner_of (fst (handle_timeout ok now e)) r =
      (if expired now s then next_owner ok (control_reg e) r s else owner s)"
  using handle_timeout_lookup [OF assms, of ok now]
    handed_over_next_owner [OF reclaim_slot_handed_over, of now s ok "control_reg e" r]
  by (auto simp: reclaim_slot_live owner_of_def)

text \<open>C5. When the timer fires, every slot whose revoke deadline has passed is taken from its owner
  and goes to the first waiter in service order whose connection can be reached (or becomes free),
  no other slot changes hands, and no deadline that has passed is left behind.\<close>

theorem timeout_reclaims_expired:
  assumes "engine_inv e" "map_of (slots e) r = Some s"
  shows "owner_of (fst (handle_timeout ok now e)) r =
      (if expired now s then next_owner ok (control_reg e) r s else owner s) \<and>
    (\<exists>s'. map_of (slots (fst (handle_timeout ok now e))) r = Some s' \<and> \<not> expired now s')"
proof
  from handle_timeout_lookup [OF assms, of ok now]
  show "\<exists>s'. map_of (slots (fst (handle_timeout ok now e))) r = Some s' \<and> \<not> expired now s'"
    using reclaim_slot_not_expired [of now ok "control_reg e" r s]
    by (auto simp: expired_def REVOKE_TIMEOUT_def)
qed (rule handle_timeout_owner_of_expired [OF assms])

theorem timeout_reclaims_expired_witness:
  "owner_of (fst (handle_timeout (\<lambda>_ _. True) 6000 demo_state)) Fbdev = Some 2"
proof -
  obtain s where s: "map_of (slots demo_state) Fbdev = Some s" "expired 6000 s"
    "next_owner (\<lambda>_ _. True) (control_reg demo_state) Fbdev s = Some 2"
    by (simp add: demo_state_eq expired_def next_owner_def service_order_def deliverable_def)
  from timeout_reclaims_expired [OF engine_reach.reach_inv [OF demo_reach, simplified] s(1),
      of "\<lambda>_ _. True" 6000] s(2,3)
  show ?thesis by simp
qed

end
