(* ===== verification/Engine_Laws.thy ===== *)
theory Engine_Laws
  imports Engine_Timing
begin

text \<open>
  What the engine promises a client, command by command: a silent owner is put out within the
  revoke timeout, a disconnect leaves nothing behind, a device that goes away and comes back is
  still its holder's, and the client on the display takes an input from one that is not.
\<close>

section \<open>Deadlines are never further away than the revoke timeout\<close>

definition deadline_of :: "engine \<Rightarrow> resource \<Rightarrow> instant option" where
  "deadline_of e r = Option.bind (map_of (slots e) r) revoke_deadline"

lemma deadline_of_put_slot [simp]:
  "deadline_of (put_slot r s e) r' = (if r' = r then revoke_deadline s else deadline_of e r')"
  by (simp add: deadline_of_def)

lemma deadline_of_slot: "map_of (slots e) r = Some s \<Longrightarrow> deadline_of e r = revoke_deadline s"
  by (simp add: deadline_of_def)

lemma acquire_one_deadline:
  assumes inv: "engine_inv e" and d: "deadline_of (fst (snd (acquire_one ok now c r e))) r' = Some d"
  shows "deadline_of e r' = Some d \<or> d = now + REVOKE_TIMEOUT"
proof (cases rule: acquire_one_cases [of ok now c r e])
  case (granted s)
  with d show ?thesis by (auto simp: deadline_of_def split: if_splits)
next
  case (queued s)
  show ?thesis
    by (cases rule: queue_waiter_cases [OF inv queued(1,2), of c ok now "seat_steals e c r s"])
      (use queued d in \<open>auto simp: deadline_of_def split: if_splits\<close>)
qed (use d in simp)

lemma release_seat_inputs_deadline:
  assumes "distinct (map fst (slots e))"
    and "deadline_of (fst (release_seat_inputs ok now c e)) r = Some d"
  shows "deadline_of e r = Some d \<or> d = now + REVOKE_TIMEOUT"
  using assms release_seat_inputs_lookup [OF assms(1), of ok now c r]
  by (cases "map_of (slots e) r") (auto simp: deadline_of_def split: if_splits)

lemma release_one_deadline:
  assumes "deadline_of (fst (release_one ok c r e)) r' = Some d"
  shows "deadline_of e r' = Some d"
  using assms
  by (cases "owner_of e r = Some c")
    (auto simp: release_one_not_owner release_one_owner release_slot_eq elim!: owner_of_SomeE split: if_splits)

lemma handle_command_deadline:
  assumes inv: "engine_inv e"
    and d: "deadline_of (fst (snd (handle_command ok now cmd e))) r = Some d"
  shows "deadline_of e r = Some d \<or> d = now + REVOKE_TIMEOUT"
proof (cases cmd)
  case (CmdAcquire c q)
  with d show ?thesis
    using acquire_one_deadline [OF inv, of ok now c q r d] by (simp add: Let_def case_prod_beta)
next
  case (CmdRelease c q)
  let ?e1 = "fst (release_one ok c q e)"
  have "distinct (map fst (slots ?e1))"
    using inv by (simp add: engine_invD)
  from release_seat_inputs_deadline [OF this, of ok now c r d] release_one_deadline [of ok c q e r d]
  show ?thesis
    using d CmdRelease by (auto simp: handle_release_cmd_def Let_def case_prod_beta split: if_splits)
next
  case (CmdDisconnected c)
  with d show ?thesis
    by (cases "map_of (slots e) r")
      (auto simp: handle_disconnected_def Let_def deadline_of_def disconnect_slot_def split: if_splits)
qed (use d in \<open>auto simp: deadline_of_def handle_suspend_def handle_resume_def handle_offer_def new_slot_def
      Let_def split: option.splits if_splits\<close>)

lemma handle_timeout_deadline:
  assumes inv: "engine_inv e" and d: "deadline_of (fst (handle_timeout ok now e)) r = Some d"
  shows "deadline_of e r = Some d \<or> d = now + REVOKE_TIMEOUT"
proof -
  obtain s where s: "map_of (slots e) r = Some s"
    using d handle_timeout_lookup_None [OF inv, of r ok now]
    by (cases "map_of (slots e) r") (auto simp: deadline_of_def)
  have "revoke_deadline (fst (reclaim_slot ok (control_reg e) now r s)) \<in> {None, revoke_deadline s}"
    by (simp add: reclaim_slot_def force_reclaim_def)
  with handle_timeout_lookup [OF inv s, of ok now] d s show ?thesis
    by (auto simp: deadline_of_def)
qed

lemma deadline_of_init: "deadline_of (init_engine policies) r = None"
  by (induction policies) (auto simp: init_engine_def deadline_of_def new_slot_def)

definition deadlines_near :: "engine_sys \<Rightarrow> bool" where
  "deadlines_near s \<longleftrightarrow>
     engine_inv (eng s) \<and> (\<forall>r d. deadline_of (eng s) r = Some d \<longrightarrow> d \<le> clock s + REVOKE_TIMEOUT)"

interpretation deadline_reach: invariant_system engine_start engine_step deadlines_near
proof unfold_locales
  fix s assume "engine_start s"
  then show "deadlines_near s"
    by (auto simp: deadlines_near_def engine_start_def init_engine_inv deadline_of_init)
next
  fix s ev t assume s: "deadlines_near s" and step: "engine_step s ev t"
  then have inv: "engine_inv (eng t)"
    using engine_reach.inv_step by (auto simp: deadlines_near_def)
  from step have "clock s \<le> clock t" by (auto elim: engine_step.cases)
  moreover have "deadline_of (eng s) r = Some d \<or> d = clock t + REVOKE_TIMEOUT"
    if "deadline_of (eng t) r = Some d" for r d
    using step
  proof cases
    case (step_command now cmd ok res e' out)
    with that s show ?thesis
      using handle_command_deadline [of "eng s" ok now cmd r d] by (simp add: deadlines_near_def)
  next
    case (step_timeout d' now ok e' out)
    with that s show ?thesis
      using handle_timeout_deadline [of "eng s" ok now r d] by (simp add: deadlines_near_def)
  qed
  ultimately show "deadlines_near t"
    using s inv by (fastforce simp: deadlines_near_def)
qed

lemma fold_min_le: "fold min ds (d::nat) \<le> d \<and> (\<forall>x\<in>set ds. fold min ds d \<le> x)"
proof (induction ds arbitrary: d)
  case (Cons x ds)
  from Cons.IH [of "min x d"] show ?case by auto
qed simp

lemma next_deadline_le:
  assumes "deadline_of e r = Some d"
  shows "\<exists>d'. next_deadline e = Some d' \<and> d' \<le> d"
proof -
  have "d \<in> set (deadlines e)"
    using assms
    by (force simp: deadline_of_def deadlines_def bind_eq_Some_conv map_filter_def dest: map_of_SomeD)
  then show ?thesis
    using fold_min_le by (cases "deadlines e") (auto simp: next_deadline_def)
qed

text \<open>C6. A revoke is decided in time: in every reachable state with a revoke in flight, once the
  revoke timeout has passed since the last step the timer of the loop can fire, and when it fires
  the silent owner has lost the resource to the first waiter in service order that can be reached,
  or nobody holds it.\<close>

theorem revoke_decided_in_time:
  assumes "reach engine_start engine_step s" "map_of (slots (eng s)) r = Some sl"
    and "revoke_deadline sl \<noteq> None" "clock s + REVOKE_TIMEOUT \<le> now"
  shows "\<exists>t out. engine_step s (TimedOut out) t \<and> clock t = now \<and>
    handle_timeout ok now (eng s) = (eng t, out) \<and>
    owner_of (eng t) r = next_owner ok (control_reg (eng s)) r sl \<and>
    owner_of (eng t) r \<noteq> owner sl"
proof -
  from assms(3) obtain d where d: "revoke_deadline sl = Some d" by auto
  have inv: "engine_inv (eng s)" and "d \<le> clock s + REVOKE_TIMEOUT"
    using deadline_reach.reach_inv [OF assms(1)] deadline_of_slot [OF assms(2)] d
    by (auto simp: deadlines_near_def)
  then have "d \<le> now" using assms(4) by simp
  moreover from d assms(2) obtain d' where "next_deadline (eng s) = Some d'" "d' \<le> d"
    using next_deadline_le [of "eng s" r d] by (auto simp: deadline_of_slot)
  ultimately have step: "engine_step s (TimedOut (snd (handle_timeout ok now (eng s))))
      \<lparr>eng = fst (handle_timeout ok now (eng s)), clock = now\<rparr>"
    using assms(4) by (intro step_timeout [of _ d' now ok]) auto
  have "expired now sl"
    using d \<open>d \<le> now\<close> by (simp add: expired_def)
  with handle_timeout_owner_of_expired [OF inv assms(2), of ok now]
  have own: "owner_of (fst (handle_timeout ok now (eng s))) r = next_owner ok (control_reg (eng s)) r sl"
    by simp
  have "next_owner ok (control_reg (eng s)) r sl \<noteq> owner sl"
    using engine_invD(3) [OF inv assms(2)] d next_owner_waits [of ok "control_reg (eng s)" r sl]
    by (cases "owner sl") (auto simp: slot_inv_def)
  with step own show ?thesis
    by (intro exI conjI) (auto simp: prod_eq_iff)
qed

theorem revoke_decided_in_time_witness:
  "\<exists>t out. engine_step \<lparr>eng = demo_state, clock = 2\<rparr> (TimedOut out) t \<and> owner_of (eng t) Fbdev = Some 2"
proof -
  obtain sl where sl: "map_of (slots demo_state) Fbdev = Some sl" "revoke_deadline sl \<noteq> None"
    "next_owner (\<lambda>_ _. True) (control_reg demo_state) Fbdev sl = Some 2"
    by (simp add: demo_state_eq next_owner_def service_order_def deliverable_def)
  from revoke_decided_in_time [OF demo_reach, of Fbdev sl 5002 "\<lambda>_ _. True"] sl show ?thesis
    by (auto simp: REVOKE_TIMEOUT_def)
qed

section \<open>Disconnects\<close>

lemma disconnect_slot_owner_eq:
  "owner (fst (disconnect_slot ok reg c r s)) =
    (if owner s = Some c
     then next_owner ok reg r (s\<lparr>waiters := filter (\<lambda>w. wclient w \<noteq> c) (waiters s)\<rparr>) else owner s)"
proof (cases "owner s = Some c")
  case True
  then show ?thesis
    using handed_over_next_owner [OF grant_next_handed_over]
    by (simp add: disconnect_slot_def Let_def)
qed (simp add: disconnect_slot_owner)

lemma disconnect_slot_waiters:
  "set (waiters (fst (disconnect_slot ok reg c r s))) \<subseteq> {w \<in> set (waiters s). wclient w \<noteq> c}"
proof (cases "owner s = Some c")
  case True
  have "set (waiters (fst (grant_next ok reg r s'))) \<subseteq> set (waiters s')" for s'
    by (rule subseq_setD [OF grant_next_subseq])
  from this [of "s\<lparr>waiters := filter (\<lambda>w. wclient w \<noteq> c) (waiters s), owner := None, revoke_deadline := None\<rparr>"]
  show ?thesis using True by (auto simp: disconnect_slot_def)
qed (auto simp: disconnect_slot_def)

text \<open>C7. A disconnect leaves nothing of the client behind: it is out of the registry, it waits
  nowhere and owns nothing, what it owned goes to the first of the remaining waiters in service
  order that can be reached, and nobody else loses anything.\<close>

theorem disconnect_leaves_no_trace:
  assumes "map_of (slots e) r = Some s"
  shows "map_of (control_reg (fst (handle_disconnected ok c e))) c = None \<and>
    (\<exists>s'. map_of (slots (fst (handle_disconnected ok c e))) r = Some s' \<and>
      c \<notin> wclient ` set (waiters s') \<and> owner s' \<noteq> Some c \<and>
      owner s' = (if owner s = Some c
        then next_owner ok (AList.delete c (control_reg e)) r
               (s\<lparr>waiters := filter (\<lambda>w. wclient w \<noteq> c) (waiters s)\<rparr>)
        else owner s))"
proof -
  let ?reg = "AList.delete c (control_reg e)"
  have "owner (fst (disconnect_slot ok ?reg c r s)) \<noteq> Some c"
    using next_owner_waits [of ok ?reg r "s\<lparr>waiters := filter (\<lambda>w. wclient w \<noteq> c) (waiters s)\<rparr>" c]
    by (auto simp: disconnect_slot_owner_eq)
  moreover have "c \<notin> wclient ` set (waiters (fst (disconnect_slot ok ?reg c r s)))"
    using disconnect_slot_waiters [of ok ?reg c r s] by blast
  ultimately show ?thesis
    using assms by (simp add: handle_disconnected_def Let_def disconnect_slot_owner_eq)
qed

theorem disconnect_leaves_no_trace_witness:
  "owner_of (fst (handle_disconnected (\<lambda>_ _. True) 1 demo_state)) Fbdev = Some 2"
proof -
  obtain s where s: "map_of (slots demo_state) Fbdev = Some s" "owner s = Some 1"
    "next_owner (\<lambda>_ _. True) (AList.delete 1 (control_reg demo_state)) Fbdev
       (s\<lparr>waiters := filter (\<lambda>w. wclient w \<noteq> 1) (waiters s)\<rparr>) = Some 2"
    by (simp add: demo_state_eq next_owner_def service_order_def deliverable_def)
  from disconnect_leaves_no_trace [OF s(1), of "\<lambda>_ _. True" 1] s(2,3) show ?thesis
    by (auto simp: owner_of_def)
qed

section \<open>A device that goes away and comes back\<close>

lemma handle_suspend_eq:
  "map_of (slots e) r = Some s \<Longrightarrow>
    handle_suspend r e = put_slot r (s\<lparr>suspended := True, revoke_deadline := None\<rparr>) e"
  by (simp add: handle_suspend_def)

lemma resume_suspended:
  assumes "map_of (slots e) r = Some s" "owner s = Some c" "map_of (control_reg e) c = Some ch"
  shows "handle_resume ok r (handle_suspend r e) =
    (put_slot r (s\<lparr>revoke_deadline := None, suspended := False\<rparr>) (handle_suspend r e),
     send ok ch (CtlGrant r))"
  using assms by (simp add: handle_suspend_eq handle_resume_def)

text \<open>C8. Unplugging is not a revocation: while its device is away a resource stays with its holder
  and every other client is denied it with nothing changed; when the device is back the holder is
  sent a Grant for it, and the engine is what it was before, less a revoke that was in flight.\<close>

theorem suspend_resume_round_trip:
  assumes "map_of (slots e) r = Some s" "\<not> suspended s" "owner s = Some c"
    and "map_of (control_reg e) c = Some ch" "c' \<noteq> c"
  shows "owner_of (handle_suspend r e) r = Some c \<and>
    acquire_one ok now c' r (handle_suspend r e) = (OutcomeDenied (DeviceAway r), handle_suspend r e, []) \<and>
    snd (handle_resume ok r (handle_suspend r e)) = send ok ch (CtlGrant r) \<and>
    control_reg (fst (handle_resume ok r (handle_suspend r e))) = control_reg e \<and>
    map_of (slots (fst (handle_resume ok r (handle_suspend r e)))) =
      (map_of (slots e))(r \<mapsto> s\<lparr>revoke_deadline := None\<rparr>)"
proof -
  have "acquire_one ok now c' r (handle_suspend r e) = (OutcomeDenied (DeviceAway r), handle_suspend r e, [])"
    using acquire_one_registered [of "handle_suspend r e" r
        "s\<lparr>suspended := True, revoke_deadline := None\<rparr>" ok now c'] assms
    by (simp add: handle_suspend_eq)
  moreover have "s\<lparr>revoke_deadline := None, suspended := False\<rparr> = s\<lparr>revoke_deadline := None\<rparr>"
    using assms(2) by (cases s) simp
  ultimately show ?thesis
    using assms(1,3) resume_suspended [OF assms(1,3,4), of ok]
    by (simp add: handle_suspend_eq [OF assms(1)])
qed

theorem suspend_resume_round_trip_witness:
  "snd (handle_resume (\<lambda>_ _. True) Fbdev (handle_suspend Fbdev demo_state)) = [(101, CtlGrant Fbdev)]"
proof -
  obtain s where s: "map_of (slots demo_state) Fbdev = Some s" "\<not> suspended s" "owner s = Some 1"
    "map_of (control_reg demo_state) 1 = Some 101"
    by (simp add: demo_state_eq)
  from suspend_resume_round_trip [OF s, of 2 "\<lambda>_ _. True"] show ?thesis
    by (simp add: send_def)
qed

end
