(* ===== verification/Engine_Seat.thy ===== *)
theory Engine_Seat
  imports Engine_Laws
begin

text \<open>
  Input belongs to the client on the display (the seat): it takes a device from a client that has
  no display, such a client never takes one from anybody, and whoever leaves the seat is asked for
  every device it still holds.
\<close>

section \<open>Taking a device\<close>

text \<open>Seat claims come first in the service order, under every policy.\<close>

definition first_claim :: "send_ok \<Rightarrow> registry \<Rightarrow> resource \<Rightarrow> waiter list \<Rightarrow> client_id option" where
  "first_claim ok reg r ws = map_option wclient (find (deliverable ok reg r) (filter seat_claim ws))"

lemma find_append: "find P (xs @ ys) = (case find P xs of None \<Rightarrow> find P ys | Some x \<Rightarrow> Some x)"
  by (induction xs) simp_all

lemma next_owner_seat_claim:
  "first_claim ok reg r (waiters s) = Some c \<Longrightarrow> next_owner ok reg r s = Some c"
  by (auto simp: first_claim_def next_owner_def service_order_def find_append)

lemma filter_seat_claim_requeue:
  "filter seat_claim (requeue_waiter p ws \<lparr>wclient = c, seat_claim = False\<rparr>) = filter seat_claim ws"
  by (cases p) simp_all

lemma release_slot_next_owner:
  "owner (fst (release_slot ok reg c r s)) =
    next_owner ok reg r
      (s\<lparr>waiters := (if revoke_deadline s \<noteq> None \<and> waiters s \<noteq> []
           then requeue_waiter (slot_policy s) (waiters s) \<lparr>wclient = c, seat_claim = False\<rparr>
           else waiters s)\<rparr>)"
  unfolding release_slot_eq by (rule handed_over_next_owner [OF grant_next_handed_over])

lemma seat_claim_wins:
  assumes inv: "engine_inv e" and s: "map_of (slots e) r = Some s" "owner s = Some ow"
    and claim: "first_claim ok (control_reg e) r (waiters s) = Some c"
  shows "owner_of (fst (release_one ok ow r e)) r = Some c"
    and "deadline_of e r = Some d \<Longrightarrow> d \<le> t \<Longrightarrow> owner_of (fst (handle_timeout ok t e)) r = Some c"
proof -
  show "owner_of (fst (release_one ok ow r e)) r = Some c"
    using s claim
    by (auto simp: release_one_owner release_slot_next_owner first_claim_def filter_seat_claim_requeue
        intro!: next_owner_seat_claim)
  assume "deadline_of e r = Some d" "d \<le> t"
  then have "expired t s"
    using s by (simp add: deadline_of_slot expired_def)
  with handle_timeout_owner_of_expired [OF inv s(1), of ok t] claim
  show "owner_of (fst (handle_timeout ok t e)) r = Some c"
    by (simp add: next_owner_seat_claim)
qed

lemma acquire_by_seat:
  assumes "map_of (slots e) r = Some s" "owner s = Some ow" "\<not> suspended s"
    and "is_input r" "holds_display (slots e) c" "\<not> holds_display (slots e) ow"
  shows "acquire_one ok now c r e = queue_waiter ok now c r True s e"
proof -
  have "seat_steals e c r s" "ow \<noteq> c" using assms by (auto simp: seat_steals_def)
  with acquire_one_registered [OF assms(1), of ok now c] assms show ?thesis by simp
qed

text \<open>C9. What the seat gets when it asks for a device of a holder that is not on the display, whatever the
  policy.  If it does not already wait for the device, its Acquire is queued with a revoke in flight,
  and the device goes to the first client with a seat claim that can be reached, which is the
  requester unless another claimed it before: both when the holder answers and when the holder
  stays silent past the deadline.  If it already waits for the device, nothing happens: the answer is
  the same, but the engine's state does not change and no message is sent.\<close>

theorem seat_takes_input:
  assumes inv: "engine_inv e" and s: "map_of (slots e) r = Some s" "owner s = Some ow" "\<not> suspended s"
    and seat: "is_input r" "holds_display (slots e) c" "\<not> holds_display (slots e) ow"
    and reach: "map_of (control_reg e) c = Some ch" "ok ch (CtlGrant r)"
  shows "if is_queued s c then acquire_one ok now c r e = (OutcomeQueued, e, [])
    else \<exists>e1 out d. acquire_one ok now c r e = (OutcomeQueued, e1, out) \<and> deadline_of e1 r = Some d \<and>
      (let heir = (case first_claim ok (control_reg e) r (waiters s) of None \<Rightarrow> c | Some c' \<Rightarrow> c') in
        owner_of (fst (release_one ok ow r e1)) r = Some heir \<and>
        (\<forall>t\<ge>d. owner_of (fst (handle_timeout ok t e1)) r = Some heir))"
proof (cases "is_queued s c")
  case True
  with acquire_by_seat [OF s seat, of ok now] show ?thesis by (simp add: queue_waiter_def)
next
  case False
  let ?w = "\<lparr>wclient = c, seat_claim = True\<rparr>"
  obtain s1 out d where e1: "acquire_one ok now c r e = (OutcomeQueued, put_slot r s1 e, out)"
      "revoke_deadline s1 = Some d" "owner s1 = Some ow" "waiters s1 = waiters s @ [?w]"
    by (cases rule: queue_waiter_cases [OF inv s(1), of c ok now True])
      (use s False acquire_by_seat [OF s seat, of ok now] in auto)
  have inv1: "engine_inv (put_slot r s1 e)"
    using acquire_one_inv [OF inv, of c ok now r] e1(1) reach by auto
  have claim: "first_claim ok (control_reg (put_slot r s1 e)) r (waiters s1) =
      Some (case first_claim ok (control_reg e) r (waiters s) of None \<Rightarrow> c | Some c' \<Rightarrow> c')"
    using e1(4) reach by (simp add: first_claim_def find_append deliverable_def split: option.split)
  have look: "map_of (slots (put_slot r s1 e)) r = Some s1" by simp
  note wins = seat_claim_wins [OF inv1 look e1(3) claim]
  from e1 wins(1) wins(2) [of d] False show ?thesis
    by (auto simp: Let_def intro!: exI [of _ "put_slot r s1 e"] exI [of _ out] exI [of _ d])
qed

text \<open>A background client with an input, and the client on the display asking for it.\<close>

definition seat_state :: engine where
  "seat_state = fst (snd (run_commands (\<lambda>_ _. True)
     [(0, CmdRegister 1 101), (0, CmdRegister 2 102), (1, CmdAcquire 1 Fbdev), (2, CmdAcquire 2 (Input (Mouse 0)))]
     (init_engine [(Fbdev, FairQueue), (Input (Mouse 0), FirstOwner)])))"

lemma seat_state_eq:
  "seat_state =
     \<lparr>slots = [(Fbdev, \<lparr>slot_policy = FairQueue, owner = Some 1, waiters = [], revoke_deadline = None, suspended = False\<rparr>),
        (Input (Mouse 0), \<lparr>slot_policy = FirstOwner, owner = Some 2, waiters = [], revoke_deadline = None, suspended = False\<rparr>)],
      control_reg = [(1, 101), (2, 102)]\<rparr>"
  unfolding seat_state_def by code_simp

lemma seat_state_reach: "reach engine_start engine_step \<lparr>eng = seat_state, clock = 2\<rparr>"
proof -
  let ?cmds = "[(0, CmdRegister 1 101), (0, CmdRegister 2 102), (1, CmdAcquire 1 Fbdev), (2, CmdAcquire 2 (Input (Mouse 0)))]"
  let ?ps = "[(Fbdev, FairQueue), (Input (Mouse 0), FirstOwner)]"
  have "distinct (map fst ?ps)" by simp
  moreover have "admissible_run (\<lambda>_ _. True) 0 ?cmds (init_engine ?ps)" by code_simp
  ultimately show ?thesis
    using run_reach [of ?ps "\<lambda>_ _. True" 0 ?cmds] by (simp add: seat_state_def)
qed

theorem seat_takes_input_witness:
  "\<exists>e1 out. acquire_one (\<lambda>_ _. True) 3 1 (Input (Mouse 0)) seat_state = (OutcomeQueued, e1, out) \<and>
    owner_of (fst (release_one (\<lambda>_ _. True) 2 (Input (Mouse 0)) e1)) (Input (Mouse 0)) = Some 1"
proof -
  let ?r = "Input (Mouse 0)"
  obtain s where s: "map_of (slots seat_state) ?r = Some s" "owner s = Some 2" "\<not> suspended s"
    and q: "\<not> is_queued s 1" "waiters s = []"
    by (simp add: seat_state_eq is_queued_def)
  have "is_input ?r" "holds_display (slots seat_state) 1" "\<not> holds_display (slots seat_state) 2"
    and "map_of (control_reg seat_state) 1 = Some 101"
    by (simp_all add: seat_state_eq holds_display_def)
  from seat_takes_input [OF engine_reach.reach_inv [OF seat_state_reach, simplified] s this, of "\<lambda>_ _. True" 3] q
  show ?thesis by (auto simp: first_claim_def)
qed

text \<open>
  Three clients take turns on one display.  Each leaves the display before the next takes it, and each
  answers the revoke of the mouse, so that the first two are left in the mouse's line.  The third puts
  the mouse down, which hands it to the first, and leaves the display, which the second takes.
\<close>

definition waiting_run :: "(instant \<times> engine_command) list" where
  "waiting_run =
     [(0, CmdRegister 1 101), (0, CmdRegister 2 102), (0, CmdRegister 3 103),
      (1, CmdAcquire 1 Fbdev), (1, CmdAcquire 1 (Input (Mouse 0))), (2, CmdRelease 1 Fbdev),
      (3, CmdAcquire 2 Fbdev), (3, CmdAcquire 2 (Input (Mouse 0))), (4, CmdRelease 1 (Input (Mouse 0))),
      (5, CmdRelease 2 Fbdev),
      (6, CmdAcquire 3 Fbdev), (6, CmdAcquire 3 (Input (Mouse 0))), (7, CmdRelease 2 (Input (Mouse 0))),
      (8, CmdRelease 3 (Input (Mouse 0))), (8, CmdRelease 3 Fbdev),
      (9, CmdAcquire 2 Fbdev)]"

definition waiting_seat :: engine where
  "waiting_seat = fst (snd (run_commands (\<lambda>_ _. True) waiting_run
     (init_engine [(Fbdev, FairQueue), (Input (Mouse 0), FairQueue)])))"

lemma waiting_seat_eq:
  "waiting_seat =
     \<lparr>slots = [(Fbdev, \<lparr>slot_policy = FairQueue, owner = Some 2, waiters = [], revoke_deadline = None, suspended = False\<rparr>),
        (Input (Mouse 0), \<lparr>slot_policy = FairQueue, owner = Some 1, waiters = [\<lparr>wclient = 2, seat_claim = False\<rparr>],
           revoke_deadline = None, suspended = False\<rparr>)],
      control_reg = [(1, 101), (2, 102), (3, 103)]\<rparr>"
  unfolding waiting_seat_def by code_simp

lemma waiting_seat_reach: "reach engine_start engine_step \<lparr>eng = waiting_seat, clock = 9\<rparr>"
proof -
  let ?ps = "[(Fbdev, FairQueue), (Input (Mouse 0), FairQueue)]"
  have "distinct (map fst ?ps)" by simp
  moreover have "admissible_run (\<lambda>_ _. True) 0 waiting_run (init_engine ?ps)" by code_simp
  ultimately show ?thesis
    using run_reach [of ?ps "\<lambda>_ _. True" 0 waiting_run] by (simp add: waiting_seat_def waiting_run_def)
qed

text \<open>C34. A seat that is still in a device's line cannot take the device: if the client on the display was
  queued for an input earlier, without a seat claim, and the device has meanwhile gone to a holder
  that is not on the display, with no revoke in flight, then its Acquire is answered "queued" but
  changes nothing, so that it gets no claim and no deadline is armed; no message is sent, and the
  timer, whenever it fires, leaves the device with that holder.  The reference table of the policy
  engine says that such a device is stolen.\<close>

theorem waiting_seat_not_served:
  assumes inv: "engine_inv e" and s: "map_of (slots e) r = Some s" "owner s = Some ow" "\<not> suspended s"
    and seat: "is_input r" "holds_display (slots e) c" "\<not> holds_display (slots e) ow"
    and queued: "is_queued s c" "revoke_deadline s = None"
  shows "acquire_one ok now c r e = (OutcomeQueued, e, []) \<and>
    (\<forall>t. owner_of (fst (handle_timeout ok t e)) r = Some ow)"
  using acquire_by_seat [OF s seat, of ok now] handle_timeout_owner_of_expired [OF inv s(1), of ok] s(2) queued
  by (simp add: queue_waiter_def expired_def)

theorem waiting_seat_not_served_witness:
  "reach engine_start engine_step \<lparr>eng = waiting_seat, clock = 9\<rparr> \<and> holds_display (slots waiting_seat) 2 \<and>
    \<not> holds_display (slots waiting_seat) 1 \<and>
    acquire_one (\<lambda>_ _. True) 10 2 (Input (Mouse 0)) waiting_seat = (OutcomeQueued, waiting_seat, []) \<and>
    (\<forall>t. owner_of (fst (handle_timeout (\<lambda>_ _. True) t waiting_seat)) (Input (Mouse 0)) = Some 1)"
proof -
  let ?r = "Input (Mouse 0)"
  obtain s where s: "map_of (slots waiting_seat) ?r = Some s" "owner s = Some 1" "\<not> suspended s"
    and q: "is_queued s 2" "revoke_deadline s = None"
    by (simp add: waiting_seat_eq is_queued_def)
  have seat: "is_input ?r" "holds_display (slots waiting_seat) 2" "\<not> holds_display (slots waiting_seat) 1"
    by (simp_all add: waiting_seat_eq holds_display_def)
  from waiting_seat_not_served [OF engine_reach.reach_inv [OF waiting_seat_reach, simplified] s seat q, of "\<lambda>_ _. True" 10]
    seat waiting_seat_reach show ?thesis by simp
qed

text \<open>A client with no display never preempts and never queues for an input: its Acquire is
  granted when the device is present and free, and otherwise denied with nothing changed and
  nothing sent.\<close>

theorem displayless_input_acquire:
  assumes "is_input r" "\<not> holds_display (slots e) c"
  shows "(\<exists>s. map_of (slots e) r = Some s \<and> owner s = None \<and> \<not> suspended s \<and>
      acquire_one ok now c r e = (OutcomeGranted, put_slot r (s\<lparr>owner := Some c\<rparr>) e, [])) \<or>
    ((owner_of e r \<noteq> None \<or> (\<forall>s. map_of (slots e) r = Some s \<longrightarrow> suspended s)) \<and>
      (\<exists>why. acquire_one ok now c r e = (OutcomeDenied why, e, [])))"
proof (cases "map_of (slots e) r")
  case None
  then show ?thesis by (simp add: acquire_one_unregistered)
next
  case (Some s)
  then show ?thesis
    using acquire_one_registered [OF Some, of ok now c] assms
    by (cases "owner s"; cases "suspended s") (auto simp: owner_of_slot)
qed

theorem displayless_input_acquire_witness:
  "\<exists>why. acquire_one (\<lambda>_ _. True) 3 3 (Input (Mouse 0)) seat_state = (OutcomeDenied why, seat_state, [])"
  using displayless_input_acquire [of "Input (Mouse 0)" seat_state 3 "\<lambda>_ _. True" 3]
  by (auto simp: seat_state_eq holds_display_def)

section \<open>Leaving the seat\<close>

lemma release_seat_inputs_revokes:
  assumes "distinct (map fst (slots e))" "is_input r" "map_of (slots e) r = Some s" "owner s = Some c"
    and "map_of (control_reg e) c = Some ch" "ok ch (CtlRevoke r)"
  shows "map_of (slots (fst (release_seat_inputs ok now c e))) r = Some (rearmed now s) \<and>
    (ch, CtlRevoke r) \<in> set (snd (release_seat_inputs ok now c e))"
proof -
  have held: "r \<in> set (held_inputs c e)" and "\<forall>q\<in>set (held_inputs c e). map_of (slots e) q \<noteq> None"
    using assms by (auto simp: held_inputs_iff)
  then have "snd (release_seat_inputs ok now c e) =
      concat (map (\<lambda>q. send ok ch (CtlRevoke q)) (held_inputs c e))"
    using revoke_held_out assms(5) by (simp add: release_seat_inputs_def)
  with held assms release_seat_inputs_lookup [OF assms(1), of ok now c r] show ?thesis
    by (auto simp: send_def)
qed

lemma release_all_seats_revokes:
  assumes "distinct (map fst (slots e))" "is_input r" "map_of (slots e) r = Some s" "owner s = Some c"
    and "map_of (control_reg e) c = Some ch" "ok ch (CtlRevoke r)" "c \<in> set cs"
  shows "(ch, CtlRevoke r) \<in> set (snd (release_all_seats ok now cs e))"
  using assms
proof (induction cs arbitrary: e s)
  case (Cons c' cs)
  let ?e1 = "fst (release_seat_inputs ok now c' e)"
  show ?case
  proof (cases "c' = c")
    case True
    with Cons.prems release_seat_inputs_revokes [of e r s c ch ok now] show ?thesis
      by (simp add: Let_def case_prod_beta)
  next
    case False
    have "distinct (map fst (slots ?e1))" "map_of (slots ?e1) r = Some s"
      using Cons.prems False release_seat_inputs_lookup [OF Cons.prems(1), of ok now c' r] by simp_all
    from Cons.IH [OF this(1) Cons.prems(2) this(2)] Cons.prems False show ?thesis
      by (simp add: Let_def case_prod_beta)
  qed
qed simp

text \<open>Whoever gives up a display is asked for its devices: when the owner of a display releases
  it, every input the client holds has its revoke deadline armed and a Revoke for it is sent.\<close>

theorem leaving_seat_revokes_inputs:
  assumes inv: "engine_inv e" and disp: "is_display d" "owner_of e d = Some c"
    and s: "is_input r" "map_of (slots e) r = Some s" "owner s = Some c"
    and ch: "map_of (control_reg e) c = Some ch" "ok ch (CtlRevoke r)"
  shows "map_of (slots (fst (handle_release_cmd ok now c d e))) r = Some (rearmed now s) \<and>
    (ch, CtlRevoke r) \<in> set (snd (handle_release_cmd ok now c d e))"
proof -
  let ?e1 = "fst (release_one ok c d e)"
  have "r \<noteq> d" using disp(1) s(1) by (cases d) auto
  then have "map_of (slots ?e1) r = Some s" using s by simp
  moreover have "distinct (map fst (slots ?e1))" using inv by (simp add: engine_invD)
  moreover have "Option.bind (map_of (slots e) d) owner = Some c" using disp(2) by (simp add: owner_of_def)
  ultimately show ?thesis
    using release_seat_inputs_revokes [of ?e1 r s c ch ok now] disp s ch
    by (simp add: handle_release_cmd_def Let_def case_prod_beta)
qed

definition seated_state :: engine where
  "seated_state = fst (snd (run_commands (\<lambda>_ _. True)
     [(3, CmdAcquire 1 (Input (Mouse 0))), (4, CmdRelease 2 (Input (Mouse 0)))] seat_state))"

lemma seated_state_eq:
  "seated_state =
     \<lparr>slots = [(Fbdev, \<lparr>slot_policy = FairQueue, owner = Some 1, waiters = [], revoke_deadline = None, suspended = False\<rparr>),
        (Input (Mouse 0), \<lparr>slot_policy = FirstOwner, owner = Some 1, waiters = [], revoke_deadline = None, suspended = False\<rparr>)],
      control_reg = [(1, 101), (2, 102)]\<rparr>"
  unfolding seated_state_def by code_simp

lemma seated_state_reach: "reach engine_start engine_step \<lparr>eng = seated_state, clock = 4\<rparr>"
  using run_commands_reach [OF seat_state_reach, of "\<lambda>_ _. True"
      "[(3, CmdAcquire 1 (Input (Mouse 0))), (4, CmdRelease 2 (Input (Mouse 0)))]"]
  by (simp add: seated_state_def seat_state_eq)

theorem leaving_seat_revokes_inputs_witness:
  "(101, CtlRevoke (Input (Mouse 0))) \<in> set (snd (handle_release_cmd (\<lambda>_ _. True) 5 1 Fbdev seated_state))"
proof -
  obtain s where s: "map_of (slots seated_state) (Input (Mouse 0)) = Some s" "owner s = Some 1"
    by (simp add: seated_state_eq)
  have "is_display Fbdev" "owner_of seated_state Fbdev = Some 1" "is_input (Input (Mouse 0))"
    "map_of (control_reg seated_state) 1 = Some 101"
    by (simp_all add: seated_state_eq owner_of_def)
  from leaving_seat_revokes_inputs [OF engine_reach.reach_inv [OF seated_state_reach, simplified] this(1-3) s this(4), of "\<lambda>_ _. True" 5]
  show ?thesis by simp
qed

text \<open>The same holds for a client that is put out: when the timer takes a display from a silent
  owner, every input it still holds, unless its own deadline has passed too, has a new deadline and
  a Revoke for it is sent.\<close>

theorem evicted_seat_revokes_inputs:
  assumes inv: "engine_inv e" and disp: "is_display d" "map_of (slots e) d = Some sd" "owner sd = Some c" "expired now sd"
    and s: "is_input r" "map_of (slots e) r = Some s" "owner s = Some c" "\<not> expired now s"
    and ch: "map_of (control_reg e) c = Some ch" "ok ch (CtlRevoke r)"
  shows "map_of (slots (fst (handle_timeout ok now e))) r = Some (rearmed now s) \<and>
    (ch, CtlRevoke r) \<in> set (snd (handle_timeout ok now e))"
proof -
  let ?e1 = "fst (each_slot (reclaim_slot ok (control_reg e) now) e)"
  have dist: "distinct (map fst (slots ?e1))"
    using inv by (simp add: each_slot_def engine_invD)
  moreover have look: "map_of (slots ?e1) r = Some s"
    using s by (simp add: reclaim_slot_live)
  moreover have "c \<in> set (expired_seats now e)"
    using disp map_of_SomeD [OF disp(2)] by (force simp: expired_seats_def map_filter_def)
  ultimately show ?thesis
    using release_all_seats_revokes [of ?e1 r s c ch ok "expired_seats now e" now]
      release_all_seats_lookup [OF dist, of ok now "expired_seats now e" r] s ch
    by (auto simp: handle_timeout_def Let_def case_prod_beta)
qed

theorem evicted_seat_revokes_inputs_witness:
  "(101, CtlRevoke (Input (Mouse 0))) \<in>
    set (snd (handle_timeout (\<lambda>_ _. True) 5005
      (fst (snd (handle_command (\<lambda>_ _. True) 5 (CmdAcquire 2 Fbdev) seated_state)))))"
proof -
  let ?e = "fst (snd (handle_command (\<lambda>_ _. True) 5 (CmdAcquire 2 Fbdev) seated_state))"
  have "admissible seated_state (CmdAcquire 2 Fbdev)"
    by (simp add: seated_state_eq)
  then have inv: "engine_inv ?e"
    by (rule handle_command_inv [OF engine_reach.reach_inv [OF seated_state_reach, simplified]])
  have eq: "?e = \<lparr>slots = [(Fbdev, \<lparr>slot_policy = FairQueue, owner = Some 1,
        waiters = [\<lparr>wclient = 2, seat_claim = False\<rparr>], revoke_deadline = Some 5005, suspended = False\<rparr>),
      (Input (Mouse 0), \<lparr>slot_policy = FirstOwner, owner = Some 1, waiters = [], revoke_deadline = None, suspended = False\<rparr>)],
      control_reg = [(1, 101), (2, 102)]\<rparr>"
    unfolding seated_state_eq by code_simp
  from evicted_seat_revokes_inputs [OF inv [unfolded eq], of Fbdev _ 1 5005 "Input (Mouse 0)" _ 101 "\<lambda>_ _. True"]
  show ?thesis
    unfolding eq by (simp add: expired_def)
qed

section \<open>A device that goes away while a client waits for it\<close>





end
