(* ===== verification/Engine_Arbiter.thy ===== *)
theory Engine_Arbiter
  imports Engine_Seat
begin

text \<open>
  The contract of a slot, without its queue representation: a holder and a line of clients.  Freeing
  the slot serves the first client of the line that can be reached; a client that is preempted and
  answers goes to the end of the line.  The slot operations refine this contract, and what it means
  for the clients in the line is proved once, in the locales.
\<close>

section \<open>The abstract arbiter\<close>

fun arb_next :: "('c \<Rightarrow> bool) \<Rightarrow> 'c list \<Rightarrow> 'c option \<times> 'c list" where
  "arb_next reachable [] = (None, [])"
| "arb_next reachable (c # cs) = (if reachable c then (Some c, cs) else arb_next reachable cs)"

lemma arb_next_filter:
  "case filter reachable cs of
     [] \<Rightarrow> arb_next reachable cs = (None, [])
   | c # fs \<Rightarrow> \<exists>cs'. arb_next reachable cs = (Some c, cs') \<and> filter reachable cs' = fs"
  by (induction cs) (auto split: list.splits)

lemma arb_next_dropWhile:
  "arb_next reachable cs =
    (case dropWhile (\<lambda>c. \<not> reachable c) cs of [] \<Rightarrow> (None, []) | c # cs' \<Rightarrow> (Some c, cs'))"
  by (induction cs) simp_all

locale turn_taking =
  fixes reachable :: "'c \<Rightarrow> bool"
    and holder :: "'s \<Rightarrow> 'c option"
    and line :: "'s \<Rightarrow> 'c list"
    and free :: "'s \<Rightarrow> 's"
  assumes free_refines: "(holder (free s), line (free s)) = arb_next reachable (line s)"
begin

abbreviation live :: "'s \<Rightarrow> 'c list" where
  "live s \<equiv> filter reachable (line s)"

lemma free_live: "holder (free s) = (case live s of [] \<Rightarrow> None | c # _ \<Rightarrow> Some c) \<and> live (free s) = tl (live s)"
  using free_refines [of s] arb_next_filter [of reachable "line s"]
  by (auto split: list.splits)

text \<open>The clients of the line that can be reached hold the resource one after the other.\<close>

lemma turns:
  "holder ((free ^^ Suc n) s) = (if n < length (live s) then Some (live s ! n) else None)"
proof (induction n arbitrary: s)
  case 0
  then show ?case
    using free_live [of s] by (cases "live s") auto
next
  case (Suc n)
  have "holder ((free ^^ Suc (Suc n)) s) = holder ((free ^^ Suc n) (free s))"
    by (simp add: funpow_swap1)
  with Suc [of "free s"] free_live [of s] show ?case
    by (cases "live s") (auto simp del: funpow.simps)
qed

end

locale turn_taking_again = turn_taking reachable holder line free
  for reachable :: "'c \<Rightarrow> bool" and holder :: "'s \<Rightarrow> 'c option" and line :: "'s \<Rightarrow> 'c list"
    and free :: "'s \<Rightarrow> 's" +
  fixes preempted :: "'s \<Rightarrow> bool"
    and yields :: "'c \<Rightarrow> 's \<Rightarrow> 's"
  assumes yields_refines:
    "preempted s \<Longrightarrow> (holder (yields c s), line (yields c s)) = arb_next reachable (line s @ [c])"
begin

text \<open>A client that yields is served again after everybody it made wait, and only then.\<close>

lemma yields_turns:
  assumes "preempted s" "reachable c" "live s \<noteq> []" "n \<le> length (live s)"
  shows "holder ((free ^^ n) (yields c s)) = Some ((live s @ [c]) ! n)"
proof -
  obtain w ws where "live s = w # ws" using assms(3) by (cases "live s") auto
  then have "filter reachable (line s @ [c]) = w # ws @ [c]" using assms(2) by simp
  then have y: "holder (yields c s) = Some w \<and> live (yields c s) = ws @ [c]"
    using yields_refines [OF assms(1), of c] arb_next_filter [of reachable "line s @ [c]"]
    by (auto split: list.splits)
  show ?thesis
  proof (cases n)
    case 0
    with y \<open>live s = w # ws\<close> show ?thesis by simp
  next
    case (Suc k)
    with y assms(4) \<open>live s = w # ws\<close> turns [of k "yields c s"] show ?thesis
      by simp
  qed
qed

end

section \<open>Slots refine it\<close>

abbreviation slot_line :: "slot \<Rightarrow> client_id list" where
  "slot_line s \<equiv> map wclient (service_order s)"

definition reachable :: "send_ok \<Rightarrow> registry \<Rightarrow> resource \<Rightarrow> client_id \<Rightarrow> bool" where
  "reachable ok reg r c = (case map_of reg c of None \<Rightarrow> False | Some ch \<Rightarrow> ok ch (CtlGrant r))"

lemma deliverable_reachable: "deliverable ok reg r = reachable ok reg r \<circ> wclient"
  by (simp add: fun_eq_iff deliverable_def reachable_def)

lemma dropWhile_map_wclient:
  "dropWhile (\<lambda>c. \<not> P c) (map f xs) = map f (dropWhile (\<lambda>x. \<not> (P \<circ> f) x) xs)"
  by (induction xs) simp_all

lemma grant_next_refines:
  assumes "owner s = None"
  shows "(owner (fst (grant_next ok reg r s)), slot_line (fst (grant_next ok reg r s))) =
    arb_next (reachable ok reg r) (slot_line s)"
  using grant_next_handed_over [of ok reg r s] assms
  by (auto simp: handed_over_def arb_next_dropWhile dropWhile_map_wclient deliverable_reachable
      split: list.splits)

lemma service_order_requeue:
  assumes "p = slot_policy s" "p \<noteq> FirstOwner"
  shows "service_order (s\<lparr>waiters := requeue_waiter p (waiters s) \<lparr>wclient = c, seat_claim = False\<rparr>\<rparr>) =
    service_order s @ [\<lparr>wclient = c, seat_claim = False\<rparr>]"
  using assms by (cases p) (simp_all add: service_order_def)

lemma service_order_no_waiters: "waiters s = [] \<Longrightarrow> service_order (s\<lparr>waiters := []\<rparr>) = service_order s"
  by (simp add: service_order_def)

definition preempted_slot :: "slot \<Rightarrow> bool" where
  "preempted_slot s \<longleftrightarrow> revoke_deadline s \<noteq> None \<and> waiters s \<noteq> [] \<and> slot_policy s \<noteq> FirstOwner"

lemma release_slot_line:
  "(owner (fst (release_slot ok reg c r s)), slot_line (fst (release_slot ok reg c r s))) =
    arb_next (reachable ok reg r) (slot_line s @ (if preempted_slot s then [c] else []))"
proof -
  let ?ws = "if revoke_deadline s \<noteq> None \<and> waiters s \<noteq> []
    then requeue_waiter (slot_policy s) (waiters s) \<lparr>wclient = c, seat_claim = False\<rparr> else waiters s"
  have "map wclient (service_order (s\<lparr>waiters := ?ws\<rparr>)) =
      slot_line s @ (if preempted_slot s then [c] else [])"
    by (cases "slot_policy s = FirstOwner")
      (simp_all add: preempted_slot_def service_order_requeue service_order_no_waiters)
  then show ?thesis
    using grant_next_refines [of "s\<lparr>waiters := ?ws, owner := None, revoke_deadline := None\<rparr>" ok reg r]
    by (simp add: release_slot_eq)
qed

lemma force_reclaim_line:
  "(owner (fst (force_reclaim ok reg r s)), slot_line (fst (force_reclaim ok reg r s))) =
    arb_next (reachable ok reg r) (slot_line s)"
  using grant_next_refines [of "s\<lparr>owner := None, revoke_deadline := None\<rparr>" ok reg r]
  by (simp add: force_reclaim_def)

lemma service_order_drop_client:
  "service_order (s\<lparr>waiters := filter P (waiters s)\<rparr>) = filter P (service_order s)"
  by (simp add: service_order_def policy_order_filter [symmetric] conj_commute)

lemma disconnect_slot_line:
  "(owner (fst (disconnect_slot ok reg c r s)), slot_line (fst (disconnect_slot ok reg c r s))) =
    (let cs = filter (\<lambda>c'. c' \<noteq> c) (slot_line s)
     in if owner s = Some c then arb_next (reachable ok reg r) cs else (owner s, cs))"
proof -
  let ?s = "s\<lparr>waiters := filter (\<lambda>w. wclient w \<noteq> c) (waiters s), owner := None, revoke_deadline := None\<rparr>"
  have "slot_line ?s = filter (\<lambda>c'. c' \<noteq> c) (slot_line s)"
    by (simp add: service_order_drop_client filter_map comp_def)
  with grant_next_refines [of ?s ok reg r] show ?thesis
    by (auto simp: disconnect_slot_def Let_def service_order_drop_client filter_map comp_def)
qed

interpretation slot_turns: turn_taking_again "reachable ok reg r" owner slot_line
  "\<lambda>s. fst (force_reclaim ok reg r s)" preempted_slot "\<lambda>c s. fst (release_slot ok reg c r s)" for ok reg r
  by unfold_locales (simp_all only: force_reclaim_line release_slot_line if_True)

text \<open>C10. The slot refines the abstract arbiter: on every slot, releasing, force-reclaiming and
  disconnecting do to the holder and the line exactly what the arbiter does to them, and an owner
  that answers a revoke while others wait goes to the end of the line (under the two preemptive
  policies).\<close>

theorem slot_refines_arbiter:
  "(owner (fst (release_slot ok reg c r s)), slot_line (fst (release_slot ok reg c r s))) =
     arb_next (reachable ok reg r) (slot_line s @ (if preempted_slot s then [c] else [])) \<and>
   (owner (fst (force_reclaim ok reg r s)), slot_line (fst (force_reclaim ok reg r s))) =
     arb_next (reachable ok reg r) (slot_line s) \<and>
   (owner (fst (disconnect_slot ok reg c r s)), slot_line (fst (disconnect_slot ok reg c r s))) =
     (let cs = filter (\<lambda>c'. c' \<noteq> c) (slot_line s)
      in if owner s = Some c then arb_next (reachable ok reg r) cs else (owner s, cs))"
  by (intro conjI release_slot_line force_reclaim_line disconnect_slot_line)

text \<open>C11. Nobody in the line is passed over: with successive force-reclaims the slot is held by the
  clients of its line that can be reached, each once, in service order, and then by nobody.\<close>

theorem line_is_served_in_order:
  "owner (((\<lambda>s. fst (force_reclaim ok reg r s)) ^^ Suc n) s) =
    (let live = filter (reachable ok reg r) (slot_line s)
     in if n < length live then Some (live ! n) else None)"
  unfolding Let_def by (rule slot_turns.turns)

text \<open>A preempted owner that answers gets one more turn, after everybody it made wait: the
  clients that were waiting are served first, in service order, and the former owner right after.\<close>

theorem preempted_owner_served_last:
  assumes "preempted_slot s" "reachable ok reg r c"
    and "n \<le> length (filter (reachable ok reg r) (slot_line s))"
    and "filter (reachable ok reg r) (slot_line s) \<noteq> []"
  shows "owner (((\<lambda>s. fst (force_reclaim ok reg r s)) ^^ n) (fst (release_slot ok reg c r s))) =
    Some ((filter (reachable ok reg r) (slot_line s) @ [c]) ! n)"
  by (rule slot_turns.yields_turns [OF assms(1,2,4,3)])

theorem preempted_owner_served_last_witness:
  "\<exists>s. map_of (slots demo_state) Fbdev = Some s \<and>
    owner (fst (force_reclaim (\<lambda>_ _. True) (control_reg demo_state) Fbdev
      (fst (release_slot (\<lambda>_ _. True) (control_reg demo_state) 1 Fbdev s)))) = Some 1"
proof -
  let ?reg = "control_reg demo_state"
  obtain s where s: "map_of (slots demo_state) Fbdev = Some s" "preempted_slot s"
    "filter (reachable (\<lambda>_ _. True) ?reg Fbdev) (slot_line s) = [2]" "reachable (\<lambda>_ _. True) ?reg Fbdev 1"
    by (simp add: demo_state_eq preempted_slot_def reachable_def service_order_def)
  from preempted_owner_served_last [OF s(2,4), of 1] s show ?thesis by auto
qed

section \<open>Where a newcomer queues\<close>

lemma display_line:
  assumes "slot_inv reg r s" "is_display r"
  shows "service_order s = policy_order (slot_policy s) (waiters s)"
proof -
  have "\<not> is_input r" using assms(2) by (cases r) simp_all
  with assms(1) show ?thesis
    by (intro service_order_no_claims) (auto simp: slot_inv_def filter_empty_conv)
qed

text \<open>On a display, a client whose Acquire is queued does not cut the line under fair-queue (it
  goes to the end) and takes its head under latest-owner; the line of the others is unchanged, the
  display stays with its owner until it is freed, and an Acquire that is repeated changes nothing.\<close>

theorem newcomer_position:
  assumes inv: "engine_inv e" and s: "map_of (slots e) r = Some s" and r: "is_display r"
    and c: "map_of (control_reg e) c \<noteq> None" and q: "acquire_one ok now c r e = (OutcomeQueued, e', out)"
  shows "owner_of e' r = owner s \<and> (\<exists>s'. map_of (slots e') r = Some s' \<and>
    slot_line s' = (if c \<in> set (slot_line s) then slot_line s
      else if slot_policy s = FairQueue then slot_line s @ [c] else c # slot_line s))"
proof -
  have inv': "engine_inv e'"
    using acquire_one_inv [OF inv, of c ok now r] c q by auto
  have "\<not> is_input r" using r by (cases r) simp_all
  then have steal: "\<not> seat_steals e c r s" by (simp add: seat_steals_def)
  with q s acquire_one_registered [OF s, of ok now c]
  have held: "owner s \<noteq> None" "slot_policy s \<noteq> FirstOwner" and qw: "queue_waiter ok now c r False s e = (OutcomeQueued, e', out)"
    by (auto split: if_splits option.splits)
  have line: "slot_line s = policy_order (slot_policy s) (map wclient (waiters s))"
    using display_line [OF engine_invD(3) [OF inv s] r] by (cases "slot_policy s") (simp_all add: rev_map)
  have dup: "is_queued s c \<longleftrightarrow> c \<in> set (slot_line s)"
    unfolding line using held(2) by (cases "slot_policy s") (auto simp: is_queued_def list_ex_iff)
  show ?thesis
  proof (cases "is_queued s c")
    case True
    with qw s dup show ?thesis by (simp add: queue_waiter_def owner_of_slot)
  next
    case False
    with held qw obtain s' where s': "map_of (slots e') r = Some s'" "owner s' = owner s"
        "waiters s' = waiters s @ [\<lparr>wclient = c, seat_claim = False\<rparr>]" "slot_policy s' = slot_policy s"
      by (cases rule: queue_waiter_cases [OF inv s held(1), of c ok now False]) auto
    then have "slot_line s' = policy_order (slot_policy s) (map wclient (waiters s) @ [c])"
      using display_line [OF engine_invD(3) [OF inv' s'(1)] r] by (cases "slot_policy s") (simp_all add: rev_map)
    with s' False dup line held(2) show ?thesis
      by (cases "slot_policy s") (auto simp: owner_of_slot)
  qed
qed

theorem newcomer_position_witness:
  "\<exists>s'. map_of (slots (fst (snd (acquire_one (\<lambda>_ _. True) 3 2 Fbdev demo_state)))) Fbdev = Some s' \<and>
    slot_line s' = [2]"
proof -
  obtain s where s: "map_of (slots demo_state) Fbdev = Some s" "slot_line s = [2]"
    by (simp add: demo_state_eq service_order_def)
  have "is_display Fbdev" "map_of (control_reg demo_state) 2 \<noteq> None" by (simp_all add: demo_state_eq)
  moreover have "acquire_one (\<lambda>_ _. True) 3 2 Fbdev demo_state = (OutcomeQueued, demo_state, [])"
    unfolding demo_state_eq by code_simp
  ultimately show ?thesis
    using newcomer_position [OF engine_reach.reach_inv [OF demo_reach, simplified] s(1), of 2 "\<lambda>_ _. True" 3] s(2)
    by simp
qed

end
