(* ===== verification/Engine_Runs.thy ===== *)
theory Engine_Runs
  imports Engine_Arbiter
begin

text \<open>
  The engine against its documentation (\<open>docs/policy-engine.md\<close>): the step-by-step tables of the
  three policies as runs of the model, and two places where the code and the text part.
\<close>

section \<open>The documented runs\<close>

text \<open>The owner and the queue of a resource after each command of a run.\<close>

fun trace_slot ::
  "send_ok \<Rightarrow> resource \<Rightarrow> (instant \<times> engine_command) list \<Rightarrow> engine \<Rightarrow>
    (client_id option \<times> client_id list) list" where
  "trace_slot ok r [] e = []"
| "trace_slot ok r ((now, cmd) # cmds) e =
     (let e' = fst (snd (handle_command ok now cmd e))
      in (owner_of e' r, (case map_of (slots e') r of None \<Rightarrow> [] | Some s \<Rightarrow> map wclient (waiters s))) #
         trace_slot ok r cmds e')"

text \<open>Clients A, B, C and D are 1 to 4; all four are registered.\<close>

definition four_clients :: "policy \<Rightarrow> engine" where
  "four_clients p =
     \<lparr>slots = [(Fbdev, new_slot p)], control_reg = [(1, 101), (2, 102), (3, 103), (4, 104)]\<rparr>"

definition acq :: "client_id \<Rightarrow> instant \<times> engine_command" where
  "acq c = (0, CmdAcquire c Fbdev)"

definition rel :: "client_id \<Rightarrow> instant \<times> engine_command" where
  "rel c = (0, CmdRelease c Fbdev)"

text \<open>The three tables of the documentation are runs of the engine: owner and queue (front to
  back) after every row are as documented, for first-owner, latest-owner and fair-queue.\<close>

theorem documented_runs:
  "trace_slot (\<lambda>_ _. True) Fbdev [acq 1, acq 2, acq 4, acq 3, rel 1, acq 2] (four_clients FirstOwner) =
     [(Some 1, []), (Some 1, []), (Some 1, []), (Some 1, []), (None, []), (Some 2, [])] \<and>
   trace_slot (\<lambda>_ _. True) Fbdev
     [acq 1, acq 4, rel 1, acq 3, rel 4, acq 2, rel 3, rel 2, rel 1, rel 4] (four_clients LatestOwner) =
     [(Some 1, []), (Some 1, [4]), (Some 4, [1]), (Some 4, [1, 3]), (Some 3, [4, 1]), (Some 3, [4, 1, 2]),
      (Some 2, [3, 4, 1]), (Some 1, [3, 4]), (Some 4, [3]), (Some 3, [])] \<and>
   trace_slot (\<lambda>_ _. True) Fbdev
     [acq 1, acq 4, rel 1, acq 3, rel 4, acq 2, rel 1, rel 3, rel 4, rel 2] (four_clients FairQueue) =
     [(Some 1, []), (Some 1, [4]), (Some 4, [1]), (Some 4, [1, 3]), (Some 1, [3, 4]), (Some 1, [3, 4, 2]),
      (Some 3, [4, 2, 1]), (Some 4, [2, 1]), (Some 2, [1]), (Some 1, [])]"
proof (intro conjI)
  show "trace_slot (\<lambda>_ _. True) Fbdev [acq 1, acq 2, acq 4, acq 3, rel 1, acq 2] (four_clients FirstOwner) =
     [(Some 1, []), (Some 1, []), (Some 1, []), (Some 1, []), (None, []), (Some 2, [])]"
    by code_simp
  show "trace_slot (\<lambda>_ _. True) Fbdev
     [acq 1, acq 4, rel 1, acq 3, rel 4, acq 2, rel 3, rel 2, rel 1, rel 4] (four_clients LatestOwner) =
     [(Some 1, []), (Some 1, [4]), (Some 4, [1]), (Some 4, [1, 3]), (Some 3, [4, 1]), (Some 3, [4, 1, 2]),
      (Some 2, [3, 4, 1]), (Some 1, [3, 4]), (Some 4, [3]), (Some 3, [])]"
    by code_simp
  show "trace_slot (\<lambda>_ _. True) Fbdev
     [acq 1, acq 4, rel 1, acq 3, rel 4, acq 2, rel 1, rel 3, rel 4, rel 2] (four_clients FairQueue) =
     [(Some 1, []), (Some 1, [4]), (Some 4, [1]), (Some 4, [1, 3]), (Some 1, [3, 4]), (Some 1, [3, 4, 2]),
      (Some 3, [4, 2, 1]), (Some 4, [2, 1]), (Some 2, [1]), (Some 1, [])]"
    by code_simp
qed

section \<open>Where the code and the text part\<close>

text \<open>C35. A resource whose device is away can still change hands: when its holder releases it while
  somebody waits, the first waiter that can be reached becomes the owner and is sent a Grant,
  although the slot is still suspended.\<close>

theorem release_while_away_grants:
  assumes "map_of (slots e) r = Some s" "suspended s" "owner s = Some c" "revoke_deadline s = None"
    and "next_owner ok (control_reg e) r s = Some c'"
  shows "\<exists>s' ch. map_of (slots (fst (release_one ok c r e))) r = Some s' \<and> suspended s' \<and>
    owner s' = Some c' \<and> map_of (control_reg e) c' = Some ch \<and>
    (ch, CtlGrant r) \<in> set (snd (release_one ok c r e))"
proof -
  let ?s0 = "s\<lparr>owner := None, revoke_deadline := None\<rparr>"
  have eq: "release_slot ok (control_reg e) c r s = grant_next ok (control_reg e) r ?s0"
    using assms(4) by (simp add: release_slot_def)
  have own: "owner (fst (grant_next ok (control_reg e) r ?s0)) = Some c'"
    using handed_over_next_owner [OF grant_next_handed_over] assms(5) by simp
  with grant_next_gained [of ?s0 ok "control_reg e" r c'] obtain ch where
    "map_of (control_reg e) c' = Some ch" "snd (grant_next ok (control_reg e) r ?s0) = [(ch, CtlGrant r)]"
    by auto
  with own assms eq show ?thesis
    by (simp add: release_one_owner)
qed

theorem release_while_away_grants_witness:
  "\<exists>s'. map_of (slots (fst (release_one (\<lambda>_ _. True) 1 Fbdev (handle_suspend Fbdev demo_state)))) Fbdev = Some s' \<and>
    suspended s' \<and> owner s' = Some 2"
proof -
  obtain s where s: "map_of (slots (handle_suspend Fbdev demo_state)) Fbdev = Some s" "suspended s"
    "owner s = Some 1" "revoke_deadline s = None"
    "next_owner (\<lambda>_ _. True) (control_reg (handle_suspend Fbdev demo_state)) Fbdev s = Some 2"
    by (simp add: demo_state_eq handle_suspend_def next_owner_def service_order_def deliverable_def)
  from release_while_away_grants [OF s] show ?thesis by auto
qed

text \<open>A client with no display can end up in the queue of an input: when the seat takes a device
  under a preemptive policy, the holder that answers the revoke is queued for the device, and a
  spontaneous Release by the seat hands the device back to it.\<close>

theorem displaced_holder_queues:
  assumes s: "slot_policy s \<noteq> FirstOwner" "revoke_deadline s \<noteq> None" "waiters s = [w]" "seat_claim w"
    and reach: "reachable ok reg r (wclient w)" "reachable ok reg r c"
  shows "owner (fst (release_slot ok reg c r s)) = Some (wclient w) \<and>
    slot_line (fst (release_slot ok reg c r s)) = [c] \<and>
    owner (fst (release_slot ok reg (wclient w) r (fst (release_slot ok reg c r s)))) = Some c"
proof -
  have pre: "preempted_slot s" and line: "slot_line s = [wclient w]"
    using s by (cases "slot_policy s"; simp add: preempted_slot_def service_order_def)+
  let ?s1 = "fst (release_slot ok reg c r s)"
  from release_slot_line [of ok reg c r s] pre line reach
  have s1: "owner ?s1 = Some (wclient w)" "slot_line ?s1 = [c]" by simp_all
  have "revoke_deadline ?s1 = None"
    by (simp add: release_slot_eq)
  then have "\<not> preempted_slot ?s1" by (simp add: preempted_slot_def)
  with release_slot_line [of ok reg "wclient w" r ?s1] s1 reach show ?thesis by simp
qed

theorem displaced_holder_queues_witness:
  "slot_line (fst (release_slot (\<lambda>_ _. True) [(1, 101), (2, 102)] 2 (Input (Mouse 0))
     \<lparr>slot_policy = FairQueue, owner = Some 2, waiters = [\<lparr>wclient = 1, seat_claim = True\<rparr>],
       revoke_deadline = Some 5003, suspended = False\<rparr>)) = [2]"
  using displaced_holder_queues [of
      "\<lparr>slot_policy = FairQueue, owner = Some 2, waiters = [\<lparr>wclient = 1, seat_claim = True\<rparr>],
        revoke_deadline = Some 5003, suspended = False\<rparr>" "\<lparr>wclient = 1, seat_claim = True\<rparr>"
      "\<lambda>_ _. True" "[(1, 101), (2, 102)]" "Input (Mouse 0)" 2]
  by (simp add: reachable_def)

end
