(* ===== verification/Rust_Numbers.thy ===== *)
theory Rust_Numbers
  imports Sgc_Types "HOL-Library.Char_ord"
begin

text \<open>
  What the daemon uses of Rust's number formatting: \<open>{}\<close> of a \<open>u8\<close>, and \<open>str::parse::<u8>\<close>
  (a leading plus sign is accepted, anything else than decimal digits or a value above 255 is an
  error), with the round trip between them.
\<close>

definition digit_char :: "nat \<Rightarrow> char" where
  "digit_char n = char_of (48 + n)"

definition char_digit :: "char \<Rightarrow> nat option" where
  "char_digit c = (let n = of_char c :: nat in if 48 \<le> n \<and> n \<le> 57 then Some (n - 48) else None)"

lemma char_digit_digit_char [simp]: "n < 10 \<Longrightarrow> char_digit (digit_char n) = Some n"
  by (simp add: char_digit_def digit_char_def)

fun show_nat :: "nat \<Rightarrow> string" where
  "show_nat n = (if n < 10 then [digit_char n] else show_nat (n div 10) @ [digit_char (n mod 10)])"

declare show_nat.simps [simp del]

definition show_u8 :: "u8 \<Rightarrow> string" where
  "show_u8 i = show_nat (unat i)"

fun parse_digits :: "nat \<Rightarrow> nat \<Rightarrow> string \<Rightarrow> nat option" where
  "parse_digits bound acc [] = Some acc"
| "parse_digits bound acc (c # cs) =
     (case char_digit c of
        None \<Rightarrow> None
      | Some d \<Rightarrow> if bound < acc * 10 + d then None else parse_digits bound (acc * 10 + d) cs)"

definition parse_u8 :: "string \<Rightarrow> u8 option" where
  "parse_u8 s =
     (let digits = (case s of c # c' # cs \<Rightarrow> if c = CHR ''+'' then c' # cs else s | _ \<Rightarrow> s)
      in if digits = [] then None else map_option of_nat (parse_digits 255 0 digits))"

lemma parse_digits_snoc:
  "parse_digits b acc (xs @ [c]) = Option.bind (parse_digits b acc xs) (\<lambda>v. parse_digits b v [c])"
  by (induction b acc xs rule: parse_digits.induct) (auto split: option.splits)

lemma parse_show_nat: "n \<le> b \<Longrightarrow> parse_digits b 0 (show_nat n) = Some n"
proof (induction n rule: show_nat.induct)
  case (1 n)
  show ?case
  proof (cases "n < 10")
    case True
    with 1 show ?thesis by (simp add: show_nat.simps)
  next
    case False
    with 1 have "parse_digits b 0 (show_nat (n div 10)) = Some (n div 10)" by simp
    with False 1(2) show ?thesis
      by (subst show_nat.simps) (simp add: parse_digits_snoc)
  qed
qed

lemma show_nat_no_plus: "show_nat n \<noteq> [] \<and> CHR ''+'' \<notin> set (show_nat n)"
proof (induction n rule: show_nat.induct)
  case (1 n)
  have "digit_char k \<noteq> CHR ''+''" if "k < 10" for k
    using char_digit_digit_char [OF that] by (auto simp: char_digit_def)
  from this [of n] this [of "n mod 10"] 1 show ?case
    by (subst (1 2) show_nat.simps) auto
qed

lemma parse_show_u8 [simp]: "parse_u8 (show_u8 i) = Some i"
proof -
  have "unat i < 2 ^ LENGTH(8)" by (rule unsigned_less)
  then have "unat i \<le> 255" by simp
  moreover have "(case show_nat n of c # c' # cs \<Rightarrow> if c = CHR ''+'' then c' # cs else show_nat n
      | _ \<Rightarrow> show_nat n) = show_nat n" for n
    using show_nat_no_plus [of n] by (auto split: list.splits)
  ultimately show ?thesis
    using show_nat_no_plus [of "unat i"]
    by (simp add: parse_u8_def show_u8_def parse_show_nat)
qed

lemma show_u8_inject: "show_u8 i = show_u8 j \<longleftrightarrow> i = j"
  by (metis parse_show_u8 option.inject)

end
