(* ===== verification/Drm_Devices.thy ===== *)
theory Drm_Devices
  imports Rust_Numbers "HOL-Library.Product_Lexorder"
begin

text \<open>
  The DRM backend (\<open>src/resource_manager/drm.rs\<close>): the lease state machine of a card, and the
  discovery of the cards with its priority order.  The kernel behind the \<open>drm\<close> crate is a
  parameter: a record of its calls over a kernel state of any type.  The mutex of a card serialises
  the two operations, so each is one function; \<open>None\<close> as a card's state (the \<open>Option\<close> taken out
  by a transition that panicked) makes the \<open>expect\<close> of the next operation panic, which is the
  outcome \<open>DrmPanic\<close>.
\<close>

section \<open>The kernel interface\<close>

type_synonym fd = nat
type_synonym io_error = nat
type_synonym handle = "32 word"
type_synonym lease_id = "32 word"

datatype connector_interface = Writeback | OtherInterface
datatype connector_state = Connected | Disconnected | UnknownState

record connector_info =
  interface :: connector_interface
  conn_state :: connector_state

record resource_handles =
  crtcs :: "handle list"
  connector_handles :: "handle list"

record 'k drm_kernel =
  k_open_card :: "'k \<Rightarrow> u8 \<Rightarrow> (io_error + fd) \<times> 'k"
  k_acquire_master_lock :: "'k \<Rightarrow> fd \<Rightarrow> (io_error + unit) \<times> 'k"
  k_resource_handles :: "'k \<Rightarrow> fd \<Rightarrow> io_error + resource_handles"
  k_plane_handles :: "'k \<Rightarrow> fd \<Rightarrow> io_error + handle list"
  k_get_connector :: "'k \<Rightarrow> fd \<Rightarrow> handle \<Rightarrow> io_error + connector_info"
  k_create_lease :: "'k \<Rightarrow> fd \<Rightarrow> handle list \<Rightarrow> (io_error + lease_id \<times> fd) \<times> 'k"
  k_revoke_lease :: "'k \<Rightarrow> fd \<Rightarrow> lease_id \<Rightarrow> (io_error + unit) \<times> 'k"
  k_try_clone :: "'k \<Rightarrow> fd \<Rightarrow> (io_error + fd) \<times> 'k"

section \<open>The state machine of a card\<close>

record drm_lease =
  lease_id :: lease_id
  lease_fd :: fd

record locked_drm_device =
  locked_card :: fd

record leased_drm_device =
  leased_card :: fd
  lease :: drm_lease

datatype drm_device_state = Locked locked_drm_device | Leased leased_drm_device

record drm_device =
  drm_index :: u8
  state :: "drm_device_state option"

definition display_connectors :: "'k drm_kernel \<Rightarrow> 'k \<Rightarrow> fd \<Rightarrow> resource_handles \<Rightarrow> handle list" where
  "display_connectors K k cfd handles =
     filter (\<lambda>h. case k_get_connector K k cfd h of
                   Inr info \<Rightarrow> interface info \<noteq> Writeback
                 | Inl _ \<Rightarrow> True) (connector_handles handles)"

definition lease_objects :: "'k drm_kernel \<Rightarrow> 'k \<Rightarrow> fd \<Rightarrow> io_error + handle list" where
  "lease_objects K k cfd =
     (case k_resource_handles K k cfd of
        Inl e \<Rightarrow> Inl e
      | Inr handles \<Rightarrow>
          (case k_plane_handles K k cfd of
             Inl e \<Rightarrow> Inl e
           | Inr planes \<Rightarrow> Inr (crtcs handles @ display_connectors K k cfd handles @ planes)))"

text \<open>The two transitions consume a state and return the next one, or the same one with the error.\<close>

definition create_lease ::
  "'k drm_kernel \<Rightarrow> 'k \<Rightarrow> locked_drm_device \<Rightarrow>
    ((locked_drm_device \<times> io_error) + leased_drm_device) \<times> 'k" where
  "create_lease K k dev =
     (let cfd = locked_card dev
      in (case lease_objects K k cfd of
            Inl e \<Rightarrow> (Inl (\<lparr>locked_card = cfd\<rparr>, e), k)
          | Inr objects \<Rightarrow>
              (case k_create_lease K k cfd objects of
                 (Inr (i, f), k') \<Rightarrow>
                   (Inr \<lparr>leased_card = cfd, lease = \<lparr>lease_id = i, lease_fd = f\<rparr>\<rparr>, k')
               | (Inl e, k') \<Rightarrow> (Inl (\<lparr>locked_card = cfd\<rparr>, e), k'))))"

definition leased_revoke_lease ::
  "'k drm_kernel \<Rightarrow> 'k \<Rightarrow> leased_drm_device \<Rightarrow>
    ((leased_drm_device \<times> io_error) + locked_drm_device) \<times> 'k" where
  "leased_revoke_lease K k dev =
     (let cfd = leased_card dev; l = lease dev
      in (case k_revoke_lease K k cfd (lease_id l) of
            (Inr _, k') \<Rightarrow> (Inr \<lparr>locked_card = cfd\<rparr>, k')
          | (Inl e, k') \<Rightarrow>
              (Inl (\<lparr>leased_card = cfd, lease = \<lparr>lease_id = lease_id l, lease_fd = lease_fd l\<rparr>\<rparr>, e), k')))"

text \<open>What an operation on a card ends with.\<close>

datatype 'a drm_result = DrmOk 'a | DrmErr io_error | DrmPanic

text \<open>The match of \<open>grant_lease\<close> on \<open>create_lease\<close>, for a card that is locked.\<close>

definition lease_locked ::
  "'k drm_kernel \<Rightarrow> 'k \<Rightarrow> drm_device \<Rightarrow> locked_drm_device \<Rightarrow> fd drm_result \<times> drm_device \<times> 'k" where
  "lease_locked K k d locked =
     (case create_lease K k locked of
        (Inl (dev, e), k') \<Rightarrow> (DrmErr e, d\<lparr>state := Some (Locked dev)\<rparr>, k')
      | (Inr leased, k') \<Rightarrow>
          (case k_try_clone K k' (lease_fd (lease leased)) of
             (Inr f, k'') \<Rightarrow> (DrmOk f, d\<lparr>state := Some (Leased leased)\<rparr>, k'')
           | (Inl e, k'') \<Rightarrow> (DrmErr e, d\<lparr>state := Some (Leased leased)\<rparr>, k'')))"

definition grant_lease ::
  "'k drm_kernel \<Rightarrow> 'k \<Rightarrow> drm_device \<Rightarrow> fd drm_result \<times> drm_device \<times> 'k" where
  "grant_lease K k d =
     (case state d of
        None \<Rightarrow> (DrmPanic, d, k)
      | Some (Locked dev) \<Rightarrow> lease_locked K k d dev
      | Some (Leased dev) \<Rightarrow>
          (case leased_revoke_lease K k dev of
             (Inr locked, k') \<Rightarrow> lease_locked K k' d locked
           | (Inl (dev', e), k') \<Rightarrow> (DrmErr e, d\<lparr>state := Some (Leased dev')\<rparr>, k')))"

definition drm_revoke_lease ::
  "'k drm_kernel \<Rightarrow> 'k \<Rightarrow> drm_device \<Rightarrow> unit drm_result \<times> drm_device \<times> 'k" where
  "drm_revoke_lease K k d =
     (case state d of
        None \<Rightarrow> (DrmPanic, d, k)
      | Some (Leased dev) \<Rightarrow>
          (case leased_revoke_lease K k dev of
             (Inr locked, k') \<Rightarrow> (DrmOk (), d\<lparr>state := Some (Locked locked)\<rparr>, k')
           | (Inl (dev', e), k') \<Rightarrow> (DrmOk (), d\<lparr>state := Some (Leased dev')\<rparr>, k'))
      | Some (Locked dev) \<Rightarrow> (DrmOk (), d\<lparr>state := Some (Locked dev)\<rparr>, k))"

section \<open>Discovery\<close>

text \<open>A name as the directory gives it: \<open>None\<close> is a name that is not UTF-8.\<close>

type_synonym dir_entry = "io_error + string option"

definition strip_prefix :: "string \<Rightarrow> string \<Rightarrow> string option" where
  "strip_prefix pre s = (if take (length pre) s = pre then Some (drop (length pre) s) else None)"

definition card_index :: "string option \<Rightarrow> u8 option" where
  "card_index name = Option.bind name (\<lambda>s. Option.bind (strip_prefix ''card'' s) parse_u8)"

record opened_card =
  oc_index :: u8
  oc_card :: fd
  oc_connectors :: "handle list"
  any_connected :: bool

text \<open>The body of the loop over the card nodes: open, take master, query, probe.\<close>

definition open_card :: "'k drm_kernel \<Rightarrow> 'k \<Rightarrow> u8 \<Rightarrow> opened_card option \<times> 'k" where
  "open_card K k index =
     (case k_open_card K k index of
        (Inl e, k1) \<Rightarrow> (None, k1)
      | (Inr c, k1) \<Rightarrow>
          (case k_acquire_master_lock K k1 c of
             (Inl e, k2) \<Rightarrow> (None, k2)
           | (Inr _, k2) \<Rightarrow>
               (case k_resource_handles K k2 c of
                  Inl e \<Rightarrow> (None, k2)
                | Inr handles \<Rightarrow>
                    let conns = display_connectors K k2 c handles
                    in (Some \<lparr>oc_index = index, oc_card = c, oc_connectors = conns,
                          any_connected = list_ex (\<lambda>h. case k_get_connector K k2 c h of
                            Inr info \<Rightarrow> conn_state info = Connected | Inl _ \<Rightarrow> False) conns\<rparr>, k2))))"

fun open_cards :: "'k drm_kernel \<Rightarrow> 'k \<Rightarrow> u8 list \<Rightarrow> opened_card list \<times> 'k" where
  "open_cards K k [] = ([], k)"
| "open_cards K k (i # is) =
     (let (oc, k1) = open_card K k i; (ocs, k2) = open_cards K k1 is
      in (case oc of None \<Rightarrow> ocs | Some c \<Rightarrow> c # ocs, k2))"

text \<open>The sort key of the priority order: connected cards first, then the lowest index.\<close>

definition card_priority :: "opened_card \<Rightarrow> bool \<times> u8" where
  "card_priority oc = (\<not> any_connected oc, oc_index oc)"

fun register_cards ::
  "opened_card list \<Rightarrow> (resource \<times> drm_device) list \<Rightarrow> resource list \<Rightarrow>
    (resource \<times> drm_device) list \<times> resource list" where
  "register_cards [] drm adv = (drm, adv)"
| "register_cards (oc # ocs) drm adv =
     (if oc_connectors oc = [] then register_cards ocs drm adv
      else
        let r = Drm (oc_index oc)
        in register_cards ocs
             (AList.update r \<lparr>drm_index = oc_index oc,
                state = Some (Locked \<lparr>locked_card = oc_card oc\<rparr>)\<rparr> drm)
             (adv @ [r]))"

definition drm_open_devices ::
  "'k drm_kernel \<Rightarrow> 'k \<Rightarrow> io_error + dir_entry list \<Rightarrow> (resource \<times> drm_device) list \<Rightarrow> resource list \<Rightarrow>
    (resource \<times> drm_device) list \<times> resource list \<times> 'k" where
  "drm_open_devices K k read_dir drm adv =
     (case read_dir of
        Inl e \<Rightarrow> (drm, adv, k)
      | Inr entries \<Rightarrow>
          let indices = sort (List.map_filter (\<lambda>en. case en of Inl _ \<Rightarrow> None | Inr name \<Rightarrow> card_index name) entries);
              (opened, k') = open_cards K k indices;
              (drm', adv') = register_cards (sort_key card_priority opened) drm adv
          in (drm', adv', k'))"

section \<open>Leases: none lost, never two\<close>

text \<open>
  What the kernel does with leases, \<open>leases k cfd\<close> being the live ones of the card opened as
  \<open>cfd\<close>: a successful create adds one, a successful revoke ends one, a failed call changes
  nothing, and duplicating a file descriptor has no effect on them.
\<close>

definition lease_kernel :: "'k drm_kernel \<Rightarrow> ('k \<Rightarrow> fd \<Rightarrow> lease_id set) \<Rightarrow> bool" where
  "lease_kernel K leases \<longleftrightarrow>
     (\<forall>k cfd objs i f k'. k_create_lease K k cfd objs = (Inr (i, f), k') \<longrightarrow>
        leases k' = (leases k)(cfd := insert i (leases k cfd))) \<and>
     (\<forall>k cfd objs e k'. k_create_lease K k cfd objs = (Inl e, k') \<longrightarrow> leases k' = leases k) \<and>
     (\<forall>k cfd i u k'. k_revoke_lease K k cfd i = (Inr u, k') \<longrightarrow>
        leases k' = (leases k)(cfd := leases k cfd - {i})) \<and>
     (\<forall>k cfd i e k'. k_revoke_lease K k cfd i = (Inl e, k') \<longrightarrow> leases k' = leases k) \<and>
     (\<forall>k f x k'. k_try_clone K k f = (x, k') \<longrightarrow> leases k' = leases k)"

lemma lease_kernelD:
  assumes "lease_kernel K leases"
  shows "k_create_lease K k cfd objs = (Inr (i, f), k') \<Longrightarrow> leases k' = (leases k)(cfd := insert i (leases k cfd))"
    and "k_create_lease K k cfd objs = (Inl e, k') \<Longrightarrow> leases k' = leases k"
    and "k_revoke_lease K k cfd i = (Inr u, k') \<Longrightarrow> leases k' = (leases k)(cfd := leases k cfd - {i})"
    and "k_revoke_lease K k cfd i = (Inl e, k') \<Longrightarrow> leases k' = leases k"
    and "k_try_clone K k fd0 = (x, k') \<Longrightarrow> leases k' = leases k"
  using assms unfolding lease_kernel_def by (elim conjE, simp)+

text \<open>The server's record of a card and the kernel's live leases on it agree.\<close>

fun state_card :: "drm_device_state \<Rightarrow> fd" where
  "state_card (Locked dev) = locked_card dev"
| "state_card (Leased dev) = leased_card dev"

fun state_leases :: "drm_device_state \<Rightarrow> lease_id set" where
  "state_leases (Locked dev) = {}"
| "state_leases (Leased dev) = {lease_id (lease dev)}"

definition leases_agree :: "('k \<Rightarrow> fd \<Rightarrow> lease_id set) \<Rightarrow> 'k \<Rightarrow> drm_device \<Rightarrow> bool" where
  "leases_agree leases k d \<longleftrightarrow>
     (case state d of None \<Rightarrow> False | Some st \<Rightarrow> leases k (state_card st) = state_leases st)"

definition device_card :: "drm_device \<Rightarrow> fd option" where
  "device_card d = map_option state_card (state d)"

lemma create_lease_agrees:
  assumes K: "lease_kernel K leases" and "leases k (locked_card dev) = {}"
  shows "case create_lease K k dev of
      (Inl (dev', e), k') \<Rightarrow> dev' = dev \<and> leases k' = leases k
    | (Inr leased, k') \<Rightarrow> leased_card leased = locked_card dev \<and>
        leases k' = (leases k)(locked_card dev := {lease_id (lease leased)})"
  using assms(2)
  by (auto simp: create_lease_def lease_kernelD [OF K] Let_def split: sum.splits prod.splits)

lemma leased_revoke_lease_agrees:
  assumes K: "lease_kernel K leases" and "leases k (leased_card dev) = {lease_id (lease dev)}"
  shows "case leased_revoke_lease K k dev of
      (Inl (dev', e), k') \<Rightarrow> dev' = dev \<and> leases k' = leases k
    | (Inr locked, k') \<Rightarrow> locked_card locked = leased_card dev \<and>
        leases k' = (leases k)(leased_card dev := {})"
  using assms(2)
  by (auto simp: leased_revoke_lease_def lease_kernelD [OF K] Let_def split: sum.splits prod.splits)

lemma lease_locked_agrees:
  assumes K: "lease_kernel K leases" and dev: "leases k (locked_card dev) = {}"
    and res: "lease_locked K k d dev = (res, d', k')"
  shows "leases_agree leases k' d' \<and> device_card d' = Some (locked_card dev) \<and>
    (\<forall>c. c \<noteq> locked_card dev \<longrightarrow> leases k' c = leases k c) \<and>
    (\<forall>f. res = DrmOk f \<longrightarrow> leases k' (locked_card dev) \<noteq> {})"
  using create_lease_agrees [OF K dev] dev res lease_kernelD(5) [OF K]
  by (auto simp: lease_locked_def leases_agree_def device_card_def split: sum.splits prod.splits)

lemma leases_agreeE:
  assumes "leases_agree leases k d"
  obtains (locked) dev where "state d = Some (Locked dev)" "leases k (locked_card dev) = {}"
    | (leased) dev where "state d = Some (Leased dev)" "leases k (leased_card dev) = {lease_id (lease dev)}"
proof (cases "state d")
  case (Some st)
  with assms that show thesis by (cases st) (auto simp: leases_agree_def)
qed (use assms in \<open>simp add: leases_agree_def\<close>)

lemma grant_lease_agrees:
  assumes K: "lease_kernel K leases" and d: "leases_agree leases k d"
    and res: "grant_lease K k d = (res, d', k')"
  shows "leases_agree leases k' d' \<and> device_card d' = device_card d \<and> res \<noteq> DrmPanic \<and>
    (\<forall>c. device_card d \<noteq> Some c \<longrightarrow> leases k' c = leases k c) \<and>
    (\<forall>f c. res = DrmOk f \<longrightarrow> device_card d = Some c \<longrightarrow> leases k' c \<noteq> {})"
  using d
proof (cases rule: leases_agreeE)
  case (locked dev)
  with res have eq: "lease_locked K k d dev = (res, d', k')" by (simp add: grant_lease_def)
  then have "res \<noteq> DrmPanic" by (auto simp: lease_locked_def split: prod.splits sum.splits)
  with lease_locked_agrees [OF K locked(2) eq] locked show ?thesis
    by (auto simp: device_card_def)
next
  case (leased dev)
  show ?thesis
  proof (cases "leased_revoke_lease K k dev")
    case (Pair x k1)
    with leased_revoke_lease_agrees [OF K leased(2)] show ?thesis
    proof (cases x)
      case (Inl y)
      with Pair leased res leased_revoke_lease_agrees [OF K leased(2)] show ?thesis
        by (auto simp: grant_lease_def leases_agree_def device_card_def split: prod.splits)
    next
      case (Inr l)
      have l: "locked_card l = leased_card dev" "leases k1 = (leases k)(leased_card dev := {})"
        using Pair Inr leased_revoke_lease_agrees [OF K leased(2)] by simp_all
      have eq: "lease_locked K k1 d l = (res, d', k')"
        using res leased Pair Inr by (simp add: grant_lease_def)
      then have "res \<noteq> DrmPanic" by (auto simp: lease_locked_def split: prod.splits sum.splits)
      moreover have "leases k1 (locked_card l) = {}" using l by simp
      ultimately show ?thesis
        using lease_locked_agrees [OF K _ eq] l leased by (auto simp: device_card_def)
    qed
  qed
qed

lemma drm_revoke_lease_agrees:
  assumes K: "lease_kernel K leases" and d: "leases_agree leases k d"
    and res: "drm_revoke_lease K k d = (res, d', k')"
  shows "leases_agree leases k' d' \<and> device_card d' = device_card d \<and> res \<noteq> DrmPanic \<and>
    (\<forall>c. device_card d \<noteq> Some c \<longrightarrow> leases k' c = leases k c)"
  using d
proof (cases rule: leases_agreeE)
  case (locked dev)
  with res show ?thesis by (auto simp: drm_revoke_lease_def leases_agree_def device_card_def)
next
  case (leased dev)
  with res leased_revoke_lease_agrees [OF K leased(2)] show ?thesis
    by (auto simp: drm_revoke_lease_def leases_agree_def device_card_def split: prod.splits sum.splits)
qed

text \<open>No lease is lost and no card is leased twice: whatever the kernel answers, after a grant
  and after a revoke the leases the kernel holds live on a card are exactly the one the server has
  recorded (or none), the card is the same, no other card is affected, nothing panics, and a grant
  that returns a file descriptor leaves the card leased.\<close>

theorem lease_never_lost:
  assumes "lease_kernel K leases" "leases_agree leases k d"
  shows "(case grant_lease K k d of (res, d', k') \<Rightarrow>
      leases_agree leases k' d' \<and> device_card d' = device_card d \<and> res \<noteq> DrmPanic \<and>
      (\<forall>c. device_card d \<noteq> Some c \<longrightarrow> leases k' c = leases k c) \<and>
      (\<forall>f c. res = DrmOk f \<longrightarrow> device_card d = Some c \<longrightarrow> leases k' c \<noteq> {})) \<and>
    (case drm_revoke_lease K k d of (res, d', k') \<Rightarrow>
      leases_agree leases k' d' \<and> device_card d' = device_card d \<and> res \<noteq> DrmPanic \<and>
      (\<forall>c. device_card d \<noteq> Some c \<longrightarrow> leases k' c = leases k c))"
  using grant_lease_agrees [OF assms] drm_revoke_lease_agrees [OF assms] by fastforce

text \<open>A kernel with one counter for ids and descriptors, whose state lists the live leases.\<close>

definition toy_kernel :: "(nat \<times> (fd \<times> lease_id) list) drm_kernel" where
  "toy_kernel =
     \<lparr>k_open_card = \<lambda>(n, ls) i. (Inr n, Suc n, ls),
      k_acquire_master_lock = \<lambda>k c. (Inr (), k),
      k_resource_handles = \<lambda>k c. Inr \<lparr>crtcs = [1], connector_handles = [2, 3]\<rparr>,
      k_plane_handles = \<lambda>k c. Inr [4],
      k_get_connector = \<lambda>k c h. if h = 2 then Inr \<lparr>interface = OtherInterface, conn_state = Connected\<rparr>
                          else Inr \<lparr>interface = Writeback, conn_state = Disconnected\<rparr>,
      k_create_lease = \<lambda>(n, ls) c objs. (Inr (of_nat n, n), Suc n, (c, of_nat n) # ls),
      k_revoke_lease = \<lambda>(n, ls) c i. (Inr (), n, filter (\<lambda>l. l \<noteq> (c, i)) ls),
      k_try_clone = \<lambda>(n, ls) f. (Inr n, Suc n, ls)\<rparr>"

definition toy_leases :: "nat \<times> (fd \<times> lease_id) list \<Rightarrow> fd \<Rightarrow> lease_id set" where
  "toy_leases k c = {i. (c, i) \<in> set (snd k)}"

lemma toy_lease_kernel: "lease_kernel toy_kernel toy_leases"
  by (auto simp: lease_kernel_def toy_kernel_def toy_leases_def fun_eq_iff)

theorem lease_never_lost_witness:
  "let (res, d', k') = grant_lease toy_kernel (9, [(7, 5)])
         \<lparr>drm_index = 0, state = Some (Leased \<lparr>leased_card = 7, lease = \<lparr>lease_id = 5, lease_fd = 8\<rparr>\<rparr>)\<rparr>
   in leases_agree toy_leases k' d' \<and> toy_leases k' 7 = {9}"
proof -
  let ?d = "\<lparr>drm_index = 0, state = Some (Leased \<lparr>leased_card = 7, lease = \<lparr>lease_id = 5, lease_fd = 8\<rparr>\<rparr>)\<rparr>"
  have "leases_agree toy_leases (9, [(7, 5)]) ?d"
    by (auto simp: leases_agree_def toy_leases_def)
  from lease_never_lost [OF toy_lease_kernel this] show ?thesis
    by (simp add: grant_lease_def lease_locked_def create_lease_def leased_revoke_lease_def lease_objects_def
        toy_kernel_def toy_leases_def)
qed

section \<open>Discovery registers in priority order\<close>

lemma strip_prefix_append [simp]: "strip_prefix pre (pre @ s) = Some s"
  by (simp add: strip_prefix_def)

text \<open>The card number survives the trip through the node name: the index parsed from the name
  of node \<open>cardN\<close> is \<open>N\<close>, for every index, so the node that is opened is the node that was listed.\<close>

theorem card_index_round_trip: "card_index (Some (''card'' @ show_u8 i)) = Some i"
  by (simp add: card_index_def del: append.simps)

lemma register_cards_adv:
  "snd (register_cards ocs drm adv) = adv @ map (Drm \<circ> oc_index) (filter (\<lambda>oc. oc_connectors oc \<noteq> []) ocs)"
  by (induction ocs drm adv rule: register_cards.induct) (simp_all add: Let_def)

lemma register_cards_drm:
  assumes "distinct (map oc_index ocs)"
  shows "map_of (fst (register_cards ocs drm adv)) (Drm i) =
    (case filter (\<lambda>oc. oc_connectors oc \<noteq> [] \<and> oc_index oc = i) ocs of
       [] \<Rightarrow> map_of drm (Drm i)
     | oc # _ \<Rightarrow> Some \<lparr>drm_index = i, state = Some (Locked \<lparr>locked_card = oc_card oc\<rparr>)\<rparr>)"
  using assms
proof (induction ocs drm adv rule: register_cards.induct)
  case (2 oc ocs drm adv)
  have "filter (\<lambda>oc'. oc_connectors oc' \<noteq> [] \<and> oc_index oc' = oc_index oc) ocs = []"
    using 2(3) by (intro filter_absent) simp
  with 2 show ?case by (auto simp: Let_def split: list.split)
qed simp

lemma open_card_index: "fst (open_card K k i) = Some oc \<Longrightarrow> oc_index oc = i"
  by (auto simp: open_card_def Let_def split: prod.splits sum.splits)

lemma open_cards_indices: "subseq (map oc_index (fst (open_cards K k is))) is"
proof (induction K k "is" rule: open_cards.induct)
  case (2 K k i "is")
  obtain oc k1 where oc: "open_card K k i = (oc, k1)" by fastforce
  with 2 [OF refl oc [symmetric]] open_card_index [of K k i] show ?case
    by (cases oc) (auto simp: Let_def case_prod_beta)
qed simp

text \<open>Which of two cards has precedence, as the resource manager's documentation puts it.\<close>

definition before_card :: "opened_card \<Rightarrow> opened_card \<Rightarrow> bool" where
  "before_card a b \<longleftrightarrow>
     any_connected a \<and> \<not> any_connected b \<or> any_connected a = any_connected b \<and> oc_index a < oc_index b"

lemma card_priority_before:
  "card_priority a \<le> card_priority b \<Longrightarrow> oc_index a \<noteq> oc_index b \<Longrightarrow> before_card a b"
  by (cases "any_connected a"; cases "any_connected b") (auto simp: card_priority_def before_card_def)

lemma sorted_by_priority:
  assumes "sorted (map card_priority ocs)" "distinct (map oc_index ocs)"
  shows "sorted_wrt before_card ocs"
  using assms by (induction ocs) (auto intro!: card_priority_before simp: rev_image_eqI)

text \<open>C30. The cards are advertised best first: the resources that discovery appends to the advertised
  list are exactly the display-capable cards it opened; every card with a connected display comes
  before every card without one, and the lower index comes first among cards that are alike in this;
  each is registered once, as a locked device holding the master descriptor that was opened for it,
  and carries no lease.\<close>

theorem drm_open_devices_priority:
  assumes "indices = sort (List.map_filter (\<lambda>en. case en of Inl _ \<Rightarrow> None | Inr name \<Rightarrow> card_index name) entries)"
    and "distinct indices" "drm_open_devices K k (Inr entries) drm adv = (drm', adv', k')"
  shows "\<exists>ocs. adv' = adv @ map (Drm \<circ> oc_index) ocs \<and>
    set ocs = {oc \<in> set (fst (open_cards K k indices)). oc_connectors oc \<noteq> []} \<and>
    sorted_wrt (\<lambda>a b. any_connected a \<and> \<not> any_connected b \<or>
      any_connected a = any_connected b \<and> oc_index a < oc_index b) ocs \<and>
    distinct (map oc_index ocs) \<and>
    (\<forall>oc\<in>set ocs. map_of drm' (Drm (oc_index oc)) =
       Some \<lparr>drm_index = oc_index oc, state = Some (Locked \<lparr>locked_card = oc_card oc\<rparr>)\<rparr>)"
proof -
  let ?opened = "fst (open_cards K k indices)"
  let ?sorted = "sort_key card_priority ?opened"
  let ?ocs = "filter (\<lambda>oc. oc_connectors oc \<noteq> []) ?sorted"
  have res: "drm' = fst (register_cards ?sorted drm adv)" "adv' = snd (register_cards ?sorted drm adv)"
    using assms(1,3) by (simp_all add: drm_open_devices_def Let_def case_prod_beta)
  have "distinct (map oc_index ?opened)"
    by (rule subseq_distinct [OF open_cards_indices assms(2)])
  then have dist: "distinct (map oc_index ?sorted)"
    by (simp add: distinct_map inj_on_def)
  have "map_of drm' (Drm (oc_index oc)) =
      Some \<lparr>drm_index = oc_index oc, state = Some (Locked \<lparr>locked_card = oc_card oc\<rparr>)\<rparr>" if "oc \<in> set ?ocs" for oc
  proof -
    have "filter (\<lambda>oc'. oc_connectors oc' \<noteq> [] \<and> oc_index oc' = oc_index oc) ?sorted = [oc]"
      using filter_unique_index [OF dist, of oc "\<lambda>oc'. oc_connectors oc' \<noteq> []"] that by simp
    with register_cards_drm [OF dist, of drm adv "oc_index oc"] res show ?thesis by simp
  qed
  moreover have keep: "distinct (map oc_index ?ocs)"
    by (rule distinct_map_filter_keep [OF dist])
  moreover have "sorted_wrt before_card ?ocs"
    by (rule sorted_by_priority [OF sorted_filter keep]) simp
  ultimately show ?thesis
    using res by (intro exI [of _ ?ocs]) (auto simp: register_cards_adv before_card_def [abs_def])
qed

text \<open>Two cards, of which only the second has a display connected.\<close>

definition toy_entries :: "dir_entry list" where
  "toy_entries = [Inr (Some ''card1''), Inr (Some ''renderD128''), Inr (Some ''card0'')]"

definition dark_kernel :: "(nat \<times> (fd \<times> lease_id) list) drm_kernel" where
  "dark_kernel = toy_kernel\<lparr>k_get_connector := \<lambda>k c h.
     Inr \<lparr>interface = OtherInterface, conn_state = (if c = 20 then Disconnected else Connected)\<rparr>\<rparr>"

theorem drm_open_devices_priority_witness:
  "\<exists>ocs :: opened_card list. fst (snd (drm_open_devices dark_kernel (20, []) (Inr toy_entries) [] [])) = map (Drm \<circ> oc_index) ocs \<and>
    map oc_index ocs = [1, 0] \<and>
    sorted_wrt (\<lambda>a b. any_connected a \<and> \<not> any_connected b \<or>
      any_connected a = any_connected b \<and> oc_index a < oc_index b) ocs"
proof -
  have idx: "sort (List.map_filter (\<lambda>en. case en of Inl _ \<Rightarrow> None | Inr name \<Rightarrow> card_index name) toy_entries) = [0, 1]"
    by code_simp
  obtain drm' adv' k' where eq: "drm_open_devices dark_kernel (20, []) (Inr toy_entries) [] [] = (drm', adv', k')"
    by (rule prod_cases3)
  have "fst (snd (drm_open_devices dark_kernel (20, []) (Inr toy_entries) [] [])) = [Drm 1, Drm 0]"
    by code_simp
  then have adv: "adv' = [Drm 1, Drm 0]" using eq by simp
  have "distinct [0, 1 :: u8]" by simp
  from drm_open_devices_priority [OF idx [symmetric] this eq] obtain ocs :: "opened_card list" where
    ocs: "adv' = [] @ map (Drm \<circ> oc_index) ocs"
      "sorted_wrt (\<lambda>a b. any_connected a \<and> \<not> any_connected b \<or>
        any_connected a = any_connected b \<and> oc_index a < oc_index b) ocs"
    by blast
  with adv have "map Drm (map oc_index ocs) = map Drm [1, 0]" by simp
  then have "map oc_index ocs = [1, 0]"
    by (rule map_injective) (simp add: inj_on_def)
  with ocs eq show ?thesis by auto
qed

end
