(* ===== verification/Input_Devices.thy ===== *)
theory Input_Devices
  imports Drm_Devices "HOL-Library.List_Lexorder"
begin

text \<open>
  Input devices (\<open>src/resource_manager/input.rs\<close>): the classes and their names, what a held device
  is, classification, probing and the assignment of per-class indices.  The file system, sysfs and
  the \<open>evdev\<close> probe are a parameter: a record of the answers to the calls the daemon makes.  One
  such record stands for one pass over \<open>/dev/input\<close>.
\<close>

section \<open>The file system as the daemon sees it\<close>

type_synonym path = string

record evdev_device =
  ev_name :: "string option"
  supported_absolute_axes :: "nat list option"
  supported_relative_axes :: "nat list option"
  supported_keys :: "nat list option"

text \<open>
  \<open>fs_open\<close> opens a node for reading and \<open>fs_fstat\<close> identifies the inode behind a descriptor;
  \<open>fs_metadata\<close> identifies the inode a path names now.
\<close>

record fs_view =
  fs_read_dir :: "path \<Rightarrow> io_error + dir_entry list"
  fs_evdev :: "path \<Rightarrow> io_error + evdev_device"
  fs_open :: "path \<Rightarrow> io_error + fd"
  fs_fstat :: "fd \<Rightarrow> io_error + u64 \<times> u64"
  fs_metadata :: "path \<Rightarrow> io_error + u64 \<times> u64"
  fs_canonicalize :: "path \<Rightarrow> io_error + path"
  fs_exists :: "path \<Rightarrow> bool"

section \<open>Classes and names\<close>

datatype input_class = ClassMouse | ClassKeyboard | ClassTouch

text \<open>The classes are enumerable, so that a statement about every class computes.\<close>

instantiation input_class :: enum
begin

definition enum_input_class :: "input_class list" where
  "enum_input_class = [ClassMouse, ClassKeyboard, ClassTouch]"

definition enum_all_input_class :: "(input_class \<Rightarrow> bool) \<Rightarrow> bool" where
  "enum_all_input_class P \<longleftrightarrow> P ClassMouse \<and> P ClassKeyboard \<and> P ClassTouch"

definition enum_ex_input_class :: "(input_class \<Rightarrow> bool) \<Rightarrow> bool" where
  "enum_ex_input_class P \<longleftrightarrow> P ClassMouse \<or> P ClassKeyboard \<or> P ClassTouch"

instance
proof
  have all: "P c" if "P ClassMouse" "P ClassKeyboard" "P ClassTouch" for P and c :: input_class
    using that by (cases c) simp_all
  show "(UNIV :: input_class set) = set enum_class.enum"
    using all [of "\<lambda>c. c \<in> set enum_class.enum"] by (auto simp: enum_input_class_def)
  show "distinct (enum_class.enum :: input_class list)"
    by (simp add: enum_input_class_def)
  show "enum_class.enum_all P \<longleftrightarrow> Ball UNIV P" for P :: "input_class \<Rightarrow> bool"
    using all [of P] by (auto simp: enum_all_input_class_def)
  show "enum_class.enum_ex P \<longleftrightarrow> Bex UNIV P" for P :: "input_class \<Rightarrow> bool"
    using all [of "\<lambda>c. \<not> P c"] by (auto simp: enum_ex_input_class_def)
qed

end

fun class_resource :: "input_class \<Rightarrow> u8 \<Rightarrow> input_resource" where
  "class_resource ClassMouse i = Mouse i"
| "class_resource ClassKeyboard i = Keyboard i"
| "class_resource ClassTouch i = Touch i"

fun class_of :: "input_resource \<Rightarrow> input_class" where
  "class_of (Mouse _) = ClassMouse"
| "class_of (Keyboard _) = ClassKeyboard"
| "class_of (Touch _) = ClassTouch"

fun class_of_resource :: "resource \<Rightarrow> input_class option" where
  "class_of_resource (Input i) = Some (class_of i)"
| "class_of_resource _ = None"

fun resource_index :: "resource \<Rightarrow> u8 option" where
  "resource_index (Input (Mouse i)) = Some i"
| "resource_index (Input (Keyboard i)) = Some i"
| "resource_index (Input (Touch i)) = Some i"
| "resource_index _ = None"

lemma class_of_class_resource [simp]: "class_of (class_resource c i) = c"
  by (cases c) simp_all

lemma resource_index_class_resource [simp]: "resource_index (Input (class_resource c i)) = Some i"
  by (cases c) simp_all

lemma class_resource_inject [simp]: "class_resource c i = class_resource c' j \<longleftrightarrow> c = c' \<and> i = j"
  by (cases c; cases c') simp_all

lemma class_resource_exhaust:
  assumes "class_of_resource r = Some c" "resource_index r = Some i" shows "r = Input (class_resource c i)"
  using assms by (cases r rule: resource_index.cases) auto

record discovered_device =
  dd_path :: path
  dd_name :: string
  dd_resource :: input_resource

record probed_device =
  pd_path :: path
  pd_name :: string
  pd_class :: input_class

record held_input =
  held_resource :: resource
  dev :: u64
  ino :: u64
  held_device :: "path option"
  device_gone :: bool

section \<open>Classification\<close>

definition ABS_X :: nat where "ABS_X = 0"
definition ABS_Y :: nat where "ABS_Y = 1"
definition ABS_MT_POSITION_X :: nat where "ABS_MT_POSITION_X = 0x35"
definition REL_X :: nat where "REL_X = 0"
definition REL_Y :: nat where "REL_Y = 1"

definition classify :: "evdev_device \<Rightarrow> input_class option" where
  "classify d =
     (let abs_axes = supported_absolute_axes d
      in if (case abs_axes of None \<Rightarrow> False | Some axes \<Rightarrow> ABS_MT_POSITION_X \<in> set axes) then Some ClassTouch
         else if (case abs_axes of None \<Rightarrow> False | Some axes \<Rightarrow> ABS_X \<in> set axes \<and> ABS_Y \<in> set axes)
         then Some ClassTouch
         else if (case supported_relative_axes d of None \<Rightarrow> False
                  | Some axes \<Rightarrow> REL_X \<in> set axes \<and> REL_Y \<in> set axes) \<and>
                 (case supported_keys d of None \<Rightarrow> False
                  | Some keys \<Rightarrow> list_ex (\<lambda>code. code \<in> set keys) [0x110..<0x118])
         then Some ClassMouse
         else if (case supported_keys d of None \<Rightarrow> False
                  | Some keys \<Rightarrow> list_ex (\<lambda>code. code \<in> set keys) [1..<58])
         then Some ClassKeyboard
         else None)"

section \<open>Nodes\<close>

definition stat_identity :: "u64 \<Rightarrow> u64 \<Rightarrow> u64 \<times> u64" where
  "stat_identity d i = (d, i)"

definition open_device :: "fs_view \<Rightarrow> path \<Rightarrow> (fd \<times> u64 \<times> u64) option" where
  "open_device fs p =
     (case fs_open fs p of
        Inl e \<Rightarrow> None
      | Inr f \<Rightarrow>
          (case fs_fstat fs f of
             Inl e \<Rightarrow> None
           | Inr (st_dev, st_ino) \<Rightarrow>
               let ident = stat_identity st_dev st_ino
               in (case fs_metadata fs p of
                     Inl e \<Rightarrow> None
                   | Inr meta \<Rightarrow> if meta = ident then Some (f, fst ident, snd ident) else None)))"

definition path_identity :: "fs_view \<Rightarrow> path \<Rightarrow> (u64 \<times> u64) option" where
  "path_identity fs p =
     (case fs_metadata fs p of Inl e \<Rightarrow> None | Inr (d, i) \<Rightarrow> Some (stat_identity d i))"

text \<open>The last component of a path; a path that ends in a parent reference has none.\<close>

definition file_name :: "path \<Rightarrow> string option" where
  "file_name p =
     (let name = rev (takeWhile (\<lambda>c. c \<noteq> CHR ''/'') (dropWhile (\<lambda>c. c = CHR ''/'') (rev p)))
      in if name = [] \<or> name = ''..'' then None else Some name)"

definition device_identity :: "fs_view \<Rightarrow> path \<Rightarrow> path option" where
  "device_identity fs p =
     (case file_name p of
        None \<Rightarrow> None
      | Some name \<Rightarrow>
          let cls = ''/sys/class/input/'' @ name
          in (case fs_canonicalize fs (cls @ ''/device'') of
                Inr d \<Rightarrow> Some d
              | Inl _ \<Rightarrow> (case fs_canonicalize fs cls of Inr d \<Rightarrow> Some d | Inl _ \<Rightarrow> None)))"

section \<open>Enumeration\<close>

text \<open>An entry whose name is text and starts with \<open>event\<close>, as a path.\<close>

fun event_path :: "dir_entry \<Rightarrow> path option" where
  "event_path (Inr (Some name)) = (if take 5 name = ''event'' then Some (''/dev/input/'' @ name) else None)"
| "event_path _ = None"

definition input_event_paths :: "fs_view \<Rightarrow> io_error + path list" where
  "input_event_paths fs =
     (case fs_read_dir fs ''/dev/input'' of
        Inl e \<Rightarrow> Inl e
      | Inr entries \<Rightarrow>
          Inr (sort (List.map_filter event_path entries)))"

definition probe_one :: "fs_view \<Rightarrow> path \<Rightarrow> probed_device option" where
  "probe_one fs p =
     (case fs_evdev fs p of
        Inl e \<Rightarrow> None
      | Inr d \<Rightarrow>
          (case classify d of
             None \<Rightarrow> None
           | Some c \<Rightarrow>
               Some \<lparr>pd_path = p, pd_name = (case ev_name d of None \<Rightarrow> ''unnamed'' | Some n \<Rightarrow> n), pd_class = c\<rparr>))"

definition probe_all :: "fs_view \<Rightarrow> probed_device list" where
  "probe_all fs =
     (case input_event_paths fs of
        Inl e \<Rightarrow> []
      | Inr paths \<Rightarrow> List.map_filter (probe_one fs) paths)"

text \<open>The counters are \<open>u8\<close>; in a release build \<open>+= 1\<close> wraps.\<close>

record class_counters =
  mouse_count :: u8
  keyboard_count :: u8
  touch_count :: u8

fun next_index :: "input_class \<Rightarrow> class_counters \<Rightarrow> u8 \<times> class_counters" where
  "next_index ClassMouse n = (mouse_count n, n\<lparr>mouse_count := mouse_count n + 1\<rparr>)"
| "next_index ClassKeyboard n = (keyboard_count n, n\<lparr>keyboard_count := keyboard_count n + 1\<rparr>)"
| "next_index ClassTouch n = (touch_count n, n\<lparr>touch_count := touch_count n + 1\<rparr>)"

fun assign_indices :: "class_counters \<Rightarrow> probed_device list \<Rightarrow> discovered_device list" where
  "assign_indices n [] = []"
| "assign_indices n (p # ps) =
     (let (i, n') = next_index (pd_class p) n
      in \<lparr>dd_path = pd_path p, dd_name = pd_name p, dd_resource = class_resource (pd_class p) i\<rparr> #
         assign_indices n' ps)"

definition discover :: "fs_view \<Rightarrow> discovered_device list" where
  "discover fs = assign_indices \<lparr>mouse_count = 0, keyboard_count = 0, touch_count = 0\<rparr> (probe_all fs)"

section \<open>The names discovery assigns\<close>

fun counter :: "input_class \<Rightarrow> class_counters \<Rightarrow> u8" where
  "counter ClassMouse n = mouse_count n"
| "counter ClassKeyboard n = keyboard_count n"
| "counter ClassTouch n = touch_count n"

lemma next_index_counter:
  "next_index c n = (i, n') \<Longrightarrow> i = counter c n \<and> counter c' n' = (if c' = c then counter c n + 1 else counter c' n)"
  by (cases c; cases c') auto

text \<open>The devices of one class are numbered in the order they were probed.\<close>

lemma assign_indices_class:
  "filter (\<lambda>r. class_of r = c) (map dd_resource (assign_indices n ps)) =
    map (\<lambda>k. class_resource c (counter c n + of_nat k)) [0..<length (filter (\<lambda>p. pd_class p = c) ps)]"
proof (induction n ps rule: assign_indices.induct)
  case (2 n p ps)
  obtain i n' where ni: "next_index (pd_class p) n = (i, n')" by fastforce
  note IH = 2 [OF ni [symmetric] refl] and cnt = next_index_counter [OF ni]
  show ?case
  proof (cases "pd_class p = c")
    case True
    have "map (\<lambda>k. class_resource c (counter c n + of_nat k)) [0..<Suc m] =
        class_resource c (counter c n) # map (\<lambda>k. class_resource c (counter c n + 1 + of_nat k)) [0..<m]" for m
      by (simp add: map_upt_Suc add.assoc del: upt_Suc)
    with True ni IH cnt show ?thesis
      by (simp del: upt_Suc)
  next
    case False
    with ni IH cnt [of c] show ?thesis by simp
  qed
qed simp

lemma assign_indices_paths: "map dd_path (assign_indices n ps) = map pd_path ps"
  by (induction ps arbitrary: n) (simp_all add: Let_def case_prod_beta)

lemma distinct_by_class:
  assumes "\<And>c. distinct (filter (\<lambda>x. f x = c) xs)" shows "distinct xs"
  using assms
proof (induction xs)
  case (Cons x xs)
  have "distinct (filter (\<lambda>x. f x = c) xs)" for c
    using Cons.prems [of c] by (auto split: if_splits)
  moreover have "x \<notin> set xs"
    using Cons.prems [of "f x"] by auto
  ultimately show ?case
    using Cons.IH by simp
qed simp

lemma of_nat_u8_inject:
  "i < 256 \<Longrightarrow> j < 256 \<Longrightarrow> (of_nat i :: u8) = of_nat j \<longleftrightarrow> i = j"
  by (simp add: word_of_nat_eq_iff take_bit_nat_eq_self)

lemma discover_class_names:
  "filter (\<lambda>r. class_of r = c) (map dd_resource (discover fs)) =
    map (\<lambda>k. class_resource c (of_nat k)) [0..<length (filter (\<lambda>p. pd_class p = c) (probe_all fs))]"
  unfolding discover_def assign_indices_class by (cases c) simp_all

lemma discover_resources_distinct:
  assumes "\<forall>c. length (filter (\<lambda>p. pd_class p = c) (probe_all fs)) \<le> 256"
  shows "distinct (map dd_resource (discover fs))"
proof (rule distinct_by_class [of class_of])
  fix c
  have "length (filter (\<lambda>p. pd_class p = c) (probe_all fs)) \<le> 256" using assms by simp
  then show "distinct (filter (\<lambda>r. class_of r = c) (map dd_resource (discover fs)))"
    unfolding discover_class_names by (simp add: distinct_map inj_on_def of_nat_u8_inject)
qed

lemma discover_names_collide:
  assumes "256 < length (filter (\<lambda>p. pd_class p = c) (probe_all fs))"
  shows "\<not> distinct (map dd_resource (discover fs))"
proof
  let ?m = "length (filter (\<lambda>p. pd_class p = c) (probe_all fs))"
  assume "distinct (map dd_resource (discover fs))"
  then have "distinct (filter (\<lambda>r. class_of r = c) (map dd_resource (discover fs)))"
    by (rule distinct_filter)
  then have "inj_on (\<lambda>k. class_resource c (of_nat k)) {0..<?m}"
    unfolding discover_class_names by (simp add: distinct_map)
  moreover have "(of_nat 256 :: u8) = of_nat 0" by simp
  ultimately show False
    using assms inj_onD [of _ "{0..<?m}" 0 256] by force
qed

text \<open>C31. Discovery gives no two devices one name exactly when no class has more than 256 devices (the
  counters are bytes and wrap), and it names the devices of each class by consecutive indices from
  0 in the order they were probed.\<close>

theorem discover_names:
  "(distinct (map dd_resource (discover fs)) \<longleftrightarrow>
      (\<forall>c. length (filter (\<lambda>p. pd_class p = c) (probe_all fs)) \<le> 256)) \<and>
    filter (\<lambda>r. class_of r = c) (map dd_resource (discover fs)) =
      map (\<lambda>k. class_resource c (of_nat k)) [0..<length (filter (\<lambda>p. pd_class p = c) (probe_all fs))]"
  using discover_resources_distinct [of fs] discover_names_collide [of _ fs] discover_class_names
  by (metis not_less)

text \<open>A machine with two mice and a keyboard; every node opens as the inode its path names.\<close>

definition demo_evdev :: "path \<Rightarrow> io_error + evdev_device" where
  "demo_evdev p =
     (if p \<in> {''/dev/input/event0'', ''/dev/input/event2''}
      then Inr \<lparr>ev_name = Some ''mouse'', supported_absolute_axes = None,
             supported_relative_axes = Some [0, 1], supported_keys = Some [0x110]\<rparr>
      else if p = ''/dev/input/event1''
      then Inr \<lparr>ev_name = None, supported_absolute_axes = None, supported_relative_axes = None,
             supported_keys = Some [1, 30]\<rparr>
      else Inl 2)"

definition demo_fs :: fs_view where
  "demo_fs =
     \<lparr>fs_read_dir = \<lambda>_. Inr [Inr (Some ''event2''), Inr (Some ''mice''), Inr (Some ''event0''), Inr (Some ''event1'')],
      fs_evdev = demo_evdev,
      fs_open = \<lambda>p. Inr (length p + of_char (last p)),
      fs_fstat = \<lambda>f. Inr (5, of_nat f),
      fs_metadata = \<lambda>p. Inr (5, of_nat (length p + of_char (last p))),
      fs_canonicalize = \<lambda>p. Inr p,
      fs_exists = \<lambda>_. True\<rparr>"

lemma demo_probe_all:
  "probe_all demo_fs =
     [\<lparr>pd_path = ''/dev/input/event0'', pd_name = ''mouse'', pd_class = ClassMouse\<rparr>,
      \<lparr>pd_path = ''/dev/input/event1'', pd_name = ''unnamed'', pd_class = ClassKeyboard\<rparr>,
      \<lparr>pd_path = ''/dev/input/event2'', pd_name = ''mouse'', pd_class = ClassMouse\<rparr>]"
  by code_simp

end
