(* ===== verification/Inventory.thy ===== *)
theory Inventory
  imports Input_Devices
begin

text \<open>
  The inventory (\<open>src/resource_manager/mod.rs\<close>, with \<open>fbdev.rs\<close> and the registering halves of the
  backends): the grant sources, the index of held input devices, what a grant hands out, the
  startup enumeration, and the consistency checker with the invariant it decides.  The build
  modelled has all three backends; a backend with no device registers nothing.
\<close>

section \<open>Data\<close>

record inventory =
  fds :: "(resource \<times> fd) list"
  drm :: "(resource \<times> drm_device) list"
  inputs :: "(path \<times> held_input) list"

datatype grant_error =
  FdNotRegistered resource
| LeaseFailed resource io_error
| DupFailed resource io_error
| GrantPanic

section \<open>Granting\<close>

definition dup_fd ::
  "'k drm_kernel \<Rightarrow> 'k \<Rightarrow> resource \<Rightarrow> inventory \<Rightarrow> (grant_error + fd) \<times> inventory \<times> 'k" where
  "dup_fd K k r iv =
     (case map_of (fds iv) r of
        None \<Rightarrow> (Inl (FdNotRegistered r), iv, k)
      | Some f \<Rightarrow>
          (case k_try_clone K k f of
             (Inl e, k') \<Rightarrow> (Inl (DupFailed r e), iv, k')
           | (Inr f', k') \<Rightarrow> (Inr f', iv, k')))"

fun grant_fd ::
  "'k drm_kernel \<Rightarrow> 'k \<Rightarrow> resource \<Rightarrow> inventory \<Rightarrow> (grant_error + fd) \<times> inventory \<times> 'k" where
  "grant_fd K k (Drm c) iv =
     (case map_of (drm iv) (Drm c) of
        None \<Rightarrow> (Inl (FdNotRegistered (Drm c)), iv, k)
      | Some d \<Rightarrow>
          (case grant_lease K k d of
             (DrmOk f, d', k') \<Rightarrow> (Inr f, iv\<lparr>drm := AList.update (Drm c) d' (drm iv)\<rparr>, k')
           | (DrmErr e, d', k') \<Rightarrow>
               (Inl (LeaseFailed (Drm c) e), iv\<lparr>drm := AList.update (Drm c) d' (drm iv)\<rparr>, k')
           | (DrmPanic, d', k') \<Rightarrow> (Inl GrantPanic, iv, k')))"
| "grant_fd K k r iv = dup_fd K k r iv"

fun inventory_revoke_lease :: "'k drm_kernel \<Rightarrow> 'k \<Rightarrow> resource \<Rightarrow> inventory \<Rightarrow> inventory \<times> 'k" where
  "inventory_revoke_lease K k (Drm c) iv =
     (case map_of (drm iv) (Drm c) of
        None \<Rightarrow> (iv, k)
      | Some d \<Rightarrow>
          (case drm_revoke_lease K k d of
             (_, d', k') \<Rightarrow> (iv\<lparr>drm := AList.update (Drm c) d' (drm iv)\<rparr>, k')))"
| "inventory_revoke_lease K k _ iv = (iv, k)"

section \<open>Startup\<close>

definition fbdev_open :: "io_error + fd \<Rightarrow> inventory \<Rightarrow> resource list \<Rightarrow> inventory \<times> resource list" where
  "fbdev_open opened iv adv =
     (case opened of
        Inr f \<Rightarrow> (iv\<lparr>fds := AList.update Fbdev f (fds iv)\<rparr>, adv @ [Fbdev])
      | Inl e \<Rightarrow> (iv, adv))"

fun open_discovered ::
  "fs_view \<Rightarrow> discovered_device list \<Rightarrow> inventory \<Rightarrow> resource list \<Rightarrow> inventory \<times> resource list" where
  "open_discovered fs [] iv adv = (iv, adv)"
| "open_discovered fs (d # ds) iv adv =
     (case open_device fs (dd_path d) of
        None \<Rightarrow> open_discovered fs ds iv adv
      | Some (f, dv, io) \<Rightarrow>
          let r = Input (dd_resource d)
          in open_discovered fs ds
               (iv\<lparr>fds := AList.update r f (fds iv),
                  inputs := AList.update (dd_path d)
                    \<lparr>held_resource = r, dev = dv, ino = io,
                     held_device = device_identity fs (dd_path d), device_gone = False\<rparr> (inputs iv)\<rparr>)
               (adv @ [r]))"

definition input_open_devices :: "fs_view \<Rightarrow> inventory \<Rightarrow> resource list \<Rightarrow> inventory \<times> resource list" where
  "input_open_devices fs iv adv = open_discovered fs (discover fs) iv adv"

definition open_resources ::
  "'k drm_kernel \<Rightarrow> 'k \<Rightarrow> io_error + fd \<Rightarrow> fs_view \<Rightarrow> inventory \<times> resource list \<times> 'k" where
  "open_resources K k fb fs =
     (let iv0 = \<lparr>fds = [], drm = [], inputs = []\<rparr>;
          (iv1, adv1) = fbdev_open fb iv0 [];
          (drm2, adv2, k2) = drm_open_devices K k (fs_read_dir fs ''/dev/dri/'') (drm iv1) adv1;
          (iv3, adv3) = input_open_devices fs (iv1\<lparr>drm := drm2\<rparr>) adv2
      in (iv3, adv3, k2))"

section \<open>The consistency checker\<close>

datatype problem =
  InIndexTwice resource path path
| GoneHasFd resource
| GoneAdvertised resource
| LiveNoFd resource path
| LiveNotAdvertised resource path
| AdvertisedNoEntry resource
| FdNotAdvertised resource

definition entry_problems :: "(resource \<times> fd) list \<Rightarrow> resource list \<Rightarrow> path \<Rightarrow> held_input \<Rightarrow> problem list" where
  "entry_problems fd_table adv_list p h =
     (let r = held_resource h; has_fd = (map_of fd_table r \<noteq> None); advertised = (r \<in> set adv_list)
      in if device_gone h
         then (if has_fd then [GoneHasFd r] else []) @ (if advertised then [GoneAdvertised r] else [])
         else (if \<not> has_fd then [LiveNoFd r p] else []) @
              (if \<not> advertised then [LiveNotAdvertised r p] else []))"

fun check_entries ::
  "(resource \<times> fd) list \<Rightarrow> resource list \<Rightarrow> (resource \<times> path) list \<Rightarrow> (path \<times> held_input) list \<Rightarrow>
    problem list \<times> (resource \<times> path) list" where
  "check_entries fd_table adv_list seen [] = ([], seen)"
| "check_entries fd_table adv_list seen ((p, h) # es) =
     (let twice = (case map_of seen (held_resource h) of
                     None \<Rightarrow> [] | Some previous \<Rightarrow> [InIndexTwice (held_resource h) previous p]);
          (ps, seen') = check_entries fd_table adv_list (AList.update (held_resource h) p seen) es
      in (twice @ entry_problems fd_table adv_list p h @ ps, seen'))"

definition check_consistency ::
  "(resource \<times> fd) list \<Rightarrow> (path \<times> held_input) list \<Rightarrow> advertised \<Rightarrow> problem list" where
  "check_consistency fd_table index adv =
     (let adv_list = adv_snapshot adv;
          (problems, seen) = check_entries fd_table adv_list [] index
      in problems @
         map AdvertisedNoEntry (filter (\<lambda>r. is_input r \<and> map_of seen r = None) adv_list) @
         map (\<lambda>(r, f). FdNotAdvertised r) (filter (\<lambda>(r, f). is_input r \<and> r \<notin> set adv_list) fd_table))"

section \<open>The invariant it decides\<close>

definition holds_at :: "inventory \<Rightarrow> path \<Rightarrow> resource \<Rightarrow> bool" where
  "holds_at iv p r \<longleftrightarrow> (\<exists>h. map_of (inputs iv) p = Some h \<and> held_resource h = r)"

definition inventory_wf :: "inventory \<Rightarrow> bool" where
  "inventory_wf iv \<longleftrightarrow>
     distinct (map fst (fds iv)) \<and> distinct (map fst (inputs iv)) \<and>
     (\<forall>p r. holds_at iv p r \<longrightarrow> is_input r)"

text \<open>One entry per resource; live entries are advertised and grantable and gone ones neither; every
  advertised input has an entry and every input descriptor is advertised.\<close>

definition consistent :: "inventory \<Rightarrow> advertised \<Rightarrow> bool" where
  "consistent iv adv \<longleftrightarrow>
     (\<forall>p p' r. holds_at iv p r \<longrightarrow> holds_at iv p' r \<longrightarrow> p' = p) \<and>
     (\<forall>p h. map_of (inputs iv) p = Some h \<longrightarrow>
        (map_of (fds iv) (held_resource h) \<noteq> None \<longleftrightarrow> \<not> device_gone h) \<and>
        (held_resource h \<in> set adv \<longleftrightarrow> \<not> device_gone h)) \<and>
     (\<forall>r\<in>set adv. is_input r \<longrightarrow> (\<exists>p. holds_at iv p r)) \<and>
     (\<forall>r. is_input r \<longrightarrow> map_of (fds iv) r \<noteq> None \<longrightarrow> r \<in> set adv)"

lemma consistent_entry:
  assumes "consistent iv adv" "map_of (inputs iv) p = Some h"
  shows "(map_of (fds iv) (held_resource h) \<noteq> None \<longleftrightarrow> \<not> device_gone h) \<and>
    (held_resource h \<in> set adv \<longleftrightarrow> \<not> device_gone h)"
  using assms unfolding consistent_def by blast

lemma entry_problems_Nil:
  "entry_problems fd_table adv_list p h = [] \<longleftrightarrow>
    (map_of fd_table (held_resource h) \<noteq> None \<longleftrightarrow> \<not> device_gone h) \<and>
    (held_resource h \<in> set adv_list \<longleftrightarrow> \<not> device_gone h)"
  by (simp add: entry_problems_def Let_def)

lemma check_entries_seen:
  "map_of (snd (check_entries fd_table adv_list seen es)) r = None \<longleftrightarrow>
    map_of seen r = None \<and> r \<notin> (held_resource \<circ> snd) ` set es"
  by (induction fd_table adv_list seen es rule: check_entries.induct)
    (auto simp: Let_def case_prod_beta split: if_splits)

lemma check_entries_Nil:
  "fst (check_entries fd_table adv_list seen es) = [] \<longleftrightarrow>
    distinct (map (held_resource \<circ> snd) es) \<and>
    (\<forall>r\<in>(held_resource \<circ> snd) ` set es. map_of seen r = None) \<and>
    (\<forall>(p, h)\<in>set es. entry_problems fd_table adv_list p h = [])"
proof (induction fd_table adv_list seen es rule: check_entries.induct)
  case (2 fd_table adv_list seen p h es)
  have "fst (check_entries fd_table adv_list seen ((p, h) # es)) = [] \<longleftrightarrow>
      map_of seen (held_resource h) = None \<and> entry_problems fd_table adv_list p h = [] \<and>
      fst (check_entries fd_table adv_list (AList.update (held_resource h) p seen) es) = []"
    by (simp add: Let_def case_prod_beta split: option.splits)
  moreover have "(\<forall>r\<in>R. map_of (AList.update (held_resource h) p seen) r = None) \<longleftrightarrow>
      held_resource h \<notin> R \<and> (\<forall>r\<in>R. map_of seen r = None)" for R
    by auto
  ultimately show ?case
    using 2 [OF refl] by (simp del: check_entries.simps map_of_update) blast
qed simp

lemma distinct_resources_iff:
  assumes "distinct (map fst es)"
  shows "distinct (map (held_resource \<circ> snd) es) \<longleftrightarrow>
    (\<forall>p p' h h'. map_of es p = Some h \<longrightarrow> map_of es p' = Some h' \<longrightarrow> held_resource h = held_resource h' \<longrightarrow> p' = p)"
proof -
  have "distinct es" using assms by (simp add: distinct_map)
  then have "distinct (map (held_resource \<circ> snd) es) \<longleftrightarrow> inj_on (held_resource \<circ> snd) (set es)"
    by (simp add: distinct_map)
  also have "\<dots> \<longleftrightarrow> (\<forall>p p' h h'. map_of es p = Some h \<longrightarrow> map_of es p' = Some h' \<longrightarrow>
      held_resource h = held_resource h' \<longrightarrow> p' = p)" (is "_ \<longleftrightarrow> ?unique")
  proof
    assume inj: "inj_on (held_resource \<circ> snd) (set es)"
    show ?unique
    proof (intro allI impI)
      fix p p' h h'
      assume "map_of es p = Some h" "map_of es p' = Some h'" "held_resource h = held_resource h'"
      then show "p' = p"
        using inj_onD [OF inj, of "(p, h)" "(p', h')"] by (auto dest: map_of_SomeD)
    qed
  next
    assume unique: ?unique
    show "inj_on (held_resource \<circ> snd) (set es)"
    proof (rule inj_onI)
      fix x y assume "x \<in> set es" "y \<in> set es" "(held_resource \<circ> snd) x = (held_resource \<circ> snd) y"
      moreover from this have "map_of es (fst x) = Some (snd x)" "map_of es (fst y) = Some (snd y)"
        using assms by simp_all
      ultimately show "x = y"
        using unique by (metis comp_apply option.inject prod.expand)
    qed
  qed
  finally show ?thesis .
qed

lemma checker_decides:
  assumes "inventory_wf iv"
  shows "check_consistency (fds iv) (inputs iv) adv = [] \<longleftrightarrow> consistent iv adv"
proof -
  have dist: "distinct (map fst (inputs iv))" "distinct (map fst (fds iv))"
    using assms by (simp_all add: inventory_wf_def)
  have entries: "(\<forall>(p, h)\<in>set (inputs iv). Q p h) \<longleftrightarrow> (\<forall>p h. map_of (inputs iv) p = Some h \<longrightarrow> Q p h)" for Q
    using dist(1) by (auto dest: map_of_SomeD)
  have held: "r \<in> (held_resource \<circ> snd) ` set (inputs iv) \<longleftrightarrow> (\<exists>p. holds_at iv p r)" for r
    using dist(1) by (force simp: holds_at_def image_iff dest: map_of_SomeD)
  have fd_rows: "filter (\<lambda>(r, f). is_input r \<and> r \<notin> set adv) (fds iv) = [] \<longleftrightarrow>
      (\<forall>r. is_input r \<longrightarrow> map_of (fds iv) r \<noteq> None \<longrightarrow> r \<in> set adv)"
    by (force simp: filter_empty_conv map_of_eq_None_iff)
  have adv_rows: "filter (\<lambda>r. is_input r \<and> map_of (snd (check_entries (fds iv) adv [] (inputs iv))) r = None) adv = [] \<longleftrightarrow>
      (\<forall>r\<in>set adv. is_input r \<longrightarrow> (\<exists>p. holds_at iv p r))"
    using held by (auto simp: filter_empty_conv check_entries_seen)
  have "check_consistency (fds iv) (inputs iv) adv = [] \<longleftrightarrow>
      distinct (map (held_resource \<circ> snd) (inputs iv)) \<and>
      (\<forall>(p, h)\<in>set (inputs iv). entry_problems (fds iv) adv p h = []) \<and>
      (\<forall>r\<in>set adv. is_input r \<longrightarrow> (\<exists>p. holds_at iv p r)) \<and>
      (\<forall>r. is_input r \<longrightarrow> map_of (fds iv) r \<noteq> None \<longrightarrow> r \<in> set adv)"
    using adv_rows fd_rows check_entries_Nil [of "fds iv" adv "[]" "inputs iv"]
    by (simp add: check_consistency_def Let_def case_prod_beta adv_snapshot_def)
  then show ?thesis
    unfolding consistent_def entries distinct_resources_iff [OF dist(1)] entry_problems_Nil
    by (auto simp: holds_at_def)
qed

text \<open>C29. The consistency checker reports nothing exactly when the invariant between the fd table, the
  input index and the advertised list holds.\<close>

theorem check_consistency_iff:
  assumes "inventory_wf iv"
  shows "check_consistency (fds iv) (inputs iv) adv = [] \<longleftrightarrow> consistent iv adv"
  by (rule checker_decides [OF assms])

definition demo_inventory :: inventory where
  "demo_inventory =
     \<lparr>fds = [(Input (Mouse 0), 4)], drm = [],
      inputs = [(''/dev/input/event0'', \<lparr>held_resource = Input (Mouse 0), dev = 5, ino = 6, held_device = None, device_gone = False\<rparr>),
        (''/dev/input/event1'', \<lparr>held_resource = Input (Keyboard 0), dev = 5, ino = 7, held_device = None, device_gone = True\<rparr>)]\<rparr>"

lemma demo_inventory_wf: "inventory_wf demo_inventory"
  by (auto simp: inventory_wf_def demo_inventory_def holds_at_def split: if_splits)

theorem check_consistency_iff_witness:
  "consistent demo_inventory [Fbdev, Input (Mouse 0)]"
proof -
  have "check_consistency (fds demo_inventory) (inputs demo_inventory) [Fbdev, Input (Mouse 0)] = []"
    by code_simp
  then show ?thesis
    using check_consistency_iff [OF demo_inventory_wf] by blast
qed

section \<open>What the transitions do to it\<close>

lemma holds_at_update_inputs [simp]:
  "holds_at (iv\<lparr>fds := x, inputs := AList.update p h (inputs iv)\<rparr>) p' r \<longleftrightarrow>
    (if p' = p then held_resource h = r else holds_at iv p' r)"
  by (simp add: holds_at_def)

lemma holds_at_put [simp]:
  "holds_at (iv\<lparr>inputs := AList.update p h (inputs iv)\<rparr>) p' r \<longleftrightarrow>
    (if p' = p then held_resource h = r else holds_at iv p' r)"
  by (simp add: holds_at_def)

lemma holds_at_delete [simp]:
  "holds_at (iv\<lparr>inputs := AList.delete p (inputs iv)\<rparr>) p' r \<longleftrightarrow> p' \<noteq> p \<and> holds_at iv p' r"
  by (simp add: holds_at_def)

lemma holds_at_fds [simp]: "holds_at (iv\<lparr>fds := x\<rparr>) = holds_at iv" "holds_at (iv\<lparr>drm := y\<rparr>) = holds_at iv"
  by (simp_all add: holds_at_def fun_eq_iff)

lemma holds_at_lookup: "map_of (inputs iv) p = Some h \<Longrightarrow> holds_at iv p r \<longleftrightarrow> held_resource h = r"
  by (simp add: holds_at_def)

text \<open>Opening a device as \<open>r\<close> at node \<open>p\<close>, when nothing else is \<open>r\<close> and \<open>p\<close> is nothing else.\<close>

lemma consistent_take:
  assumes con: "consistent iv adv" and adv': "set adv' = insert r (set adv)"
    and r: "\<And>p'. holds_at iv p' r \<Longrightarrow> p' = p" and p: "\<And>r'. holds_at iv p r' \<Longrightarrow> r' = r"
    and h: "held_resource h = r" "\<not> device_gone h"
  shows "consistent (iv\<lparr>fds := AList.update r f (fds iv), inputs := AList.update p h (inputs iv)\<rparr>) adv'"
proof -
  let ?iv = "iv\<lparr>fds := AList.update r f (fds iv), inputs := AList.update p h (inputs iv)\<rparr>"
  have "p2 = p1" if "holds_at ?iv p1 r'" "holds_at ?iv p2 r'" for p1 p2 r'
    using that con r h unfolding consistent_def by (auto split: if_splits)
  moreover have "(map_of (fds ?iv) (held_resource h') \<noteq> None \<longleftrightarrow> \<not> device_gone h') \<and>
      (held_resource h' \<in> set adv' \<longleftrightarrow> \<not> device_gone h')" if "map_of (inputs ?iv) p1 = Some h'" for p1 h'
  proof (cases "p1 = p")
    case True
    with that h adv' show ?thesis by simp
  next
    case False
    with that have h': "map_of (inputs iv) p1 = Some h'" by simp
    then have "held_resource h' \<noteq> r" using False r [of p1] by (auto simp: holds_at_def)
    with h' con adv' show ?thesis unfolding consistent_def by auto
  qed
  moreover have "\<exists>p1. holds_at ?iv p1 r'" if "r' \<in> set adv'" "is_input r'" for r'
  proof (cases "r' = r")
    case True
    with h show ?thesis by (intro exI [of _ p]) simp
  next
    case False
    with that adv' con obtain p1 where "holds_at iv p1 r'" unfolding consistent_def by auto
    with False p show ?thesis by (intro exI [of _ p1]) auto
  qed
  moreover have "r' \<in> set adv'" if "is_input r'" "map_of (fds ?iv) r' \<noteq> None" for r'
    using that con adv' unfolding consistent_def by (auto split: if_splits)
  ultimately show ?thesis unfolding consistent_def by blast
qed

lemma consistent_suspend:
  assumes con: "consistent iv adv" and h: "map_of (inputs iv) p = Some h"
  shows "consistent (iv\<lparr>fds := AList.delete (held_resource h) (fds iv),
      inputs := AList.update p (h\<lparr>device_gone := True\<rparr>) (inputs iv)\<rparr>) (adv_remove (held_resource h) adv)"
proof -
  let ?r = "held_resource h"
  let ?iv = "iv\<lparr>fds := AList.delete ?r (fds iv), inputs := AList.update p (h\<lparr>device_gone := True\<rparr>) (inputs iv)\<rparr>"
  have same: "holds_at ?iv p1 r' \<longleftrightarrow> holds_at iv p1 r'" for p1 r'
    using h by (simp add: holds_at_def)
  have "(map_of (fds ?iv) (held_resource h') \<noteq> None \<longleftrightarrow> \<not> device_gone h') \<and>
      (held_resource h' \<in> set (adv_remove ?r adv) \<longleftrightarrow> \<not> device_gone h')" if "map_of (inputs ?iv) p1 = Some h'" for p1 h'
  proof (cases "p1 = p")
    case True
    with that show ?thesis by auto
  next
    case False
    with that have h': "map_of (inputs iv) p1 = Some h'" by simp
    then have "held_resource h' \<noteq> ?r"
      using False con h unfolding consistent_def holds_at_def by blast
    with h' con show ?thesis unfolding consistent_def by auto
  qed
  with con same show ?thesis unfolding consistent_def by auto
qed

lemma consistent_move_gone:
  assumes con: "consistent iv adv" and h: "map_of (inputs iv) p = Some h" "device_gone h"
    and k: "k = p \<or> map_of (inputs iv) k = None"
  shows "consistent (iv\<lparr>inputs := AList.update k h (AList.delete p (inputs iv))\<rparr>) adv"
proof -
  let ?iv = "iv\<lparr>inputs := AList.update k h (AList.delete p (inputs iv))\<rparr>"
  have look: "map_of (inputs ?iv) p1 = Some h' \<longleftrightarrow>
      p1 = k \<and> h' = h \<or> p1 \<noteq> k \<and> p1 \<noteq> p \<and> map_of (inputs iv) p1 = Some h'" for p1 h'
    by auto
  have holds: "holds_at ?iv p1 r \<longleftrightarrow> p1 = k \<and> r = held_resource h \<or> p1 \<noteq> k \<and> p1 \<noteq> p \<and> holds_at iv p1 r" for p1 r
    using look by (auto simp: holds_at_def)
  have "p2 = p1" if "holds_at ?iv p1 r" "holds_at ?iv p2 r" for p1 p2 r
    using that con h(1) unfolding holds consistent_def by (metis holds_at_lookup)
  moreover have "\<exists>p1. holds_at ?iv p1 r" if "r \<in> set adv" "is_input r" for r
  proof -
    from that con obtain p1 where p1: "holds_at iv p1 r" unfolding consistent_def by blast
    then have "p1 \<noteq> p"
      using that h con by (auto simp: holds_at_lookup consistent_def)
    with p1 k have "holds_at ?iv p1 r"
      unfolding holds by (auto simp: holds_at_def)
    then show ?thesis ..
  qed
  moreover have "(map_of (fds ?iv) (held_resource h') \<noteq> None \<longleftrightarrow> \<not> device_gone h') \<and>
      (held_resource h' \<in> set adv \<longleftrightarrow> \<not> device_gone h')" if "map_of (inputs ?iv) p1 = Some h'" for p1 h'
    using that [unfolded look] consistent_entry [OF con h(1)] consistent_entry [OF con, of p1 h'] by auto
  moreover have "r \<in> set adv" if "is_input r" "map_of (fds ?iv) r \<noteq> None" for r
    using that con unfolding consistent_def by simp
  ultimately show ?thesis
    unfolding consistent_def [of ?iv] by blast
qed

lemma consistent_forget_gone:
  assumes con: "consistent iv adv" and h: "map_of (inputs iv) p = Some h" "device_gone h"
  shows "consistent (iv\<lparr>inputs := AList.delete p (inputs iv)\<rparr>) adv"
proof -
  have "p1 \<noteq> p" if "holds_at iv p1 r" "r \<in> set adv" for p1 r
    using that h con by (auto simp: holds_at_lookup consistent_def)
  with con show ?thesis
    unfolding consistent_def by (simp split: if_splits) blast
qed

lemma inventory_wf_fds [simp]:
  "inventory_wf iv \<Longrightarrow> inventory_wf (iv\<lparr>fds := AList.update r f (fds iv)\<rparr>)"
  "inventory_wf iv \<Longrightarrow> inventory_wf (iv\<lparr>fds := AList.delete r (fds iv)\<rparr>)"
  by (simp_all add: inventory_wf_def)

lemma inventory_wf_put [simp]:
  "inventory_wf iv \<Longrightarrow> is_input (held_resource h) \<Longrightarrow>
    inventory_wf (iv\<lparr>inputs := AList.update p h (inputs iv)\<rparr>)"
  by (auto simp: inventory_wf_def)

lemma inventory_wf_delete [simp]:
  "inventory_wf iv \<Longrightarrow> inventory_wf (iv\<lparr>inputs := AList.delete p (inputs iv)\<rparr>)"
  by (auto simp: inventory_wf_def)

section \<open>Startup\<close>

lemma open_discovered_consistent:
  assumes "consistent iv adv" "inventory_wf iv" "distinct (map dd_path ds)" "distinct (map dd_resource ds)"
    and "\<forall>d\<in>set ds. (\<forall>r. \<not> holds_at iv (dd_path d) r) \<and> (\<forall>p. \<not> holds_at iv p (Input (dd_resource d)))"
  shows "consistent (fst (open_discovered fs ds iv adv)) (snd (open_discovered fs ds iv adv)) \<and>
    inventory_wf (fst (open_discovered fs ds iv adv))"
  using assms
proof (induction fs ds iv adv rule: open_discovered.induct)
  case (2 fs d ds iv adv)
  show ?case
  proof (cases "open_device fs (dd_path d)")
    case None
    with 2 show ?thesis by simp
  next
    case (Some x)
    obtain f dv io where x: "x = (f, dv, io)" by (rule prod_cases3)
    let ?r = "Input (dd_resource d)"
    let ?h = "\<lparr>held_resource = ?r, dev = dv, ino = io,
       held_device = device_identity fs (dd_path d), device_gone = False\<rparr>"
    let ?iv = "iv\<lparr>fds := AList.update ?r f (fds iv), inputs := AList.update (dd_path d) ?h (inputs iv)\<rparr>"
    have "consistent ?iv (adv @ [?r])"
      by (rule consistent_take [OF 2(3)]) (use 2(7) in auto)
    moreover have "inventory_wf ?iv"
      using inventory_wf_put [OF inventory_wf_fds(1) [OF 2(4)], of ?h "dd_path d" ?r f] by simp
    moreover have "\<forall>d'\<in>set ds. dd_path d' \<noteq> dd_path d \<and> dd_resource d' \<noteq> dd_resource d"
      using 2(5,6) by (metis distinct.simps(2) image_eqI list.set_map list.simps(9))
    then have "\<forall>d'\<in>set ds. (\<forall>r. \<not> holds_at ?iv (dd_path d') r) \<and> (\<forall>p. \<not> holds_at ?iv p (Input (dd_resource d')))"
      using 2(7) by auto
    ultimately show ?thesis
      using 2(2) [OF Some x [symmetric] refl refl] 2(5,6) Some x by (simp add: Let_def)
  qed
qed simp

lemma drm_open_devices_adv:
  "set (fst (snd (drm_open_devices K k rd dr adv))) \<subseteq> set adv \<union> range Drm"
  by (auto simp: drm_open_devices_def Let_def case_prod_beta register_cards_adv split: sum.splits)

lemma consistent_no_inputs:
  "inputs iv = [] \<Longrightarrow> \<forall>r\<in>set adv. \<not> is_input r \<Longrightarrow> \<forall>r. is_input r \<longrightarrow> map_of (fds iv) r = None \<Longrightarrow> consistent iv adv"
  by (auto simp: consistent_def holds_at_def)

lemma discover_distinct:
  assumes "distinct (map pd_path (probe_all fs))"
  shows "distinct (map dd_path (discover fs))"
  using assms by (simp add: discover_def assign_indices_paths)

lemma open_resources_consistent:
  assumes "open_resources K k fb fs = (iv, adv, k')" "distinct (map pd_path (probe_all fs))"
    and "distinct (map dd_resource (discover fs))"
  shows "consistent iv adv \<and> inventory_wf iv"
proof -
  define iv1 adv1 where "iv1 = fst (fbdev_open fb \<lparr>fds = [], drm = [], inputs = []\<rparr> [])"
    and "adv1 = snd (fbdev_open fb \<lparr>fds = [], drm = [], inputs = []\<rparr> [])"
  define drm2 adv2 where "drm2 = fst (drm_open_devices K k (fs_read_dir fs ''/dev/dri/'') (drm iv1) adv1)"
    and "adv2 = fst (snd (drm_open_devices K k (fs_read_dir fs ''/dev/dri/'') (drm iv1) adv1))"
  let ?iv2 = "iv1\<lparr>drm := drm2\<rparr>"
  have eq: "iv = fst (open_discovered fs (discover fs) ?iv2 adv2)" "adv = snd (open_discovered fs (discover fs) ?iv2 adv2)"
    using assms(1) by (simp_all add: open_resources_def iv1_def adv1_def drm2_def adv2_def Let_def
        case_prod_beta input_open_devices_def)
  have iv1: "inputs iv1 = []" "\<forall>r. is_input r \<longrightarrow> map_of (fds iv1) r = None" "distinct (map fst (fds iv1))"
    and "set adv1 \<subseteq> {Fbdev}"
    by (auto simp: iv1_def adv1_def fbdev_open_def split: sum.splits)
  then have "\<forall>r\<in>set adv2. \<not> is_input r"
    using drm_open_devices_adv [of K k "fs_read_dir fs ''/dev/dri/''" "drm iv1" adv1]
    by (fastforce simp: adv2_def)
  then have "consistent ?iv2 adv2"
    using iv1 by (intro consistent_no_inputs) simp_all
  moreover have "inventory_wf ?iv2" "\<And>p r. \<not> holds_at ?iv2 p r"
    using iv1 by (auto simp: inventory_wf_def holds_at_def)
  ultimately show ?thesis
    unfolding eq using open_discovered_consistent [of ?iv2 adv2 "discover fs" fs] assms(2,3)
    by (simp add: discover_distinct)
qed

text \<open>The daemon starts in a consistent state: whatever the kernel and the file system answer, the
  inventory and the advertised list that startup builds pass the consistency checker, if the node
  paths are distinct and no class has more than 256 devices.\<close>

theorem startup_consistent:
  assumes "open_resources K k fb fs = (iv, adv, k')" "distinct (map pd_path (probe_all fs))"
    and "\<forall>c. length (filter (\<lambda>p. pd_class p = c) (probe_all fs)) \<le> 256"
  shows "check_consistency (fds iv) (inputs iv) adv = []"
proof -
  have "consistent iv adv \<and> inventory_wf iv"
    using open_resources_consistent [OF assms(1,2)] discover_resources_distinct [OF assms(3)] by blast
  then show ?thesis by (simp add: checker_decides)
qed

theorem startup_consistent_witness:
  "let (iv, adv, k') = open_resources toy_kernel (20, []) (Inr 3) demo_fs
   in check_consistency (fds iv) (inputs iv) adv = [] \<and> map fst (fds iv) = Fbdev # map Input [Mouse 0, Keyboard 0, Mouse 1]"
proof -
  obtain iv adv k' where eq: "open_resources toy_kernel (20, []) (Inr 3) demo_fs = (iv, adv, k')"
    by (rule prod_cases3)
  have "map fst (fds (fst (open_resources toy_kernel (20, []) (Inr 3) demo_fs))) =
      Fbdev # map Input [Mouse 0, Keyboard 0, Mouse 1]"
    by code_simp
  with eq startup_consistent [OF eq] show ?thesis
    by (simp add: demo_probe_all)
qed

end
