(* ===== verification/Hotplug.thy ===== *)
theory Hotplug
  imports Engine_Frames Inventory "HOL-Library.Option_ord"
begin

text \<open>
  The hot-plug reconciler (\<open>src/resource_manager/hotplug.rs\<close>).  Its state is the inventory, the
  advertised list and the trail of engine commands it has sent; each command is recorded with the
  inventory and the list as they were when it was sent, so that the order of the code's steps can
  be stated.  Parameters: the file system of the pass, and \<open>fmt\<close>, the debug format of a resource,
  which is derived in the protocol crate.
\<close>

section \<open>Data\<close>

record hp =
  hp_inv :: inventory
  hp_adv :: advertised
  hp_out :: "(engine_command \<times> inventory \<times> advertised) list"

text \<open>Sending a command to the engine (\<open>PolicyEngine::suspend\<close>, \<open>resume\<close>, \<open>offer\<close>, \<open>broadcast\<close>).\<close>

definition tell_engine :: "engine_command \<Rightarrow> hp \<Rightarrow> hp" where
  "tell_engine cmd s = s\<lparr>hp_out := hp_out s @ [(cmd, hp_inv s, hp_adv s)]\<rparr>"

definition push :: "hp \<Rightarrow> hp" where
  "push s = tell_engine (CmdBroadcast (CtlAdvertise (adv_snapshot (hp_adv s)))) s"

section \<open>Helpers\<close>

definition same_device :: "fs_view \<Rightarrow> path \<Rightarrow> held_input \<Rightarrow> bool" where
  "same_device fs p h =
     (case (held_device h, device_identity fs p) of
        (Some d, Some d') \<Rightarrow> d = d'
      | _ \<Rightarrow> False)"

definition may_resume :: "held_input \<Rightarrow> input_class \<Rightarrow> bool" where
  "may_resume h c = (class_of_resource (held_resource h) = Some c)"

definition park_key :: "(resource \<Rightarrow> string) \<Rightarrow> resource \<Rightarrow> path" where
  "park_key fmt r = ''<suspended>/'' @ fmt r"

definition park :: "(resource \<Rightarrow> string) \<Rightarrow> path \<Rightarrow> hp \<Rightarrow> hp" where
  "park fmt p s =
     (case map_of (inputs (hp_inv s)) p of
        None \<Rightarrow> s
      | Some h \<Rightarrow>
          s\<lparr>hp_inv := (hp_inv s)\<lparr>inputs :=
              AList.update (park_key fmt (held_resource h)) h (AList.delete p (inputs (hp_inv s)))\<rparr>\<rparr>)"

definition free_index :: "(path \<times> held_input) list \<Rightarrow> input_class \<Rightarrow> u8 option" where
  "free_index index c =
     (let used = sort (List.map_filter (\<lambda>(p, h). resource_index (held_resource h))
                   (filter (\<lambda>(p, h). class_of_resource (held_resource h) = Some c) index))
      in find (\<lambda>candidate. candidate \<notin> set used) (map of_nat [0..<256]))"

definition suspended_peer ::
  "fs_view \<Rightarrow> (path \<times> held_input) list \<Rightarrow> input_class \<Rightarrow> (path \<times> held_input) option" where
  "suspended_peer fs index c =
     (case sort_key (\<lambda>(p, h). resource_index (held_resource h))
        (filter (\<lambda>(p, h). device_gone h \<and> class_of_resource (held_resource h) = Some c \<and> \<not> fs_exists fs p) index) of
        [] \<Rightarrow> None
      | x # _ \<Rightarrow> Some x)"

section \<open>Transitions of the inventory\<close>

definition fresh_entry :: "fs_view \<Rightarrow> path \<Rightarrow> resource \<Rightarrow> u64 \<Rightarrow> u64 \<Rightarrow> held_input" where
  "fresh_entry fs p r dv io =
     \<lparr>held_resource = r, dev = dv, ino = io, held_device = device_identity fs p, device_gone = False\<rparr>"

definition reopen :: "fs_view \<Rightarrow> path \<Rightarrow> resource \<Rightarrow> hp \<Rightarrow> bool \<times> hp" where
  "reopen fs p r s =
     (case open_device fs p of
        None \<Rightarrow> (False, s)
      | Some (f, dv, io) \<Rightarrow>
          (True, s\<lparr>hp_inv := (hp_inv s)\<lparr>fds := AList.update r f (fds (hp_inv s)),
             inputs := AList.update p (fresh_entry fs p r dv io) (inputs (hp_inv s))\<rparr>\<rparr>))"

definition adopt :: "fs_view \<Rightarrow> policy \<Rightarrow> path \<Rightarrow> input_class \<Rightarrow> hp \<Rightarrow> bool \<times> hp" where
  "adopt fs pol p c s =
     (case free_index (inputs (hp_inv s)) c of
        None \<Rightarrow> (False, s)
      | Some i \<Rightarrow>
          let r = Input (class_resource c i)
          in (case open_device fs p of
                None \<Rightarrow> (False, s)
              | Some (f, dv, io) \<Rightarrow>
                  let s1 = s\<lparr>hp_inv := (hp_inv s)\<lparr>fds := AList.update r f (fds (hp_inv s)),
                               inputs := AList.update p (fresh_entry fs p r dv io) (inputs (hp_inv s))\<rparr>,
                             hp_adv := adv_insert r (hp_adv s)\<rparr>
                  in (True, push (tell_engine (CmdOffer r pol) s1))))"

definition suspend :: "path \<Rightarrow> held_input \<Rightarrow> hp \<Rightarrow> hp" where
  "suspend p h s =
     (let s1 = tell_engine (CmdSuspend (held_resource h)) (s\<lparr>hp_adv := adv_remove (held_resource h) (hp_adv s)\<rparr>);
          s2 = s1\<lparr>hp_inv := (hp_inv s1)\<lparr>fds := AList.delete (held_resource h) (fds (hp_inv s1)),
                 inputs := AList.update p (h\<lparr>device_gone := True\<rparr>) (inputs (hp_inv s1))\<rparr>\<rparr>
      in push s2)"

definition resume :: "fs_view \<Rightarrow> path \<Rightarrow> path \<Rightarrow> held_input \<Rightarrow> hp \<Rightarrow> bool \<times> hp" where
  "resume fs old_p p h s =
     (let r = held_resource h
      in (case open_device fs p of
            None \<Rightarrow> (False, s)
          | Some (f, dv, io) \<Rightarrow>
              let index = (if old_p \<noteq> p then AList.delete old_p (inputs (hp_inv s)) else inputs (hp_inv s));
                  s1 = s\<lparr>hp_inv := (hp_inv s)\<lparr>fds := AList.update r f (fds (hp_inv s)),
                           inputs := AList.update p (fresh_entry fs p r dv io) index\<rparr>,
                         hp_adv := adv_insert r (hp_adv s)\<rparr>
              in (True, push (tell_engine (CmdResume r) s1))))"

section \<open>One pass\<close>

text \<open>The last arm of the match: another device under a name the daemon already uses.\<close>

definition replace_device ::
  "fs_view \<Rightarrow> (resource \<Rightarrow> string) \<Rightarrow> policy \<Rightarrow> probed_device \<Rightarrow> held_input \<Rightarrow> hp \<Rightarrow> bool \<times> hp" where
  "replace_device fs fmt pol d h s =
     (if (case held_device h of None \<Rightarrow> False | Some dvc \<Rightarrow> fs_exists fs dvc)
      then reopen fs (pd_path d) (held_resource h) s
      else if may_resume h (pd_class d) then resume fs (pd_path d) (pd_path d) h s
      else adopt fs pol (pd_path d) (pd_class d) (park fmt (pd_path d) (suspend (pd_path d) h s)))"

text \<open>The body of the loop over the probed devices: whether the device was taken, and the state.\<close>

definition reconcile_device ::
  "fs_view \<Rightarrow> (resource \<Rightarrow> string) \<Rightarrow> policy \<Rightarrow> probed_device \<Rightarrow> hp \<Rightarrow> bool \<times> hp" where
  "reconcile_device fs fmt pol d s =
     (case map_of (inputs (hp_inv s)) (pd_path d) of
        Some h \<Rightarrow>
          if path_identity fs (pd_path d) = Some (dev h, ino h) then (True, s)
          else if device_gone h \<and> may_resume h (pd_class d) then resume fs (pd_path d) (pd_path d) h s
          else if device_gone h then adopt fs pol (pd_path d) (pd_class d) (park fmt (pd_path d) s)
          else if same_device fs (pd_path d) h then reopen fs (pd_path d) (held_resource h) s
          else replace_device fs fmt pol d h s
      | None \<Rightarrow>
          (case suspended_peer fs (inputs (hp_inv s)) (pd_class d) of
             Some (old_p, h) \<Rightarrow> resume fs old_p (pd_path d) h s
           | None \<Rightarrow> adopt fs pol (pd_path d) (pd_class d) s))"

fun reconcile_devices ::
  "fs_view \<Rightarrow> (resource \<Rightarrow> string) \<Rightarrow> policy \<Rightarrow> probed_device list \<Rightarrow> hp \<Rightarrow> bool \<times> hp" where
  "reconcile_devices fs fmt pol [] s = (False, s)"
| "reconcile_devices fs fmt pol (d # ds) s =
     (let (taken, s1) = reconcile_device fs fmt pol d s;
          (retry, s2) = reconcile_devices fs fmt pol ds s1
      in (\<not> taken \<or> retry, s2))"

fun suspend_missing :: "fs_view \<Rightarrow> path list \<Rightarrow> (path \<times> held_input) list \<Rightarrow> hp \<Rightarrow> hp" where
  "suspend_missing fs present [] s = s"
| "suspend_missing fs present ((p, h) # es) s =
     (if device_gone h \<or> p \<in> set present then suspend_missing fs present es s
      else if (case held_device h of None \<Rightarrow> False | Some dvc \<Rightarrow> fs_exists fs dvc)
      then suspend_missing fs present es s
      else suspend_missing fs present es (suspend p h s))"

definition reconcile :: "fs_view \<Rightarrow> (resource \<Rightarrow> string) \<Rightarrow> policy \<Rightarrow> hp \<Rightarrow> bool \<times> hp" where
  "reconcile fs fmt pol s =
     (let probed = probe_all fs;
          (retry, s1) = reconcile_devices fs fmt pol probed s
      in (retry, suspend_missing fs (map pd_path probed) (inputs (hp_inv s1)) s1))"

section \<open>The retry loop of a wake\<close>

definition MAX_RETRIES :: nat where
  "MAX_RETRIES = 5"

text \<open>\<open>views n\<close> is the file system at the \<open>n\<close>-th attempt; the result counts the passes made.\<close>

function retry_loop ::
  "(nat \<Rightarrow> fs_view) \<Rightarrow> (resource \<Rightarrow> string) \<Rightarrow> policy \<Rightarrow> nat \<Rightarrow> hp \<Rightarrow> nat \<times> hp" where
  "retry_loop views fmt pol attempt s =
     (let (retry, s1) = reconcile (views attempt) fmt pol s;
          attempt1 = attempt + 1
      in if \<not> retry \<or> MAX_RETRIES \<le> attempt1 then (attempt1, s1)
         else retry_loop views fmt pol attempt1 s1)"
  by pat_completeness auto
termination
  by (relation "measure (\<lambda>(views, fmt, pol, attempt, s). MAX_RETRIES - attempt)") auto

declare retry_loop.simps [simp del]

end
