(* ===== verification/Hotplug_Invariants.thy ===== *)
theory Hotplug_Invariants
  imports Hotplug
begin

text \<open>
  The reconciler refines four abstract transitions on the names it holds: nothing, a device goes
  away, a device comes back, a device is adopted under a fresh name.  Every branch of a pass is a
  sequence of them and keeps the consistency invariant; what follows for the names, for the engine
  and for the order of the steps is proved from that.
\<close>

section \<open>The invariant of the reconciler\<close>

definition status :: "inventory \<Rightarrow> resource \<Rightarrow> bool \<Rightarrow> bool" where
  "status iv r gone \<longleftrightarrow>
     (\<exists>p h. map_of (inputs iv) p = Some h \<and> held_resource h = r \<and> device_gone h = gone)"

text \<open>Every advertised input has a descriptor to grant.\<close>

definition adv_backed :: "inventory \<Rightarrow> advertised \<Rightarrow> bool" where
  "adv_backed iv adv \<longleftrightarrow> (\<forall>r\<in>set adv. is_input r \<longrightarrow> map_of (fds iv) r \<noteq> None)"

lemma consistent_backed: "consistent iv adv \<Longrightarrow> adv_backed iv adv"
  unfolding adv_backed_def consistent_def holds_at_def by blast

lemma adv_backed_remove: "adv_backed iv adv \<Longrightarrow> adv_backed iv (adv_remove r adv)"
  by (simp add: adv_backed_def)

text \<open>What must be in place when a command is sent.\<close>

fun timely :: "engine_command \<times> inventory \<times> advertised \<Rightarrow> bool" where
  "timely (CmdResume r, iv, adv) \<longleftrightarrow> map_of (fds iv) r \<noteq> None \<and> r \<in> set adv \<and> adv_backed iv adv"
| "timely (CmdOffer r pol, iv, adv) \<longleftrightarrow> map_of (fds iv) r \<noteq> None \<and> r \<in> set adv \<and> adv_backed iv adv"
| "timely (CmdSuspend r, iv, adv) \<longleftrightarrow> r \<notin> set adv \<and> adv_backed iv adv"
| "timely (CmdBroadcast m, iv, adv) \<longleftrightarrow> m = CtlAdvertise adv \<and> consistent iv adv"
| "timely (cmd, iv, adv) \<longleftrightarrow> False"

definition parked_ok :: "(resource \<Rightarrow> string) \<Rightarrow> inventory \<Rightarrow> bool" where
  "parked_ok fmt iv \<longleftrightarrow> (\<forall>r r'. holds_at iv (park_key fmt r) r' \<longrightarrow> r' = r)"

definition hp_ok :: "(resource \<Rightarrow> string) \<Rightarrow> hp \<Rightarrow> bool" where
  "hp_ok fmt s \<longleftrightarrow>
     inventory_wf (hp_inv s) \<and> consistent (hp_inv s) (hp_adv s) \<and> parked_ok fmt (hp_inv s) \<and>
     list_all timely (hp_out s)"

lemma hp_okD:
  assumes "hp_ok fmt s"
  shows "inventory_wf (hp_inv s)" "consistent (hp_inv s) (hp_adv s)" "parked_ok fmt (hp_inv s)"
    "list_all timely (hp_out s)"
  using assms by (simp_all add: hp_ok_def)

lemma tell_engine_simps [simp]:
  "hp_inv (tell_engine cmd s) = hp_inv s" "hp_adv (tell_engine cmd s) = hp_adv s"
  "hp_out (tell_engine cmd s) = hp_out s @ [(cmd, hp_inv s, hp_adv s)]"
  by (simp_all add: tell_engine_def)

lemma push_simps [simp]:
  "hp_inv (push s) = hp_inv s" "hp_adv (push s) = hp_adv s"
  "hp_out (push s) = hp_out s @ [(CmdBroadcast (CtlAdvertise (hp_adv s)), hp_inv s, hp_adv s)]"
  by (simp_all add: push_def adv_snapshot_def)

section \<open>The abstract transitions\<close>

inductive hp_change :: "policy \<Rightarrow> hp \<Rightarrow> hp \<Rightarrow> bool" for pol :: policy where
  quiet:
    "map fst (hp_out s') = map fst (hp_out s) \<Longrightarrow>
     (\<And>r b. status (hp_inv s') r b = status (hp_inv s) r b) \<Longrightarrow> hp_change pol s s'"
| goes_away:
    "map fst (hp_out s') = map fst (hp_out s) @ [CmdSuspend r, CmdBroadcast (CtlAdvertise (hp_adv s'))] \<Longrightarrow>
     consistent (hp_inv s') (hp_adv s') \<Longrightarrow>
     status (hp_inv s) r False \<Longrightarrow>
     (\<And>r' b. status (hp_inv s') r' b = (if r' = r then b else status (hp_inv s) r' b)) \<Longrightarrow> hp_change pol s s'"
| comes_back:
    "map fst (hp_out s') = map fst (hp_out s) @ [CmdResume r, CmdBroadcast (CtlAdvertise (hp_adv s'))] \<Longrightarrow>
     consistent (hp_inv s') (hp_adv s') \<Longrightarrow>
     status (hp_inv s) r b0 \<Longrightarrow>
     (\<And>r' b. status (hp_inv s') r' b = (if r' = r then \<not> b else status (hp_inv s) r' b)) \<Longrightarrow> hp_change pol s s'"
| adopted:
    "map fst (hp_out s') = map fst (hp_out s) @ [CmdOffer r pol, CmdBroadcast (CtlAdvertise (hp_adv s'))] \<Longrightarrow>
     consistent (hp_inv s') (hp_adv s') \<Longrightarrow>
     (\<And>b. \<not> status (hp_inv s) r b) \<Longrightarrow> is_input r \<Longrightarrow>
     (\<And>r' b. status (hp_inv s') r' b = (if r' = r then \<not> b else status (hp_inv s) r' b)) \<Longrightarrow> hp_change pol s s'"

abbreviation hp_changes :: "policy \<Rightarrow> hp \<Rightarrow> hp \<Rightarrow> bool" where
  "hp_changes pol \<equiv> (hp_change pol)\<^sup>*\<^sup>*"

text \<open>One result per operation: the invariant is kept and the change is one of the four.\<close>

definition refines :: "(resource \<Rightarrow> string) \<Rightarrow> policy \<Rightarrow> hp \<Rightarrow> hp \<Rightarrow> bool" where
  "refines fmt pol s s' \<longleftrightarrow> hp_ok fmt s' \<and> hp_changes pol s s'"

lemma refines_refl: "hp_ok fmt s \<Longrightarrow> refines fmt pol s s"
  by (simp add: refines_def)

lemma refines_trans: "refines fmt pol s s' \<Longrightarrow> (hp_ok fmt s' \<Longrightarrow> refines fmt pol s' s'') \<Longrightarrow> refines fmt pol s s''"
  by (auto simp: refines_def)

lemma status_holds: "holds_at iv p r \<Longrightarrow> \<exists>b. status iv r b"
  by (auto simp: status_def holds_at_def)

lemma status_put:
  assumes "\<And>p'. holds_at iv p' (held_resource h) \<Longrightarrow> p' = p"
    and "\<And>r'. holds_at iv p r' \<Longrightarrow> r' = held_resource h"
  shows "status (iv\<lparr>fds := x, inputs := AList.update p h (inputs iv)\<rparr>) r b \<longleftrightarrow>
    (if r = held_resource h then b = device_gone h else status iv r b)"
proof -
  let ?m = "(map_of (inputs iv))(p \<mapsto> h)"
  have "(\<exists>p' h'. ?m p' = Some h' \<and> held_resource h' = r \<and> device_gone h' = b) \<longleftrightarrow>
    (if r = held_resource h then b = device_gone h
     else \<exists>p' h'. map_of (inputs iv) p' = Some h' \<and> held_resource h' = r \<and> device_gone h' = b)"
  proof (cases "r = held_resource h")
    case True
    have "h' = h" if "?m p' = Some h'" "held_resource h' = r" for p' h'
      using that assms(1) [of p'] True by (cases "p' = p") (auto simp: holds_at_def)
    with True show ?thesis by (metis fun_upd_same)
  next
    case False
    then have "p' \<noteq> p" if "map_of (inputs iv) p' = Some h'" "held_resource h' = r" for p' h'
      using that assms(2) [of r] by (auto simp: holds_at_def)
    with False show ?thesis by (metis fun_upd_apply option.inject)
  qed
  then show ?thesis by (simp add: status_def)
qed

lemma status_unique_put:
  assumes "consistent iv adv" "map_of (inputs iv) p = Some h0" "held_resource h = held_resource h0"
  shows "status (iv\<lparr>fds := x, inputs := AList.update p h (inputs iv)\<rparr>) r b \<longleftrightarrow>
    (if r = held_resource h then b = device_gone h else status iv r b)"
  using assms by (intro status_put) (auto simp: consistent_def holds_at_def)

lemma status_iff:
  assumes "consistent iv adv" "map_of (inputs iv) p = Some h"
  shows "status iv (held_resource h) b \<longleftrightarrow> b = device_gone h"
proof
  assume "status iv (held_resource h) b"
  then obtain p' h' where "map_of (inputs iv) p' = Some h'" "held_resource h' = held_resource h" "device_gone h' = b"
    by (auto simp: status_def)
  moreover from this assms have "p' = p" unfolding consistent_def holds_at_def by blast
  ultimately show "b = device_gone h" using assms(2) by simp
qed (use assms(2) in \<open>auto simp: status_def\<close>)

lemma parked_ok_put:
  assumes "parked_ok fmt iv" "\<And>r. p = park_key fmt r \<Longrightarrow> held_resource h = r"
  shows "parked_ok fmt (iv\<lparr>fds := x, inputs := AList.update p h (inputs iv)\<rparr>)"
  using assms by (auto simp: parked_ok_def)

lemma inventory_wf_take:
  "inventory_wf iv \<Longrightarrow> is_input (held_resource h) \<Longrightarrow>
    inventory_wf (iv\<lparr>fds := AList.update r f (fds iv), inputs := AList.update p h (inputs iv)\<rparr>)"
  "inventory_wf iv \<Longrightarrow> is_input (held_resource h) \<Longrightarrow>
    inventory_wf (iv\<lparr>fds := AList.delete r (fds iv), inputs := AList.update p h (inputs iv)\<rparr>)"
  by (auto simp: inventory_wf_def)

lemma wf_held_input: "inventory_wf iv \<Longrightarrow> map_of (inputs iv) p = Some h \<Longrightarrow> is_input (held_resource h)"
  unfolding inventory_wf_def holds_at_def by blast

lemma fresh_entry_simps [simp]:
  "held_resource (fresh_entry fs p r dv io) = r" "device_gone (fresh_entry fs p r dv io) = False"
  by (simp_all add: fresh_entry_def)

lemma parked_ok_keep:
  assumes "parked_ok fmt iv" "map_of (inputs iv) p = Some h0" "held_resource h = held_resource h0"
  shows "parked_ok fmt (iv\<lparr>fds := x, inputs := AList.update p h (inputs iv)\<rparr>)"
  using assms by (intro parked_ok_put) (auto simp: parked_ok_def holds_at_def)

section \<open>Each operation refines them\<close>

lemma reopen_refines:
  assumes ok: "hp_ok fmt s" and h: "map_of (inputs (hp_inv s)) p = Some h" "\<not> device_gone h"
  shows "refines fmt pol s (snd (reopen fs p (held_resource h) s))"
proof (cases "open_device fs p")
  case None
  with ok show ?thesis by (simp add: reopen_def refines_refl)
next
  case (Some x)
  obtain f dv io where x: "x = (f, dv, io)" by (rule prod_cases3)
  let ?h = "fresh_entry fs p (held_resource h) dv io"
  let ?iv = "(hp_inv s)\<lparr>fds := AList.update (held_resource h) f (fds (hp_inv s)),
    inputs := AList.update p ?h (inputs (hp_inv s))\<rparr>"
  have s': "snd (reopen fs p (held_resource h) s) = s\<lparr>hp_inv := ?iv\<rparr>"
    using Some x by (simp add: reopen_def)
  have "held_resource h \<in> set (hp_adv s)"
    using consistent_entry [OF hp_okD(2) [OF ok] h(1)] h(2) by simp
  then have "consistent ?iv (hp_adv s)"
    by (intro consistent_take [OF hp_okD(2) [OF ok]])
      (use h hp_okD(2) [OF ok] in \<open>auto simp: consistent_def holds_at_def\<close>)
  moreover have "parked_ok fmt ?iv"
    by (rule parked_ok_keep [OF hp_okD(3) [OF ok] h(1)]) simp
  moreover have "inventory_wf ?iv"
    using inventory_wf_take(1) [OF hp_okD(1) [OF ok], of ?h] wf_held_input [OF hp_okD(1) [OF ok] h(1)] by simp
  ultimately have "hp_ok fmt (s\<lparr>hp_inv := ?iv\<rparr>)"
    using ok by (simp add: hp_ok_def)
  moreover have "status ?iv r b = status (hp_inv s) r b" for r b
    using status_unique_put [OF hp_okD(2) [OF ok] h(1), of ?h] status_iff [OF hp_okD(2) [OF ok] h(1)] h(2)
    by auto
  then have "hp_change pol s (s\<lparr>hp_inv := ?iv\<rparr>)"
    by (intro quiet) simp_all
  ultimately show ?thesis by (simp add: refines_def s' r_into_rtranclp)
qed

lemma suspend_refines:
  assumes ok: "hp_ok fmt s" and h: "map_of (inputs (hp_inv s)) p = Some h" "\<not> device_gone h"
  shows "refines fmt pol s (suspend p h s)"
proof -
  let ?r = "held_resource h" and ?h = "h\<lparr>device_gone := True\<rparr>"
  let ?iv = "(hp_inv s)\<lparr>fds := AList.delete ?r (fds (hp_inv s)), inputs := AList.update p ?h (inputs (hp_inv s))\<rparr>"
  have s': "hp_inv (suspend p h s) = ?iv" "hp_adv (suspend p h s) = adv_remove ?r (hp_adv s)"
    and out: "hp_out (suspend p h s) = hp_out s @
      [(CmdSuspend ?r, hp_inv s, adv_remove ?r (hp_adv s)),
       (CmdBroadcast (CtlAdvertise (adv_remove ?r (hp_adv s))), ?iv, adv_remove ?r (hp_adv s))]"
    by (simp_all add: suspend_def Let_def)
  have con: "consistent ?iv (adv_remove ?r (hp_adv s))"
    by (rule consistent_suspend [OF hp_okD(2) [OF ok] h(1)])
  moreover have "inventory_wf ?iv"
    using inventory_wf_take(2) [OF hp_okD(1) [OF ok], of ?h] wf_held_input [OF hp_okD(1) [OF ok] h(1)] by simp
  moreover have "parked_ok fmt ?iv"
    by (rule parked_ok_keep [OF hp_okD(3) [OF ok] h(1)]) simp
  ultimately have "hp_ok fmt (suspend p h s)"
    using ok adv_backed_remove [OF consistent_backed [OF hp_okD(2) [OF ok]]] by (simp add: hp_ok_def s' out)
  moreover have "status ?iv r b = (if r = ?r then b else status (hp_inv s) r b)" for r b
    using status_unique_put [OF hp_okD(2) [OF ok] h(1), of ?h] by simp
  then have "hp_change pol s (suspend p h s)"
    using h con by (intro goes_away [of _ _ ?r]) (simp_all add: s' out status_iff [OF hp_okD(2) [OF ok] h(1)])
  ultimately show ?thesis by (simp add: refines_def r_into_rtranclp)
qed

text \<open>A node of \<open>/dev/input\<close> is never a parking place.\<close>

definition real_path :: "path \<Rightarrow> bool" where
  "real_path p \<longleftrightarrow> p \<noteq> [] \<and> hd p = CHR ''/''"

lemma real_path_not_parked: "real_path p \<Longrightarrow> p \<noteq> park_key fmt r"
  by (auto simp: real_path_def park_key_def)

lemma probe_all_real: "d \<in> set (probe_all fs) \<Longrightarrow> real_path (pd_path d)"
proof -
  assume "d \<in> set (probe_all fs)"
  then obtain ps p where "input_event_paths fs = Inr ps" "p \<in> set ps" "probe_one fs p = Some d"
    by (cases "input_event_paths fs") (auto simp: probe_all_def in_map_filter_iff)
  moreover from this obtain en where "event_path en = Some p"
    by (auto simp: input_event_paths_def in_map_filter_iff split: sum.splits)
  then have "real_path p"
    by (cases en rule: event_path.cases) (auto simp: real_path_def split: if_splits)
  ultimately show ?thesis
    by (auto simp: probe_one_def split: sum.splits option.splits)
qed

text \<open>Opening a device at a node as \<open>r\<close>: the common half of adopting and resuming.\<close>

lemma take_ok:
  assumes ok: "inventory_wf iv" "consistent iv adv" "parked_ok fmt iv" and p: "real_path p" and r: "is_input r"
    and only: "\<And>p'. holds_at iv p' r \<Longrightarrow> p' = p" "\<And>r'. holds_at iv p r' \<Longrightarrow> r' = r"
  shows "let iv' = iv\<lparr>fds := AList.update r f (fds iv), inputs := AList.update p (fresh_entry fs p r dv io) (inputs iv)\<rparr>
    in inventory_wf iv' \<and> consistent iv' (adv_insert r adv) \<and> parked_ok fmt iv' \<and>
      (\<forall>r' b. status iv' r' b = (if r' = r then \<not> b else status iv r' b))"
  unfolding Let_def
proof (intro conjI allI)
  let ?h = "fresh_entry fs p r dv io"
  show "inventory_wf (iv\<lparr>fds := AList.update r f (fds iv), inputs := AList.update p ?h (inputs iv)\<rparr>)"
    by (rule inventory_wf_take(1) [OF ok(1)]) (simp add: r)
  show "consistent (iv\<lparr>fds := AList.update r f (fds iv), inputs := AList.update p ?h (inputs iv)\<rparr>) (adv_insert r adv)"
    by (rule consistent_take [OF ok(2) _ only]) simp_all
  show "parked_ok fmt (iv\<lparr>fds := AList.update r f (fds iv), inputs := AList.update p ?h (inputs iv)\<rparr>)"
    by (rule parked_ok_put [OF ok(3)]) (use real_path_not_parked [OF p] in blast)
  fix r' b
  show "status (iv\<lparr>fds := AList.update r f (fds iv), inputs := AList.update p ?h (inputs iv)\<rparr>) r' b =
      (if r' = r then \<not> b else status iv r' b)"
    using status_put [of iv ?h p "AList.update r f (fds iv)" r' b, unfolded fresh_entry_simps, OF only]
    by (simp only: fresh_entry_simps simp_thms eq_commute [of b])
qed

lemma free_index_fresh:
  assumes "free_index (inputs iv) c = Some i"
  shows "\<not> holds_at iv p (Input (class_resource c i))"
proof
  assume "holds_at iv p (Input (class_resource c i))"
  then obtain h where "(p, h) \<in> set (inputs iv)" "held_resource h = Input (class_resource c i)"
    by (auto simp: holds_at_def dest: map_of_SomeD)
  then have "i \<in> set (List.map_filter (\<lambda>(p, h). resource_index (held_resource h))
      (filter (\<lambda>(p, h). class_of_resource (held_resource h) = Some c) (inputs iv)))"
    by (force simp: in_map_filter_iff)
  with assms show False
    by (auto simp: free_index_def Let_def dest: find_SomeD)
qed

lemma adopt_refines:
  assumes ok: "hp_ok fmt s" and p: "real_path p" "map_of (inputs (hp_inv s)) p = None"
  shows "refines fmt pol s (snd (adopt fs pol p c s))"
proof (cases "\<exists>i f dv io. free_index (inputs (hp_inv s)) c = Some i \<and> open_device fs p = Some (f, dv, io)")
  case False
  then have "snd (adopt fs pol p c s) = s"
    by (auto simp: adopt_def Let_def split: option.splits)
  with ok show ?thesis by (simp add: refines_refl)
next
  case True
  then obtain i f dv io where i: "free_index (inputs (hp_inv s)) c = Some i" "open_device fs p = Some (f, dv, io)"
    by blast
  let ?r = "Input (class_resource c i)" and ?s' = "snd (adopt fs pol p c s)"
  have fresh: "\<not> holds_at (hp_inv s) p' ?r" for p'
    by (rule free_index_fresh [OF i(1)])
  have taken: "let iv' = (hp_inv s)\<lparr>fds := AList.update ?r f (fds (hp_inv s)),
        inputs := AList.update p (fresh_entry fs p ?r dv io) (inputs (hp_inv s))\<rparr>
    in inventory_wf iv' \<and> consistent iv' (adv_insert ?r (hp_adv s)) \<and> parked_ok fmt iv' \<and>
      (\<forall>r' b. status iv' r' b = (if r' = ?r then \<not> b else status (hp_inv s) r' b))"
    by (rule take_ok [OF hp_okD(1-3) [OF ok] p(1)]) (use fresh p(2) in \<open>auto simp: holds_at_def\<close>)
  then have "hp_ok fmt ?s'"
    using ok i consistent_backed by (simp add: hp_ok_def adopt_def Let_def)
  moreover have "\<not> status (hp_inv s) ?r b" for b
    using fresh by (auto simp: status_def holds_at_def)
  then have "hp_change pol s ?s'"
    using taken i by (intro adopted [of _ _ ?r]) (simp_all add: adopt_def Let_def)
  ultimately show ?thesis by (simp add: refines_def r_into_rtranclp)
qed

lemma resume_refines:
  assumes ok: "hp_ok fmt s" and p: "real_path p" and h: "map_of (inputs (hp_inv s)) old_p = Some h"
    and moved: "old_p \<noteq> p \<Longrightarrow> device_gone h \<and> map_of (inputs (hp_inv s)) p = None"
  shows "refines fmt pol s (snd (resume fs old_p p h s))"
proof (cases "open_device fs p")
  case None
  with ok show ?thesis by (simp add: resume_def refines_refl)
next
  case (Some x)
  obtain f dv io where x: "x = (f, dv, io)" by (rule prod_cases3)
  let ?r = "held_resource h" and ?s' = "snd (resume fs old_p p h s)"
  define iv where "iv = (if old_p \<noteq> p then (hp_inv s)\<lparr>inputs := AList.delete old_p (inputs (hp_inv s))\<rparr> else hp_inv s)"
  let ?iv' = "iv\<lparr>fds := AList.update ?r f (fds iv), inputs := AList.update p (fresh_entry fs p ?r dv io) (inputs iv)\<rparr>"
  have inv': "hp_inv ?s' = ?iv'" "hp_adv ?s' = adv_insert ?r (hp_adv s)"
    and out: "hp_out ?s' = hp_out s @ [(CmdResume ?r, ?iv', adv_insert ?r (hp_adv s)),
       (CmdBroadcast (CtlAdvertise (adv_insert ?r (hp_adv s))), ?iv', adv_insert ?r (hp_adv s))]"
    using Some x by (auto simp: resume_def Let_def iv_def)
  have unique: "holds_at (hp_inv s) p' ?r \<Longrightarrow> p' = old_p" for p'
    using hp_okD(2) [OF ok] h unfolding consistent_def holds_at_def by blast
  have iv: "inventory_wf iv" "consistent iv (hp_adv s)" "parked_ok fmt iv"
    using hp_okD(1-3) [OF ok] consistent_forget_gone [OF hp_okD(2) [OF ok] h] moved
    by (auto simp: iv_def parked_ok_def)
  have only: "p' = p" if "holds_at iv p' ?r" for p'
    using that unique [of p'] by (auto simp: iv_def split: if_splits)
  have only': "r' = ?r" if "holds_at iv p r'" for r'
    using that moved h by (auto simp: iv_def holds_at_def split: if_splits)
  note taken = take_ok [OF iv p wf_held_input [OF hp_okD(1) [OF ok] h] only only', where f = f and fs = fs and dv = dv and io = io, unfolded Let_def]
  then have "hp_ok fmt ?s'"
    using ok consistent_backed by (simp add: hp_ok_def inv' out)
  moreover have "status iv r' b = status (hp_inv s) r' b" if "r' \<noteq> ?r" for r' b
    using that h by (auto simp: iv_def status_def; metis option.inject)
  then have "hp_change pol s ?s'"
    using taken h by (intro comes_back [of _ _ ?r "device_gone h"])
      (auto simp: inv' out status_def [of "hp_inv s" ?r])
  ultimately show ?thesis by (simp add: refines_def r_into_rtranclp)
qed

lemma park_refines:
  assumes ok: "hp_ok fmt s" and p: "real_path p" and h: "map_of (inputs (hp_inv s)) p = Some h" "device_gone h"
    and fmt: "inj fmt"
  shows "refines fmt pol s (park fmt p s)" and "map_of (inputs (hp_inv (park fmt p s))) p = None"
proof -
  let ?k = "park_key fmt (held_resource h)"
  let ?iv = "(hp_inv s)\<lparr>inputs := AList.update ?k h (AList.delete p (inputs (hp_inv s)))\<rparr>"
  have s': "park fmt p s = s\<lparr>hp_inv := ?iv\<rparr>"
    using h by (simp add: park_def)
  have k: "?k \<noteq> p" using real_path_not_parked [OF p] by metis
  then show "map_of (inputs (hp_inv (park fmt p s))) p = None" by (simp add: s')
  have free: "map_of (inputs (hp_inv s)) ?k = None"
  proof (rule ccontr)
    assume "map_of (inputs (hp_inv s)) ?k \<noteq> None"
    then have "holds_at (hp_inv s) ?k (held_resource h)"
      using hp_okD(3) [OF ok] by (auto simp: parked_ok_def holds_at_def)
    with hp_okD(2) [OF ok] h k show False unfolding consistent_def holds_at_def by blast
  qed
  have look: "map_of (inputs ?iv) = ((map_of (inputs (hp_inv s)))(p := None))(?k \<mapsto> h)" by simp
  have "consistent ?iv (hp_adv s)"
    by (rule consistent_move_gone [OF hp_okD(2) [OF ok] h]) (simp add: free)
  moreover have "inventory_wf ?iv"
    using hp_okD(1) [OF ok] wf_held_input [OF hp_okD(1) [OF ok] h(1)] by (auto simp: inventory_wf_def holds_at_def)
  moreover have "parked_ok fmt ?iv"
    using hp_okD(3) [OF ok] fmt by (auto simp: parked_ok_def holds_at_def park_key_def dest: injD split: if_splits)
  ultimately have "hp_ok fmt (s\<lparr>hp_inv := ?iv\<rparr>)"
    using ok by (simp add: hp_ok_def)
  moreover have "status ?iv r b = status (hp_inv s) r b" for r b
  proof -
    have "(\<exists>p' h'. map_of (inputs ?iv) p' = Some h' \<and> Q h') = (\<exists>p' h'. map_of (inputs (hp_inv s)) p' = Some h' \<and> Q h')" for Q
      unfolding look using h free k by (metis fun_upd_apply option.inject option.discI)
    then show ?thesis by (simp add: status_def)
  qed
  then have "hp_change pol s (s\<lparr>hp_inv := ?iv\<rparr>)"
    by (intro quiet) simp_all
  ultimately show "refines fmt pol s (park fmt p s)"
    by (simp add: refines_def s' r_into_rtranclp)
qed

section \<open>A pass refines them\<close>

lemma suspended_peer_SomeD:
  assumes "suspended_peer fs index c = Some (p, h)"
  shows "(p, h) \<in> set index \<and> device_gone h \<and> class_of_resource (held_resource h) = Some c \<and> \<not> fs_exists fs p"
proof -
  let ?cs = "filter (\<lambda>(p, h). device_gone h \<and> class_of_resource (held_resource h) = Some c \<and> \<not> fs_exists fs p) index"
  let ?sorted = "sort_key (\<lambda>(p, h). resource_index (held_resource h)) ?cs"
  from assms have "(p, h) \<in> set ?sorted"
    unfolding suspended_peer_def by (cases ?sorted) simp_all
  then show ?thesis by simp
qed

lemma park_adopt_refines:
  assumes "hp_ok fmt s" "real_path p" "map_of (inputs (hp_inv s)) p = Some h" "device_gone h" "inj fmt"
  shows "refines fmt pol s (snd (adopt fs pol p c (park fmt p s)))"
  by (rule refines_trans [OF park_refines(1) [OF assms]])
    (rule adopt_refines [OF _ assms(2) park_refines(2) [OF assms]])

lemma suspend_lookup:
  "map_of (inputs (hp_inv (suspend p h s))) = (map_of (inputs (hp_inv s)))(p \<mapsto> h\<lparr>device_gone := True\<rparr>)"
  by (simp add: suspend_def Let_def)

lemma replace_device_refines:
  assumes ok: "hp_ok fmt s" and p: "real_path (pd_path d)" and fmt: "inj fmt"
    and h: "map_of (inputs (hp_inv s)) (pd_path d) = Some h" "\<not> device_gone h"
  shows "refines fmt pol s (snd (replace_device fs fmt pol d h s))"
proof -
  have "refines fmt pol s (snd (adopt fs pol (pd_path d) (pd_class d) (park fmt (pd_path d) (suspend (pd_path d) h s))))"
    by (rule refines_trans [OF suspend_refines [OF ok h]],
        rule park_adopt_refines [OF _ p _ _ fmt, where h = "h\<lparr>device_gone := True\<rparr>"])
      (simp_all add: suspend_lookup)
  then show ?thesis
    using reopen_refines [OF ok h] resume_refines [OF ok p h(1)] by (simp add: replace_device_def)
qed

lemma reconcile_device_refines:
  assumes ok: "hp_ok fmt s" and p: "real_path (pd_path d)" and fmt: "inj fmt"
  shows "refines fmt pol s (snd (reconcile_device fs fmt pol d s))"
proof (cases "map_of (inputs (hp_inv s)) (pd_path d)")
  case (Some h)
  then show ?thesis
    using ok resume_refines [OF ok p Some] park_adopt_refines [OF ok p Some _ fmt] reopen_refines [OF ok Some]
      replace_device_refines [OF ok p fmt Some]
    by (auto simp: reconcile_device_def refines_refl)
next
  case None
  show ?thesis
  proof (cases "suspended_peer fs (inputs (hp_inv s)) (pd_class d)")
    case Nobody: None
    with None adopt_refines [OF ok p None] show ?thesis by (simp add: reconcile_device_def)
  next
    case (Some x)
    obtain old_p h where x: "x = (old_p, h)" by fastforce
    with suspended_peer_SomeD Some have peer: "(old_p, h) \<in> set (inputs (hp_inv s))" "device_gone h" by blast+
    then have "map_of (inputs (hp_inv s)) old_p = Some h"
      using hp_okD(1) [OF ok] by (simp add: inventory_wf_def)
    from resume_refines [OF ok p this] peer None Some x show ?thesis
      by (simp add: reconcile_device_def)
  qed
qed

lemma reconcile_devices_refines:
  assumes "hp_ok fmt s" "\<forall>d\<in>set ds. real_path (pd_path d)" "inj fmt"
  shows "refines fmt pol s (snd (reconcile_devices fs fmt pol ds s))"
  using assms
proof (induction ds arbitrary: s)
  case (Cons d ds)
  have "refines fmt pol s (snd (reconcile_device fs fmt pol d s))"
    using Cons.prems by (intro reconcile_device_refines) simp_all
  then show ?case
    using Cons by (auto simp: Let_def case_prod_beta intro: refines_trans)
qed (simp add: refines_refl)

lemma suspend_missing_refines:
  assumes "hp_ok fmt s" "distinct (map fst es)" "\<forall>(p, h)\<in>set es. map_of (inputs (hp_inv s)) p = Some h"
  shows "refines fmt pol s (suspend_missing fs present es s)"
  using assms
proof (induction fs present es s rule: suspend_missing.induct)
  case (2 fs present p h es s)
  show ?case
  proof (cases "device_gone h \<or> p \<in> set present \<or> (case held_device h of None \<Rightarrow> False | Some dvc \<Rightarrow> fs_exists fs dvc)")
    case True
    with 2 show ?thesis by auto
  next
    case False
    have "refines fmt pol s (suspend p h s)"
      using 2(4,6) False by (intro suspend_refines) auto
    moreover have "\<forall>(p', h')\<in>set es. map_of (inputs (hp_inv (suspend p h s))) p' = Some h'"
      using 2(5,6) by (force simp: suspend_lookup)
    then have "refines fmt pol (suspend p h s) (suspend_missing fs present es (suspend p h s))"
      if "hp_ok fmt (suspend p h s)"
      using 2(3) [OF _ _ that] 2(5) False by simp
    ultimately have "refines fmt pol s (suspend_missing fs present es (suspend p h s))"
      by (rule refines_trans)
    with False show ?thesis by simp
  qed
qed (simp add: refines_refl)

lemma reconcile_refines:
  assumes "hp_ok fmt s" "inj fmt"
  shows "refines fmt pol s (snd (reconcile fs fmt pol s))"
proof -
  let ?s1 = "snd (reconcile_devices fs fmt pol (probe_all fs) s)"
  have "refines fmt pol s ?s1"
    by (rule reconcile_devices_refines [OF assms(1) _ assms(2)]) (simp add: probe_all_real)
  moreover have "refines fmt pol ?s1 (suspend_missing fs (map pd_path (probe_all fs)) (inputs (hp_inv ?s1)) ?s1)"
    if "hp_ok fmt ?s1"
    using hp_okD(1) [OF that] by (intro suspend_missing_refines [OF that]) (auto simp: inventory_wf_def)
  ultimately show ?thesis
    by (auto simp: reconcile_def Let_def case_prod_beta intro: refines_trans)
qed

end
