(* ===== verification/Engine_Absence.thy ===== *)
theory Engine_Absence
  imports Engine_Frames
begin

text \<open>
  Which devices the engine takes for absent: the \<open>suspended\<close> flag of every slot, as a map that every
  command updates on its own.  Suspend, Resume and Offer set it, nothing else touches it, whatever
  the clients do.  The agreement of the engine with the reconciler is stated over this map.
\<close>


section \<open>The suspended flag of every slot\<close>

definition absence :: "engine \<Rightarrow> resource \<Rightarrow> bool option" where
  "absence e r = map_option suspended (map_of (slots e) r)"

fun absence_after :: "engine_command \<Rightarrow> (resource \<Rightarrow> bool option) \<Rightarrow> resource \<Rightarrow> bool option" where
  "absence_after (CmdSuspend r) m = (if m r = None then m else m(r \<mapsto> True))"
| "absence_after (CmdResume r) m = (if m r = None then m else m(r \<mapsto> False))"
| "absence_after (CmdOffer r p) m = (if m r = None then m(r \<mapsto> False) else m)"
| "absence_after _ m = m"

section \<open>What each command does to it\<close>

lemma absence_put_slot [simp]: "absence (put_slot r s e) = (absence e)(r \<mapsto> suspended s)"
  by (auto simp: absence_def)

lemma absence_reg [simp]: "absence (e\<lparr>control_reg := reg\<rparr>) = absence e"
  by (simp add: absence_def fun_eq_iff)

lemma absence_same: "map_of (slots e) r = Some s \<Longrightarrow> suspended s = b \<Longrightarrow> (absence e)(r \<mapsto> b) = absence e"
  by (auto simp: absence_def fun_eq_iff)

lemma absence_each_slot:
  assumes "\<And>r s. suspended (fst (f r s)) = suspended s"
  shows "absence (fst (each_slot f e)) = absence e"
  using assms by (auto simp: absence_def fun_eq_iff option.map_comp comp_def)

lemma absence_revoke_held: "absence (fst (revoke_held ok now c rs e)) = absence e"
proof (induction rs arbitrary: e)
  case (Cons r rs)
  then show ?case
    by (auto simp: Let_def case_prod_beta absence_same split: option.splits)
qed simp

lemma absence_release_seat_inputs [simp]: "absence (fst (release_seat_inputs ok now c e)) = absence e"
  by (simp add: release_seat_inputs_def absence_revoke_held)

lemma absence_release_all_seats [simp]: "absence (fst (release_all_seats ok now cs e)) = absence e"
  by (induction cs arbitrary: e) (simp_all add: Let_def case_prod_beta)

lemma absence_queue_waiter:
  assumes "map_of (slots e) r = Some s"
  shows "absence (fst (snd (queue_waiter ok now c r st s e))) = absence e"
  using absence_same [OF assms refl]
  by (auto simp: queue_waiter_def Let_def case_prod_beta split: option.splits)

lemma absence_acquire [simp]: "absence (fst (snd (acquire_one ok now c r e))) = absence e"
  using absence_queue_waiter absence_same
  by (auto simp: acquire_one_def Let_def split: option.splits acquire_decision.splits)

lemma release_slot_suspended [simp]: "suspended (fst (release_slot ok reg c r s)) = suspended s"
  by (simp add: release_slot_def Let_def)

lemma absence_release [simp]: "absence (fst (release_one ok c r e)) = absence e"
  using absence_same by (auto simp: release_one_def case_prod_beta split: option.splits)

lemma absence_timeout [simp]: "absence (fst (handle_timeout ok now e)) = absence e"
  by (simp add: handle_timeout_def Let_def case_prod_beta)
    (rule absence_each_slot, simp add: reclaim_slot_def force_reclaim_def)

lemma suspended_handle_suspend:
  "map_option suspended (map_of (slots (handle_suspend r e)) r') =
    (if r' = r \<and> map_of (slots e) r \<noteq> None then Some True else map_option suspended (map_of (slots e) r'))"
  by (auto simp: handle_suspend_def split: option.splits)

lemma suspended_handle_resume:
  "map_option suspended (map_of (slots (fst (handle_resume ok r e))) r') =
    (if r' = r \<and> map_of (slots e) r \<noteq> None then Some False else map_option suspended (map_of (slots e) r'))"
proof (cases "map_of (slots e) r")
  case (Some s)
  then show ?thesis
    by (cases "suspended s"; cases "owner s")
      (auto simp: handle_resume_def Let_def split: option.splits)
qed (simp add: handle_resume_def)

lemma suspended_handle_offer:
  "map_option suspended (map_of (slots (handle_offer r p e)) r') =
    (if r' = r \<and> map_of (slots e) r = None then Some False else map_option suspended (map_of (slots e) r'))"
  by (simp add: handle_offer_def new_slot_def)

lemma absence_command:
  "absence (fst (snd (handle_command ok now cmd e))) = absence_after cmd (absence e)"
proof (cases cmd)
  case (CmdDisconnected c)
  have "absence (fst (each_slot (disconnect_slot ok reg c) e')) = absence e'" for reg e'
    by (rule absence_each_slot) (simp add: disconnect_slot_def Let_def)
  with CmdDisconnected show ?thesis by (simp add: handle_disconnected_def Let_def)
next
  case (CmdRelease c r)
  then show ?thesis by (simp add: handle_release_cmd_def Let_def case_prod_beta)
next
  case (CmdSuspend r)
  then show ?thesis
    by (auto simp: absence_def suspended_handle_suspend fun_eq_iff)
next
  case (CmdResume r)
  then show ?thesis
    by (auto simp: absence_def suspended_handle_resume fun_eq_iff)
next
  case (CmdOffer r p)
  then show ?thesis
    by (auto simp: absence_def suspended_handle_offer fun_eq_iff)
qed (simp_all add: case_prod_beta Let_def)

section \<open>Lists that are current when they are handled\<close>

text \<open>A pushed list is current if the inputs it names are those with a slot whose device is present.\<close>

definition current_list :: "(resource \<Rightarrow> bool option) \<Rightarrow> resource list \<Rightarrow> bool" where
  "current_list a rs \<longleftrightarrow> (\<forall>r. is_input r \<longrightarrow> (r \<in> set rs \<longleftrightarrow> a r = Some False))"

fun lists_current :: "(resource \<Rightarrow> bool option) \<Rightarrow> engine_command list \<Rightarrow> bool" where
  "lists_current a [] \<longleftrightarrow> True"
| "lists_current a (CmdBroadcast (CtlAdvertise rs) # cmds) \<longleftrightarrow> current_list a rs \<and> lists_current a cmds"
| "lists_current a (cmd # cmds) \<longleftrightarrow> lists_current (absence_after cmd a) cmds"

lemma lists_current_append [simp]:
  "lists_current a (xs @ ys) \<longleftrightarrow> lists_current a xs \<and> lists_current (fold absence_after xs a) ys"
  by (induction a xs rule: lists_current.induct) simp_all

end
