(* ===== verification/Daemon.thy ===== *)
theory Daemon
  imports Engine_Model
begin

text \<open>
  The entry points (\<open>src/main.rs\<close>, \<open>src/server.rs\<close>): the policy from the environment, the policy
  map the engine is started with, and the accept loop with the identities it hands out.
  Parameters: the value of \<open>SGC_POLICY\<close>, and what the listener and the kernel's peer credentials
  call answer.
\<close>

section \<open>Configuration\<close>

text \<open>\<open>None\<close> is a variable that is unset or not text; the error carries the text that was refused.\<close>

definition policy_from_env :: "string option \<Rightarrow> string + policy" where
  "policy_from_env var =
     (case var of
        None \<Rightarrow> Inr FairQueue
      | Some value \<Rightarrow> policy_from_str value)"

text \<open>One policy for every advertised resource.\<close>

definition main_policies :: "policy \<Rightarrow> advertised \<Rightarrow> (resource \<times> policy) list" where
  "main_policies pol adv = fold (\<lambda>r al. AList.update r pol al) (adv_snapshot adv) []"

section \<open>The accept loop\<close>

text \<open>A connection comes with the peer's process id, or with the error of reading it.\<close>

datatype accept_event =
  Accepted "nat + nat"
| AcceptError nat

datatype server_status = Serving | Stopped | Failed nat

text \<open>The identities of the connections that were given a task, in order.\<close>

fun accept_loop :: "u64 \<Rightarrow> accept_event list \<Rightarrow> server_status \<times> client_id list" where
  "accept_loop next_id [] = (Serving, [])"
| "accept_loop next_id (Accepted (Inl e) # evs) = (Failed e, [])"
| "accept_loop next_id (Accepted (Inr pid) # evs) =
     (let (c, next') = alloc_client_id next_id; (st, cs) = accept_loop next' evs in (st, c # cs))"
| "accept_loop next_id (AcceptError e # evs) = (Stopped, [])"

text \<open>\<open>run\<close>: the address, the bind, the nonblocking mode and the wrapping of the listener, then the loop.\<close>

definition server_run ::
  "nat + unit \<Rightarrow> nat + unit \<Rightarrow> nat + unit \<Rightarrow> nat + unit \<Rightarrow> accept_event list \<Rightarrow> server_status \<times> client_id list" where
  "server_run addr bound nonblocking wrapped evs =
     (case addr of Inl e \<Rightarrow> (Failed e, []) | Inr _ \<Rightarrow>
      (case bound of Inl e \<Rightarrow> (Failed e, []) | Inr _ \<Rightarrow>
       (case nonblocking of Inl e \<Rightarrow> (Failed e, []) | Inr _ \<Rightarrow>
        (case wrapped of Inl e \<Rightarrow> (Failed e, []) | Inr _ \<Rightarrow> accept_loop NEXT_CLIENT_ID_init evs))))"

lemma server_run_ids:
  "set (snd (server_run addr bound nonblocking wrapped evs)) \<subseteq> set (snd (accept_loop NEXT_CLIENT_ID_init evs)) \<and>
    (distinct (snd (accept_loop NEXT_CLIENT_ID_init evs)) \<longrightarrow> distinct (snd (server_run addr bound nonblocking wrapped evs)))"
  by (simp add: server_run_def split: sum.splits)

lemma accept_loop_ids:
  "\<exists>m\<le>length evs. snd (accept_loop next_id evs) = map (\<lambda>i. next_id + of_nat i) [0..<m]"
proof (induction next_id evs rule: accept_loop.induct)
  case (3 next_id pid evs)
  have "alloc_client_id next_id = (next_id, next_id + 1)" by (simp add: alloc_client_id_def)
  from 3 [OF this [symmetric] refl] obtain m where
    m: "m \<le> length evs" "snd (accept_loop (next_id + 1) evs) = map (\<lambda>i. next_id + 1 + of_nat i) [0..<m]"
    by blast
  have "map (\<lambda>i. next_id + of_nat i) [0..<Suc m] = next_id # map (\<lambda>i. next_id + 1 + of_nat i) [0..<m]"
    by (simp add: map_upt_Suc add.assoc del: upt_Suc)
  with m show ?case
    by (intro exI [of _ "Suc m"]) (simp add: alloc_client_id_def case_prod_beta del: upt_Suc)
qed auto

lemma of_nat_u64_eq: "i < 2 ^ 64 \<Longrightarrow> j < 2 ^ 64 \<Longrightarrow> (of_nat i :: u64) = of_nat j \<longleftrightarrow> i = j"
  by (simp add: word_of_nat_eq_iff take_bit_nat_eq_self)

text \<open>C32. Client identities are never reused and never 0: as long as fewer than 2 to the 64th connections
  have been accepted, every connection has an identity of its own, different from the sentinel 0.\<close>

theorem client_ids_unique:
  assumes "length evs < 2 ^ 64"
  shows "distinct (snd (server_run addr bound nonblocking wrapped evs)) \<and>
    0 \<notin> set (snd (server_run addr bound nonblocking wrapped evs))"
proof -
  obtain m where m: "m \<le> length evs"
    "snd (accept_loop NEXT_CLIENT_ID_init evs) = map (\<lambda>i. of_nat (Suc i)) [0..<m]"
    using accept_loop_ids [of evs NEXT_CLIENT_ID_init] by (auto simp: NEXT_CLIENT_ID_init_def)
  have bound: "Suc i < 2 ^ 64" if "i < m" for i
    using that m(1) assms by linarith
  have "(of_nat (Suc i) :: u64) = of_nat (Suc j) \<longleftrightarrow> i = j" if "i < m" "j < m" for i j
    by (simp only: of_nat_u64_eq [OF bound [OF that(1)] bound [OF that(2)]] nat.inject)
  then have "inj_on (\<lambda>i. of_nat (Suc i) :: u64) {0..<m}"
    by (intro inj_onI) (simp only: atLeastLessThan_iff)
  moreover have "(of_nat (Suc i) :: u64) \<noteq> 0" if "i < m" for i
  proof -
    have "(0::nat) < 2 ^ 64" by simp
    note of_nat_u64_eq [OF bound [OF that] this]
    then have "(of_nat (Suc i) :: u64) \<noteq> of_nat 0" by (metis nat.distinct(1))
    then show ?thesis unfolding semiring_1_class.of_nat_0 .
  qed
  then have "0 \<notin> set (map (\<lambda>i. of_nat (Suc i) :: u64) [0..<m])"
    by (auto simp del: of_nat_Suc)
  ultimately have "distinct (snd (accept_loop NEXT_CLIENT_ID_init evs))" "0 \<notin> set (snd (accept_loop NEXT_CLIENT_ID_init evs))"
    unfolding m(2) by (simp_all only: distinct_map set_upt distinct_upt simp_thms)
  then show ?thesis using server_run_ids [of addr bound nonblocking wrapped evs] by blast
qed

theorem client_ids_unique_witness:
  "server_run (Inr ()) (Inr ()) (Inr ()) (Inr ()) [Accepted (Inr 70), Accepted (Inr 71), AcceptError 9] = (Stopped, [1, 2]) \<and>
    distinct (snd (server_run (Inr ()) (Inr ()) (Inr ()) (Inr ()) [Accepted (Inr 70), Accepted (Inr 71), AcceptError 9]))"
  using client_ids_unique [of "[Accepted (Inr 70), Accepted (Inr 71), AcceptError 9]" "Inr ()" "Inr ()" "Inr ()" "Inr ()"]
  by (simp add: server_run_def alloc_client_id_def NEXT_CLIENT_ID_init_def)

end
