(* ===== verification/Hotplug_Properties.thy ===== *)
theory Hotplug_Properties
  imports Hotplug_Invariants Engine_Absence Daemon
begin

text \<open>
  What the reconciler guarantees: consistency from startup through every pass, names that are never
  lost, commands that are sent when the state they rely on is in place, an engine whose suspended
  slots are exactly the names whose device is away, and a bounded number of passes per wake.
\<close>

section \<open>From startup through every pass\<close>

lemma open_discovered_keys:
  "holds_at (fst (open_discovered fs ds iv adv)) p r \<Longrightarrow> (\<exists>r'. holds_at iv p r') \<or> p \<in> dd_path ` set ds"
proof (induction fs ds iv adv rule: open_discovered.induct)
  case (2 fs d ds iv adv)
  show ?case
  proof (cases "open_device fs (dd_path d)")
    case None
    with 2 show ?thesis by auto
  next
    case (Some x)
    obtain f dv io where x: "x = (f, dv, io)" by (rule prod_cases3)
    with 2(2) [OF Some x [symmetric] refl refl] 2(3) Some show ?thesis
      by (auto simp: Let_def split: if_splits)
  qed
qed auto

lemma startup_keys_real:
  assumes "open_resources K k fb fs = (iv, adv, k')" "holds_at iv p r"
  shows "real_path p"
proof -
  let ?f = "fbdev_open fb \<lparr>fds = [], drm = [], inputs = []\<rparr> []"
  obtain dr adv2 where "iv = fst (open_discovered fs (discover fs) ((fst ?f)\<lparr>drm := dr\<rparr>) adv2)"
    using assms(1) by (auto simp: open_resources_def input_open_devices_def Let_def case_prod_beta)
  moreover have "\<not> holds_at ((fst ?f)\<lparr>drm := dr\<rparr>) p r'" for r'
    by (simp add: fbdev_open_def holds_at_def split: sum.splits)
  ultimately have "p \<in> dd_path ` set (discover fs)"
    using open_discovered_keys assms(2) by blast
  then have "p \<in> set (map dd_path (discover fs))" by simp
  then have "p \<in> set (map pd_path (probe_all fs))"
    by (simp only: discover_def assign_indices_paths)
  then show ?thesis using probe_all_real by auto
qed

definition startup_hp :: "inventory \<Rightarrow> advertised \<Rightarrow> hp" where
  "startup_hp iv adv = \<lparr>hp_inv = iv, hp_adv = adv, hp_out = []\<rparr>"

lemma startup_hp_ok:
  assumes "open_resources K k fb fs = (iv, adv, k')" "distinct (map pd_path (probe_all fs))"
    and "\<forall>c. length (filter (\<lambda>p. pd_class p = c) (probe_all fs)) \<le> 256"
  shows "hp_ok fmt (startup_hp iv adv)"
proof -
  have "parked_ok fmt iv"
    unfolding parked_ok_def using startup_keys_real [OF assms(1)] real_path_not_parked by blast
  then show ?thesis
    using open_resources_consistent [OF assms(1,2) discover_resources_distinct [OF assms(3)]]
    by (simp add: hp_ok_def startup_hp_def)
qed

text \<open>The passes of a run, each with the file system as it was then.\<close>

fun passes :: "(resource \<Rightarrow> string) \<Rightarrow> policy \<Rightarrow> fs_view list \<Rightarrow> hp \<Rightarrow> hp" where
  "passes fmt pol [] s = s"
| "passes fmt pol (fs # fss) s = passes fmt pol fss (snd (reconcile fs fmt pol s))"

lemma passes_refines:
  "hp_ok fmt s \<Longrightarrow> inj fmt \<Longrightarrow> refines fmt pol s (passes fmt pol fss s)"
proof (induction fss arbitrary: s)
  case (Cons fs fss)
  then show ?case
    by (auto intro: refines_trans reconcile_refines)
qed (simp add: refines_refl)

text \<open>C22. The fd table, the input index and the advertised list are consistent at all times between
  passes: after startup and after any number of reconciler passes, whatever the file system looked
  like at each of them, the consistency checker reports nothing.\<close>

theorem always_consistent:
  assumes "open_resources K k fb fs = (iv, adv, k')" "distinct (map pd_path (probe_all fs))"
    and "\<forall>c. length (filter (\<lambda>p. pd_class p = c) (probe_all fs)) \<le> 256" "inj fmt"
    and "s = passes fmt pol fss (startup_hp iv adv)"
  shows "check_consistency (fds (hp_inv s)) (inputs (hp_inv s)) (hp_adv s) = []"
proof -
  have "hp_ok fmt s"
    using passes_refines [OF startup_hp_ok [OF assms(1-3)] assms(4)] assms(5) by (simp add: refines_def)
  then show ?thesis by (simp add: hp_ok_def checker_decides)
qed

text \<open>A debug format with the shape the derived one has.\<close>

fun show_resource :: "resource \<Rightarrow> string" where
  "show_resource Fbdev = ''Fbdev''"
| "show_resource (Drm c) = ''Drm'' @ show_u8 c"
| "show_resource (Input (Mouse i)) = ''Input(Mouse'' @ show_u8 i"
| "show_resource (Input (Keyboard i)) = ''Input(Keyboard'' @ show_u8 i"
| "show_resource (Input (Touch i)) = ''Input(Touch'' @ show_u8 i"

lemma inj_show_resource: "inj show_resource"
proof (rule injI)
  fix r r' assume "show_resource r = show_resource r'"
  then show "r = r'"
    by (cases r rule: show_resource.cases; cases r' rule: show_resource.cases)
      (simp_all add: show_u8_inject)
qed

definition demo_fs_unplugged :: fs_view where
  "demo_fs_unplugged = demo_fs\<lparr>fs_read_dir := \<lambda>_. Inr [Inr (Some ''event1'')], fs_exists := \<lambda>_. False\<rparr>"

definition demo_start :: hp where
  "demo_start = (let (iv, adv, k) = open_resources toy_kernel (20, []) (Inr 3) demo_fs in startup_hp iv adv)"

definition demo_pass :: hp where
  "demo_pass = passes show_resource FairQueue [demo_fs_unplugged] demo_start"

lemma demo_pass_adv: "hp_adv demo_pass = [Fbdev, Input (Keyboard 0)]"
  by code_simp

theorem always_consistent_witness:
  "check_consistency (fds (hp_inv demo_pass)) (inputs (hp_inv demo_pass)) (hp_adv demo_pass) = [] \<and>
    hp_adv demo_pass = [Fbdev, Input (Keyboard 0)]"
proof -
  obtain iv adv k' where eq: "open_resources toy_kernel (20, []) (Inr 3) demo_fs = (iv, adv, k')"
    by (rule prod_cases3)
  have "demo_pass = passes show_resource FairQueue [demo_fs_unplugged] (startup_hp iv adv)"
    by (simp add: demo_pass_def demo_start_def eq)
  from always_consistent [OF eq _ _ inj_show_resource this] show ?thesis
    by (simp add: demo_probe_all demo_pass_adv)
qed

section \<open>Names are kept\<close>

lemma hp_change_keeps: "hp_change pol s s' \<Longrightarrow> status (hp_inv s) r b \<Longrightarrow> \<exists>b'. status (hp_inv s') r b'"
  by (cases rule: hp_change.cases) (assumption | metis (full_types))+

lemma hp_changes_keep: "hp_changes pol s s' \<Longrightarrow> status (hp_inv s) r b \<Longrightarrow> \<exists>b'. status (hp_inv s') r b'"
proof (induction arbitrary: b rule: rtranclp_induct)
  case (step t u)
  then show ?case using hp_change_keeps by blast
qed blast

text \<open>A name that is held is never lost: a pass keeps every resource of the input index in the
  index, so the client that holds a device that went away finds it again under the same name.\<close>

theorem reconcile_keeps_names:
  assumes "hp_ok fmt s" "inj fmt" "status (hp_inv s) r b"
  shows "\<exists>b'. status (hp_inv (snd (reconcile fs fmt pol s))) r b'"
  using reconcile_refines [OF assms(1,2), of pol fs] hp_changes_keep assms(3)
  by (auto simp: refines_def)

lemma demo_start_ok: "hp_ok show_resource demo_start"
proof -
  obtain iv adv k' where eq: "open_resources toy_kernel (20, []) (Inr 3) demo_fs = (iv, adv, k')"
    by (rule prod_cases3)
  from startup_hp_ok [OF eq] show ?thesis
    by (simp add: demo_probe_all demo_start_def eq)
qed

theorem reconcile_keeps_names_witness:
  "\<exists>b. status (hp_inv (snd (reconcile demo_fs_unplugged show_resource FairQueue demo_start))) (Input (Mouse 0)) b"
proof -
  have "map_of (inputs (hp_inv demo_start)) ''/dev/input/event0'' =
      Some \<lparr>held_resource = Input (Mouse 0), dev = 5, ino = 65, held_device = Some ''/sys/class/input/event0/device'',
        device_gone = False\<rparr>"
    by code_simp
  then have "status (hp_inv demo_start) (Input (Mouse 0)) False"
    by (force simp: status_def)
  from reconcile_keeps_names [OF demo_start_ok inj_show_resource this] show ?thesis .
qed

section \<open>The order of the steps\<close>

text \<open>Every command is sent when what it relies on is in place: a Resume or an Offer when the
  resource has a descriptor to grant and is advertised, a Suspend when it is no longer advertised,
  each when every advertised input has a descriptor, and a pushed list is the advertised list of a
  consistent state; nothing else is sent.\<close>

theorem commands_are_timely:
  assumes "hp_ok fmt s" "inj fmt"
  shows "list_all timely (hp_out (snd (reconcile fs fmt pol s)))"
  using reconcile_refines [OF assms, of pol fs] by (simp add: refines_def hp_ok_def)

theorem commands_are_timely_witness:
  "map fst (hp_out (snd (reconcile demo_fs_unplugged show_resource FairQueue demo_start))) =
     [CmdSuspend (Input (Mouse 0)), CmdBroadcast (CtlAdvertise [Fbdev, Input (Keyboard 0), Input (Mouse 1)]),
      CmdSuspend (Input (Mouse 1)), CmdBroadcast (CtlAdvertise [Fbdev, Input (Keyboard 0)])] \<and>
   list_all timely (hp_out (snd (reconcile demo_fs_unplugged show_resource FairQueue demo_start)))"
proof
  show "map fst (hp_out (snd (reconcile demo_fs_unplugged show_resource FairQueue demo_start))) =
     [CmdSuspend (Input (Mouse 0)), CmdBroadcast (CtlAdvertise [Fbdev, Input (Keyboard 0), Input (Mouse 1)]),
      CmdSuspend (Input (Mouse 1)), CmdBroadcast (CtlAdvertise [Fbdev, Input (Keyboard 0)])]"
    by code_simp
qed (rule commands_are_timely [OF demo_start_ok inj_show_resource])

section \<open>The engine stays in step\<close>

text \<open>An input has a slot exactly when it has an index entry, suspended exactly when the device is gone.\<close>

definition in_step :: "engine \<Rightarrow> inventory \<Rightarrow> bool" where
  "in_step e iv \<longleftrightarrow>
     (\<forall>r. is_input r \<longrightarrow>
        (case map_of (slots e) r of
           None \<Rightarrow> \<forall>b. \<not> status iv r b
         | Some sl \<Rightarrow> \<forall>b. status iv r b \<longleftrightarrow> b = suspended sl))"

fun feed :: "send_ok \<Rightarrow> instant \<Rightarrow> engine_command list \<Rightarrow> engine \<Rightarrow> engine" where
  "feed ok now [] e = e"
| "feed ok now (cmd # cmds) e = feed ok now cmds (fst (snd (handle_command ok now cmd e)))"

lemma feed_append [simp]: "feed ok now (xs @ ys) e = feed ok now ys (feed ok now xs e)"
  by (induction xs arbitrary: e) simp_all

lemma in_step_alt:
  "in_step e iv \<longleftrightarrow> (\<forall>r b. is_input r \<longrightarrow> (status iv r b \<longleftrightarrow> map_option suspended (map_of (slots e) r) = Some b))"
proof -
  have "(case map_of (slots e) r of None \<Rightarrow> \<forall>b. \<not> status iv r b | Some sl \<Rightarrow> \<forall>b. status iv r b \<longleftrightarrow> b = suspended sl) \<longleftrightarrow>
      (\<forall>b. status iv r b \<longleftrightarrow> map_option suspended (map_of (slots e) r) = Some b)" for r
    by (cases "map_of (slots e) r") auto
  then show ?thesis by (simp only: in_step_def) blast
qed

text \<open>The same over the engine's absence map, which is what the commands of a pass act on.\<close>

definition tracks :: "(resource \<Rightarrow> bool option) \<Rightarrow> inventory \<Rightarrow> bool" where
  "tracks a iv \<longleftrightarrow> (\<forall>r b. is_input r \<longrightarrow> (status iv r b \<longleftrightarrow> a r = Some b))"

lemma in_step_tracks: "in_step e iv \<longleftrightarrow> tracks (absence e) iv"
  by (simp add: in_step_alt tracks_def absence_def)

lemma absence_feed: "absence (feed ok now cmds e) = fold absence_after cmds (absence e)"
  by (induction cmds arbitrary: e) (simp_all add: absence_command)

lemma consistent_live: "consistent iv adv \<Longrightarrow> is_input r \<Longrightarrow> r \<in> set adv \<longleftrightarrow> status iv r False"
  unfolding consistent_def status_def holds_at_def by blast

lemma tracks_current: "tracks a iv \<Longrightarrow> consistent iv adv \<Longrightarrow> current_list a adv"
  by (simp add: current_list_def tracks_def consistent_live)

lemma hp_change_tracks:
  assumes "hp_change pol s s'" "tracks a (hp_inv s)"
  shows "\<exists>cmds. map fst (hp_out s') = map fst (hp_out s) @ cmds \<and>
    tracks (fold absence_after cmds a) (hp_inv s') \<and> lists_current a cmds"
  using assms(1)
proof cases
  case quiet
  then show ?thesis using assms(2) by (intro exI [of _ "[]"]) (simp add: tracks_def)
next
  case (goes_away r)
  then have "tracks (absence_after (CmdSuspend r) a) (hp_inv s')"
    using assms(2) by (auto simp: tracks_def)
  with goes_away show ?thesis
    by (intro exI [of _ "[CmdSuspend r, CmdBroadcast (CtlAdvertise (hp_adv s'))]"]) (simp add: tracks_current)
next
  case (comes_back r b0)
  then have "tracks (absence_after (CmdResume r) a) (hp_inv s')"
    using assms(2) by (auto simp: tracks_def)
  with comes_back show ?thesis
    by (intro exI [of _ "[CmdResume r, CmdBroadcast (CtlAdvertise (hp_adv s'))]"]) (simp add: tracks_current)
next
  case (adopted r)
  then have "tracks (absence_after (CmdOffer r pol) a) (hp_inv s')"
    using assms(2) by (auto simp: tracks_def)
  with adopted show ?thesis
    by (intro exI [of _ "[CmdOffer r pol, CmdBroadcast (CtlAdvertise (hp_adv s'))]"]) (simp add: tracks_current)
qed

lemma hp_changes_tracks:
  assumes "hp_changes pol s s'" "tracks a (hp_inv s)"
  shows "\<exists>cmds. map fst (hp_out s') = map fst (hp_out s) @ cmds \<and>
    tracks (fold absence_after cmds a) (hp_inv s') \<and> lists_current a cmds"
  using assms
proof (induction rule: rtranclp_induct)
  case base
  then show ?case by (intro exI [of _ "[]"]) simp
next
  case (step t u)
  then obtain cmds where "map fst (hp_out t) = map fst (hp_out s) @ cmds"
    "tracks (fold absence_after cmds a) (hp_inv t)" "lists_current a cmds"
    by blast
  moreover from hp_change_tracks [OF step(2) this(2)] obtain cmds' where
    "map fst (hp_out u) = map fst (hp_out t) @ cmds'"
    "tracks (fold absence_after cmds' (fold absence_after cmds a)) (hp_inv u)"
    "lists_current (fold absence_after cmds a) cmds'"
    by blast
  ultimately show ?case by (intro exI [of _ "cmds @ cmds'"]) simp
qed

text \<open>The reconciler and the policy engine agree about every device: if before a pass the engine has
  a slot for exactly the inputs of the index, suspended exactly when the device is gone, then the
  same holds after the pass once the engine has handled the commands the pass sent.\<close>

theorem reconcile_engine_in_step:
  assumes "hp_ok fmt s" "inj fmt" "hp_out s = []" "in_step e (hp_inv s)"
  shows "in_step (feed ok now (map fst (hp_out (snd (reconcile fs fmt pol s)))) e)
    (hp_inv (snd (reconcile fs fmt pol s)))"
  using hp_changes_tracks [of pol s "snd (reconcile fs fmt pol s)" "absence e"]
    reconcile_refines [OF assms(1,2), of pol fs] assms(3,4)
  by (auto simp: refines_def in_step_tracks absence_feed)

text \<open>At startup the engine has a slot for every advertised resource.\<close>

lemma fold_update_lookup:
  "map_of (fold (\<lambda>r al. AList.update r pol al) rs al) r = (if r \<in> set rs then Some pol else map_of al r)"
  by (induction rs arbitrary: al) auto

lemma main_policies_lookup:
  "map_of (main_policies pol adv) r = (if r \<in> set adv then Some pol else None)"
  by (simp add: main_policies_def adv_snapshot_def fold_update_lookup)

lemma map_of_map_snd: "map_of (map (\<lambda>(k, v). (k, f v)) al) r = map_option f (map_of al r)"
  by (induction al) auto

lemma init_engine_lookup:
  "map_of (slots (init_engine ps)) r = map_option new_slot (map_of ps r)"
  by (simp add: init_engine_def map_of_map_snd)

lemma open_discovered_live:
  assumes "\<And>p h. map_of (inputs iv) p = Some h \<Longrightarrow> \<not> device_gone h"
  shows "map_of (inputs (fst (open_discovered fs ds iv adv))) p = Some h \<Longrightarrow> \<not> device_gone h"
  using assms
proof (induction fs ds iv adv rule: open_discovered.induct)
  case (2 fs d ds iv adv)
  show ?case
  proof (cases "open_device fs (dd_path d)")
    case None
    with 2 show ?thesis by auto
  next
    case (Some x)
    obtain f dv io where x: "x = (f, dv, io)" by (rule prod_cases3)
    let ?h = "\<lparr>held_resource = Input (dd_resource d), dev = dv, ino = io,
       held_device = device_identity fs (dd_path d), device_gone = False\<rparr>"
    have "\<not> device_gone h'" if "((map_of (inputs iv))(dd_path d \<mapsto> ?h)) p' = Some h'" for p' h'
      using that 2(4) by (auto split: if_splits)
    with 2(2) [OF Some x [symmetric] refl refl] 2(3) Some x show ?thesis
      by (simp add: Let_def)
  qed
qed auto

lemma startup_in_step:
  assumes "open_resources K k fb fs = (iv, adv, k')" "consistent iv adv"
  shows "in_step (init_engine (main_policies pol adv)) iv"
proof -
  let ?f = "fbdev_open fb \<lparr>fds = [], drm = [], inputs = []\<rparr> []"
  obtain dr adv2 where "iv = fst (open_discovered fs (discover fs) ((fst ?f)\<lparr>drm := dr\<rparr>) adv2)"
    using assms(1) by (auto simp: open_resources_def input_open_devices_def Let_def case_prod_beta)
  moreover have "map_of (inputs ((fst ?f)\<lparr>drm := dr\<rparr>)) p = None" for p
    by (simp add: fbdev_open_def split: sum.splits)
  ultimately have live: "\<not> device_gone h" if "map_of (inputs iv) p = Some h" for p h
    using that open_discovered_live [of "(fst ?f)\<lparr>drm := dr\<rparr>"] by (metis option.distinct(1))
  have "status iv r b \<longleftrightarrow> \<not> b \<and> r \<in> set adv" if "is_input r" for r b
  proof
    assume "status iv r b"
    then show "\<not> b \<and> r \<in> set adv"
      using live consistent_entry [OF assms(2)] by (auto simp: status_def)
  next
    assume "\<not> b \<and> r \<in> set adv"
    with that assms(2) live show "status iv r b"
      unfolding consistent_def status_def holds_at_def by blast
  qed
  then show ?thesis
    by (auto simp: in_step_alt init_engine_lookup main_policies_lookup new_slot_def)
qed

lemma demo_start_in_step:
  "hp_out demo_start = []" "in_step (init_engine (main_policies FairQueue (hp_adv demo_start))) (hp_inv demo_start)"
proof -
  obtain iv adv k' where eq: "open_resources toy_kernel (20, []) (Inr 3) demo_fs = (iv, adv, k')"
    by (rule prod_cases3)
  then have start: "demo_start = startup_hp iv adv" by (simp add: demo_start_def)
  have "consistent iv adv" using hp_okD(2) [OF demo_start_ok, unfolded start] by (simp add: startup_hp_def)
  from startup_in_step [OF eq this]
  show "hp_out demo_start = []" "in_step (init_engine (main_policies FairQueue (hp_adv demo_start))) (hp_inv demo_start)"
    unfolding start by (simp_all add: startup_hp_def)
qed

theorem reconcile_engine_in_step_witness:
  "in_step (feed (\<lambda>_ _. True) 0
      (map fst (hp_out (snd (reconcile demo_fs_unplugged show_resource FairQueue demo_start))))
      (init_engine (main_policies FairQueue (hp_adv demo_start))))
    (hp_inv (snd (reconcile demo_fs_unplugged show_resource FairQueue demo_start)))"
  by (rule reconcile_engine_in_step [OF demo_start_ok inj_show_resource demo_start_in_step])

section \<open>Where the code and its comments part\<close>

text \<open>C37. A device that is replaced by another one of its class within one pass is not handed to its
  holder: the reconciler sends the engine a Resume for a slot that was never suspended, which the
  engine ignores, so that no Grant for the resource is sent to anybody.\<close>

theorem replaced_device_not_granted:
  assumes ok: "hp_ok fmt s" and step: "in_step e (hp_inv s)" and out: "hp_out s = []"
    and h: "map_of (inputs (hp_inv s)) (pd_path d) = Some h" "\<not> device_gone h"
    and new: "path_identity fs (pd_path d) \<noteq> Some (dev h, ino h)" "\<not> same_device fs (pd_path d) h"
      "\<not> (case held_device h of None \<Rightarrow> False | Some dvc \<Rightarrow> fs_exists fs dvc)" "may_resume h (pd_class d)"
    and opened: "open_device fs (pd_path d) \<noteq> None"
  shows "\<exists>m. map fst (hp_out (snd (reconcile_device fs fmt pol d s))) = [CmdResume (held_resource h), CmdBroadcast m] \<and>
    handle_command ok' now (CmdResume (held_resource h)) e = (None, e, [])"
proof -
  have "reconcile_device fs fmt pol d s = resume fs (pd_path d) (pd_path d) h s"
    using h new by (simp add: reconcile_device_def replace_device_def)
  moreover obtain f dv io where "open_device fs (pd_path d) = Some (f, dv, io)"
    using opened by (metis not_None_eq prod_cases3)
  ultimately have sent: "\<exists>m. map fst (hp_out (snd (reconcile_device fs fmt pol d s))) =
      [CmdResume (held_resource h), CmdBroadcast m]"
    using out by (simp add: resume_def Let_def)
  have "is_input (held_resource h)" by (rule wf_held_input [OF hp_okD(1) [OF ok] h(1)])
  moreover have "status (hp_inv s) (held_resource h) False"
    using status_iff [OF hp_okD(2) [OF ok] h(1)] h(2) by simp
  ultimately obtain sl where "map_of (slots e) (held_resource h) = Some sl" "\<not> suspended sl"
    using step unfolding in_step_alt by auto
  with sent show ?thesis by (auto simp: handle_resume_def)
qed

definition demo_fs_swapped :: fs_view where
  "demo_fs_swapped =
     demo_fs\<lparr>fs_fstat := \<lambda>f. Inr (5, of_nat f + 1), fs_metadata := \<lambda>p. Inr (5, of_nat (length p + of_char (last p)) + 1),
       fs_canonicalize := \<lambda>p. Inr (''/sys/devices'' @ p), fs_exists := \<lambda>_. False\<rparr>"

theorem replaced_device_not_granted_witness:
  "\<exists>m. map fst (hp_out (snd (reconcile_device demo_fs_swapped show_resource FairQueue
      \<lparr>pd_path = ''/dev/input/event0'', pd_name = ''mouse'', pd_class = ClassMouse\<rparr> demo_start))) =
    [CmdResume (Input (Mouse 0)), CmdBroadcast m]"
proof -
  let ?d = "\<lparr>pd_path = ''/dev/input/event0'', pd_name = ''mouse'', pd_class = ClassMouse\<rparr>"
  let ?h = "\<lparr>held_resource = Input (Mouse 0), dev = 5, ino = 65, held_device = Some ''/sys/class/input/event0/device'',
        device_gone = False\<rparr>"
  have h: "map_of (inputs (hp_inv demo_start)) (pd_path ?d) = Some ?h" by code_simp
  have new: "path_identity demo_fs_swapped (pd_path ?d) \<noteq> Some (dev ?h, ino ?h)" by code_simp
  have other: "\<not> same_device demo_fs_swapped (pd_path ?d) ?h" by code_simp
  have gone: "\<not> (case held_device ?h of None \<Rightarrow> False | Some dvc \<Rightarrow> fs_exists demo_fs_swapped dvc)" by code_simp
  have same_class: "may_resume ?h (pd_class ?d)" by code_simp
  have opens: "open_device demo_fs_swapped (pd_path ?d) \<noteq> None" by code_simp
  from replaced_device_not_granted [OF demo_start_ok demo_start_in_step(2,1) h _ new other gone same_class opens] show ?thesis
    by auto
qed

text \<open>A device that was marked gone and whose node is found again with the inode it had is never
  resumed: the reconciler treats it as a device it holds, changes nothing and tells the engine
  nothing, so that its resource stays suspended.\<close>

theorem same_inode_never_resumes:
  assumes "map_of (inputs (hp_inv s)) (pd_path d) = Some h" "device_gone h"
    and "path_identity fs (pd_path d) = Some (dev h, ino h)"
  shows "reconcile_device fs fmt pol d s = (True, s) \<and> status (hp_inv s) (held_resource h) True"
  using assms by (auto simp: reconcile_device_def status_def)

theorem same_inode_never_resumes_witness:
  "fst (reconcile_device demo_fs show_resource FairQueue
    \<lparr>pd_path = ''/dev/input/event0'', pd_name = ''mouse'', pd_class = ClassMouse\<rparr> demo_pass) \<and>
   status (hp_inv demo_pass) (Input (Mouse 0)) True"
proof -
  let ?d = "\<lparr>pd_path = ''/dev/input/event0'', pd_name = ''mouse'', pd_class = ClassMouse\<rparr>"
  let ?h = "\<lparr>held_resource = Input (Mouse 0), dev = 5, ino = 65, held_device = Some ''/sys/class/input/event0/device'',
        device_gone = True\<rparr>"
  have h: "map_of (inputs (hp_inv demo_pass)) (pd_path ?d) = Some ?h" by code_simp
  have "path_identity demo_fs (pd_path ?d) = Some (dev ?h, ino ?h)" by code_simp
  from same_inode_never_resumes [OF h _ this] show ?thesis by simp
qed

section \<open>A wake is bounded\<close>

lemma retry_loop_bound: "attempt < MAX_RETRIES \<Longrightarrow> fst (retry_loop views fmt pol attempt s) \<le> MAX_RETRIES"
proof (induction views fmt pol attempt s rule: retry_loop.induct)
  case (1 views fmt pol attempt s)
  obtain retry s1 where r: "reconcile (views attempt) fmt pol s = (retry, s1)" by fastforce
  with 1(1) [OF r [symmetric] refl refl] 1(2) show ?case
    by (subst retry_loop.simps) auto
qed

lemma retry_loop_refines:
  "hp_ok fmt s \<Longrightarrow> inj fmt \<Longrightarrow> refines fmt pol s (snd (retry_loop views fmt pol attempt s))"
proof (induction views fmt pol attempt s rule: retry_loop.induct)
  case (1 views fmt pol attempt s)
  obtain retry s1 where r: "reconcile (views attempt) fmt pol s = (retry, s1)" by fastforce
  have "refines fmt pol s s1"
    using reconcile_refines [OF 1(2,3), of pol "views attempt"] r by simp
  with 1(1) [OF r [symmetric] refl refl] 1(3) r show ?case
    by (subst retry_loop.simps) (auto intro: refines_trans)
qed

text \<open>C25. One wake of the reconciler ends after at most five passes, whatever the file system does in
  between, and leaves the state consistent.\<close>

theorem wake_is_bounded:
  assumes "hp_ok fmt s" "inj fmt"
  shows "fst (retry_loop views fmt pol 0 s) \<le> 5 \<and> hp_ok fmt (snd (retry_loop views fmt pol 0 s))"
  using retry_loop_bound [of 0 views fmt pol s] retry_loop_refines [OF assms, of pol views 0]
  by (simp add: MAX_RETRIES_def refines_def)

theorem wake_is_bounded_witness:
  "fst (retry_loop (\<lambda>_. demo_fs) show_resource FairQueue 0 demo_start) \<le> 5"
  using wake_is_bounded [OF demo_start_ok inj_show_resource] by blast

end
