(* ===== verification/Hotplug_Watch.thy ===== *)
theory Hotplug_Watch
  imports Hotplug_Properties
begin

text \<open>
  The loops around the reconciler pass (\<open>run\<close>, \<open>run_watched\<close>, \<open>run_polling\<close> and \<open>Watch\<close> of
  \<open>src/resource_manager/hotplug.rs\<close>): what wakes it, how a burst of events settles, how often a wake
  retries, and what happens without a watch.  The kernel's event queue and the file system change at
  any moment.  Two history variables record what no pass has looked at yet: \<open>w_stale\<close>, that \<open>/dev/input\<close>
  has changed in any way, also before the watch was in place or in a way its mask leaves out; \<open>w_told\<close>,
  that it has changed in a way the loops do not need the safety pass for, because the watch has reported
  it or the directory is being polled.
\<close>

section \<open>State\<close>

datatype inotify_event = NodeEvent | QueueOverflow

text \<open>
  \<open>Selecting\<close> is the \<open>select!\<close> of \<open>run_watched\<close>, \<open>Settling\<close> the sleep inside \<open>Watch::changed\<close>,
  \<open>Reconciling n\<close> the head of the retry loop after \<open>n\<close> passes, \<open>Retrying n\<close> the sleep before the
  next one, \<open>Polling\<close> the loop of \<open>run_polling\<close>.
\<close>

datatype watch_phase = Selecting | Settling | Reconciling nat | Retrying nat | Polling

text \<open>\<open>w_ready\<close> is the readiness \<open>AsyncFd\<close> keeps: a new event sets it, and only \<open>clear_ready\<close> resets it.\<close>

record watcher =
  w_phase :: watch_phase
  w_queue :: "inotify_event list"
  w_ready :: bool
  w_fs :: fs_view
  w_hp :: hp
  w_stale :: bool
  w_told :: bool

text \<open>\<open>run\<close>: watch the directory, or poll if the watch cannot be installed.\<close>

definition run_start :: "io_error + unit \<Rightarrow> fs_view \<Rightarrow> hp \<Rightarrow> bool \<Rightarrow> watcher" where
  "run_start watch_new fs h stale =
     (let phase = (case watch_new of Inr _ \<Rightarrow> Selecting | Inl _ \<Rightarrow> Polling)
      in \<lparr>w_phase = phase, w_queue = [], w_ready = False, w_fs = fs, w_hp = h,
          w_stale = stale, w_told = (stale \<and> phase = Polling)\<rparr>)"

text \<open>A pass over the directory as it is now.\<close>

definition look :: "(resource \<Rightarrow> string) \<Rightarrow> policy \<Rightarrow> watcher \<Rightarrow> bool \<times> watcher" where
  "look fmt pol s =
     (let (retry, h) = reconcile (w_fs s) fmt pol (w_hp s) in (retry, s\<lparr>w_hp := h, w_stale := False, w_told := False\<rparr>))"

definition after_pass :: "bool \<Rightarrow> nat \<Rightarrow> watch_phase" where
  "after_pass retry n =
     (let attempt = n + 1 in if \<not> retry \<or> MAX_RETRIES \<le> attempt then Selecting else Retrying attempt)"

section \<open>Steps\<close>

text \<open>
  A change of the directory is reported by an event or, when the kernel's queue is full, by none: the
  queue has then filled up since it was last read, so that the readiness stands.  Changes outside the
  watch's mask, like a node that is moved away, are not reported at all.  \<open>Watch::changed\<close> takes what
  one read gives and resets the readiness; with nothing to read it only resets it.  The read at the
  end of the burst leaves the readiness alone.
\<close>

datatype watch_event =
  NodeChange | SilentChange | Woken | Spurious | Settled | SafetyTick | WatchFailed | Pass | RetryDue | Poll

inductive watch_step ::
  "(resource \<Rightarrow> string) \<Rightarrow> policy \<Rightarrow> watcher \<Rightarrow> watch_event \<Rightarrow> watcher \<Rightarrow> bool"
  for fmt :: "resource \<Rightarrow> string" and pol :: policy where
  node_change:
    "watch_step fmt pol s NodeChange
       (s\<lparr>w_fs := fs, w_stale := True, w_told := True, w_ready := (w_phase s \<noteq> Polling),
          w_queue := (if w_phase s = Polling then [] else w_queue s @ [ev])\<rparr>)"
| dropped_event:
    "w_ready s \<Longrightarrow> w_queue s \<noteq> [] \<Longrightarrow>
     watch_step fmt pol s NodeChange (s\<lparr>w_fs := fs, w_stale := True, w_told := True\<rparr>)"
| silent_change:
    "watch_step fmt pol s SilentChange
       (s\<lparr>w_fs := fs, w_stale := True, w_told := (w_told s \<or> w_phase s = Polling)\<rparr>)"
| woken:
    "w_phase s = Selecting \<Longrightarrow> w_ready s \<Longrightarrow> w_queue s = events @ rest \<Longrightarrow> events \<noteq> [] \<Longrightarrow>
     watch_step fmt pol s Woken (s\<lparr>w_phase := Settling, w_queue := rest, w_ready := False\<rparr>)"
| spurious:
    "w_phase s = Selecting \<Longrightarrow> w_ready s \<Longrightarrow> w_queue s = [] \<Longrightarrow>
     watch_step fmt pol s Spurious (s\<lparr>w_ready := False\<rparr>)"
| settled:
    "w_phase s = Settling \<Longrightarrow> w_queue s = events @ rest \<Longrightarrow>
     watch_step fmt pol s Settled (s\<lparr>w_phase := Reconciling 0, w_queue := rest\<rparr>)"
| safety_tick:
    "w_phase s \<in> {Selecting, Settling} \<Longrightarrow>
     watch_step fmt pol s SafetyTick (s\<lparr>w_phase := Reconciling 0\<rparr>)"
| watch_failed:
    "w_phase s = Selecting \<Longrightarrow>
     watch_step fmt pol s WatchFailed (s\<lparr>w_phase := Polling, w_queue := [], w_ready := False\<rparr>)"
| pass:
    "w_phase s = Reconciling n \<Longrightarrow> look fmt pol s = (retry, s') \<Longrightarrow>
     watch_step fmt pol s Pass (s'\<lparr>w_phase := after_pass retry n\<rparr>)"
| retry_due:
    "w_phase s = Retrying n \<Longrightarrow> watch_step fmt pol s RetryDue (s\<lparr>w_phase := Reconciling n\<rparr>)"
| poll:
    "w_phase s = Polling \<Longrightarrow> look fmt pol s = (retry, s') \<Longrightarrow> watch_step fmt pol s Poll s'"

text \<open>The steps the reconciler takes by itself, without waiting for the safety interval.\<close>

definition prompt :: "watch_event \<Rightarrow> bool" where
  "prompt ev \<longleftrightarrow> ev \<in> {Woken, Spurious, Settled, Pass, RetryDue, Poll}"

definition watch_start :: "(resource \<Rightarrow> string) \<Rightarrow> watcher \<Rightarrow> bool" where
  "watch_start fmt s \<longleftrightarrow> inj fmt \<and> (\<exists>w fs h stale. hp_ok fmt h \<and> s = run_start w fs h stale)"

section \<open>The invariant of the loops\<close>

text \<open>The reconciler waits for events without being woken only if it has seen all it was told of.\<close>

definition watch_inv :: "(resource \<Rightarrow> string) \<Rightarrow> watcher \<Rightarrow> bool" where
  "watch_inv fmt s \<longleftrightarrow>
     inj fmt \<and> hp_ok fmt (w_hp s) \<and>
     (w_told s \<longrightarrow> w_stale s) \<and> (w_told s \<longrightarrow> w_phase s = Selecting \<longrightarrow> w_ready s \<and> w_queue s \<noteq> []) \<and>
     (case w_phase s of Reconciling n \<Rightarrow> n < MAX_RETRIES | Retrying n \<Rightarrow> n < MAX_RETRIES | _ \<Rightarrow> True)"

lemma look_ok:
  assumes "look fmt pol s = (retry, s')" "hp_ok fmt (w_hp s)" "inj fmt"
  shows "hp_ok fmt (w_hp s')" "\<not> w_stale s'" "\<not> w_told s'" "w_phase s' = w_phase s" "w_queue s' = w_queue s" "w_ready s' = w_ready s"
  using assms(1) reconcile_refines [OF assms(2,3), of pol "w_fs s"]
  by (auto simp: look_def Let_def case_prod_beta refines_def)

lemma look_result:
  "w_hp (snd (look fmt pol s)) = snd (reconcile (w_fs s) fmt pol (w_hp s))" "\<not> w_stale (snd (look fmt pol s))"
  by (simp_all add: look_def Let_def case_prod_beta)

lemma watch_start_inv: "watch_start fmt s \<Longrightarrow> watch_inv fmt s"
  by (auto simp: watch_start_def watch_inv_def run_start_def Let_def split: sum.split)

lemma watch_step_inv:
  assumes "watch_inv fmt s" "watch_step fmt pol s ev t" shows "watch_inv fmt t"
  using assms(2)
proof cases
  case (pass n retry s')
  with assms(1) look_ok [of fmt pol s retry s'] show ?thesis
    by (auto simp: watch_inv_def after_pass_def Let_def)
next
  case (poll retry)
  with assms(1) look_ok [of fmt pol s retry t] show ?thesis
    by (auto simp: watch_inv_def)
qed (use assms(1) in \<open>auto simp: watch_inv_def MAX_RETRIES_def split: watch_phase.splits\<close>)

interpretation watch_loop: invariant_system "watch_start fmt" "watch_step fmt pol" "watch_inv fmt" for fmt pol
  by unfold_locales (rule watch_start_inv, assumption, rule watch_step_inv, assumption+)

section \<open>Every change is looked at\<close>

definition prompt_step :: "(resource \<Rightarrow> string) \<Rightarrow> policy \<Rightarrow> watcher \<Rightarrow> watcher \<Rightarrow> bool" where
  "prompt_step fmt pol s t \<longleftrightarrow> (\<exists>ev. prompt ev \<and> watch_step fmt pol s ev t)"

lemma prompt_stepI: "watch_step fmt pol s ev t \<Longrightarrow> prompt ev \<Longrightarrow> prompt_step fmt pol s t"
  by (auto simp: prompt_step_def)

text \<open>What is left to do before the next pass, and the pass itself.\<close>

lemma reaches_reconciling:
  assumes "watch_inv fmt s" "w_told s" "w_phase s \<noteq> Polling"
  obtains n m t where "n \<le> 2" "(prompt_step fmt pol ^^ n) s t" "w_phase t = Reconciling m"
    "w_fs t = w_fs s" "w_hp t = w_hp s"
proof (cases "w_phase s")
  case Selecting
  let ?t = "s\<lparr>w_phase := Settling, w_queue := [], w_ready := False\<rparr>"
  have "prompt_step fmt pol s ?t"
    using assms(1,2) Selecting by (intro prompt_stepI [OF woken [of s "w_queue s"]]) (auto simp: watch_inv_def prompt_def)
  moreover have "prompt_step fmt pol ?t (?t\<lparr>w_phase := Reconciling 0, w_queue := []\<rparr>)"
    by (rule prompt_stepI [OF settled [of ?t "[]"]]) (simp_all add: prompt_def)
  ultimately show thesis
    by (intro that [of 2 "?t\<lparr>w_phase := Reconciling 0, w_queue := []\<rparr>" 0])
      (auto simp: numeral_2_eq_2 relcompp_apply)
next
  case Settling
  have "prompt_step fmt pol s (s\<lparr>w_phase := Reconciling 0, w_queue := w_queue s\<rparr>)"
    by (rule prompt_stepI [OF settled [of s "[]"]]) (simp_all add: prompt_def Settling)
  then show thesis
    by (intro that [of 1 "s\<lparr>w_phase := Reconciling 0, w_queue := w_queue s\<rparr>" 0]) auto
next
  case (Reconciling m)
  then show thesis by (intro that [of 0 s m]) auto
next
  case (Retrying m)
  have "prompt_step fmt pol s (s\<lparr>w_phase := Reconciling m\<rparr>)"
    by (rule prompt_stepI [OF retry_due [OF Retrying]]) (simp add: prompt_def)
  then show thesis
    by (intro that [of 1 "s\<lparr>w_phase := Reconciling m\<rparr>" m]) auto
qed (use assms(3) in simp)

text \<open>No change that the loops were told of is missed: in every state the reconciler's loops can reach,
  if such a change has come since the last pass, then at most three steps of the reconciler itself
  (no further event, no safety tick) lead to a pass over the directory as it is, after which nothing is
  left unseen and the state is consistent.\<close>

theorem changes_are_looked_at:
  assumes "reach (watch_start fmt) (watch_step fmt pol) s" "w_told s"
  shows "\<exists>n t. n \<le> 3 \<and> (prompt_step fmt pol ^^ n) s t \<and> \<not> w_stale t \<and>
    w_hp t = snd (reconcile (w_fs s) fmt pol (w_hp s)) \<and> hp_ok fmt (w_hp t)"
proof -
  have inv: "watch_inv fmt s" by (rule watch_loop.reach_inv [OF assms(1)])
  then have ok: "hp_ok fmt (snd (reconcile (w_fs s) fmt pol (w_hp s)))"
    using reconcile_refines [of fmt "w_hp s" pol "w_fs s"] by (simp add: watch_inv_def refines_def)
  show ?thesis
  proof (cases "w_phase s = Polling")
    case True
    have "prompt_step fmt pol s (snd (look fmt pol s))"
      by (rule prompt_stepI [OF poll [OF True prod.collapse [symmetric]]]) (simp add: prompt_def)
    with look_result [of fmt pol s] ok show ?thesis
      by (intro exI [of _ "1::nat"] exI [of _ "snd (look fmt pol s)"]) (simp add: eq_OO)
  next
    case False
    obtain n m t where t: "n \<le> 2" "(prompt_step fmt pol ^^ n) s t" "w_phase t = Reconciling m"
      "w_fs t = w_fs s" "w_hp t = w_hp s"
      by (rule reaches_reconciling [OF inv assms(2) False])
    let ?u = "(snd (look fmt pol t))\<lparr>w_phase := after_pass (fst (look fmt pol t)) m\<rparr>"
    have "prompt_step fmt pol t ?u"
      by (rule prompt_stepI [OF pass [OF t(3) prod.collapse [symmetric]]]) (simp add: prompt_def)
    with t(2) have "(prompt_step fmt pol ^^ Suc n) s ?u" by (rule relpowp_Suc_I)
    with look_result [of fmt pol t] ok t(1,4,5) show ?thesis
      by (intro exI [of _ "Suc n"] exI [of _ ?u]) (simp del: relpowp.simps)
  qed
qed

lemma demo_watch_reach:
  "reach (watch_start show_resource) (watch_step show_resource FairQueue)
    ((run_start (Inr ()) demo_fs demo_start False)\<lparr>w_fs := demo_fs_unplugged, w_stale := True, w_told := True, w_ready := True, w_queue := [NodeEvent]\<rparr>)"
proof (rule reach_step [OF reach_start])
  show "watch_start show_resource (run_start (Inr ()) demo_fs demo_start False)"
    unfolding watch_start_def using inj_show_resource demo_start_ok by blast
  show "watch_step show_resource FairQueue (run_start (Inr ()) demo_fs demo_start False) NodeChange
      ((run_start (Inr ()) demo_fs demo_start False)\<lparr>w_fs := demo_fs_unplugged, w_stale := True, w_told := True, w_ready := True, w_queue := [NodeEvent]\<rparr>)"
    using node_change [where fmt = show_resource and pol = FairQueue and s = "run_start (Inr ()) demo_fs demo_start False"
        and fs = demo_fs_unplugged and ev = NodeEvent]
    by (simp add: run_start_def)
qed

theorem changes_are_looked_at_witness:
  "\<exists>n\<le>3. \<exists>t. (prompt_step show_resource FairQueue ^^ n)
      ((run_start (Inr ()) demo_fs demo_start False)\<lparr>w_fs := demo_fs_unplugged, w_stale := True, w_told := True, w_ready := True, w_queue := [NodeEvent]\<rparr>) t \<and>
    \<not> w_stale t \<and> hp_adv (w_hp t) = [Fbdev, Input (Keyboard 0)]"
proof -
  have "hp_adv (snd (reconcile demo_fs_unplugged show_resource FairQueue demo_start)) = [Fbdev, Input (Keyboard 0)]"
    using demo_pass_adv by (simp add: demo_pass_def)
  moreover obtain n t where "n \<le> 3" "(prompt_step show_resource FairQueue ^^ n)
      ((run_start (Inr ()) demo_fs demo_start False)\<lparr>w_fs := demo_fs_unplugged, w_stale := True, w_told := True, w_ready := True, w_queue := [NodeEvent]\<rparr>) t"
    "\<not> w_stale t" "w_hp t = snd (reconcile demo_fs_unplugged show_resource FairQueue demo_start)"
    using changes_are_looked_at [OF demo_watch_reach] by (auto simp: run_start_def Let_def simp del: relpowp.simps)
  ultimately show ?thesis by metis
qed

text \<open>Nothing but a change, the safety tick or a failure of the watch leads out of the gap.\<close>

definition gap_step :: "(resource \<Rightarrow> string) \<Rightarrow> policy \<Rightarrow> watcher \<Rightarrow> watch_event \<Rightarrow> watcher \<Rightarrow> bool" where
  "gap_step fmt pol s ev t \<longleftrightarrow> watch_step fmt pol s ev t \<and> ev \<notin> {NodeChange, SafetyTick, WatchFailed}"

definition gap_inv :: "hp \<Rightarrow> watcher \<Rightarrow> bool" where
  "gap_inv h s \<longleftrightarrow> w_phase s = Selecting \<and> w_queue s = [] \<and> \<not> w_ready s \<and> w_stale s \<and> w_hp s = h"

interpretation gap: invariant_system "\<lambda>s. s = run_start (Inr ()) fs h True" "gap_step fmt pol" "gap_inv h" for fs h fmt pol
proof
  fix s assume "s = run_start (Inr ()) fs h True"
  then show "gap_inv h s" by (simp add: gap_inv_def run_start_def)
next
  fix s ev t assume inv: "gap_inv h s" and "gap_step fmt pol s ev t"
  then have "watch_step fmt pol s ev t" "ev \<notin> {NodeChange, SafetyTick, WatchFailed}" by (simp_all add: gap_step_def)
  then show "gap_inv h t" using inv by cases (simp_all add: gap_inv_def)
qed

text \<open>The gap before the watch is not closed at startup: if the directory changed after the daemon
  enumerated it and before the watch was in place, the loops wait for events with the change unseen;
  as long as there is no further change, no safety tick and no failure of the watch, no pass is made
  and no step of the reconciler itself is possible.\<close>

theorem startup_gap_stays_open:
  assumes "reach (\<lambda>s. s = run_start (Inr ()) fs h True) (gap_step fmt pol) s"
  shows "w_stale s \<and> w_hp s = h \<and> (\<nexists>t. prompt_step fmt pol s t)"
proof -
  have inv: "gap_inv h s" by (rule gap.reach_inv [OF assms])
  have "\<not> watch_step fmt pol s ev t" if "prompt ev" for ev t
  proof
    assume "watch_step fmt pol s ev t"
    then show False using that inv by cases (simp_all add: gap_inv_def prompt_def)
  qed
  with inv show ?thesis by (auto simp: gap_inv_def prompt_step_def)
qed

theorem startup_gap_stays_open_witness:
  "w_stale (run_start (Inr ()) demo_fs_unplugged demo_start True) \<and>
    (\<nexists>t. prompt_step show_resource FairQueue (run_start (Inr ()) demo_fs_unplugged demo_start True) t)"
proof -
  let ?s = "run_start (Inr ()) demo_fs_unplugged demo_start True"
  have "reach (\<lambda>s. s = ?s) (gap_step show_resource FairQueue) ?s" by (rule reach_start) (rule refl)
  from startup_gap_stays_open [OF this] show ?thesis by blast
qed

end
