(* ===== verification/Client_Handler.thy ===== *)
theory Client_Handler
  imports Engine_Frames Inventory
begin

text \<open>
  The connection task (\<open>src/client_handler/\<close> with \<open>src/error.rs\<close>): requests, pushed control
  messages, frame assembly and the life of a connection.  The state of a connection carries what
  the task has done so far: the commands it has sent to the engine and the messages it has written
  with the descriptor that went with each.  Parameters: the wire protocol crate (a record of its
  codec functions), the kernel, the engine's answer to an acquire (any function of what the task
  has sent so far: \<open>None\<close> if the mailbox is closed, \<open>Some None\<close> if the reply channel is dropped) and the outcome of each socket write.  A write that fails is not recorded.
\<close>

section \<open>Data\<close>

type_synonym byte = "8 word"
type_synonym proto_error = nat

datatype client_request = ReqAcquire resource | ReqRelease resource | ReqAck

datatype other_error = GrantErr grant_error | ReadFailed io_error | FrameErr proto_error

datatype server_error = Protocol proto_error | WriteErr io_error | Other other_error

datatype deny_text = EngineReason deny_reason | GrantFailed server_error

datatype server_message =
  MsgAdvertise "resource list"
| MsgGrant resource
| MsgRevoke resource
| MsgDeny deny_text

record protocol =
  FRAME_HEADER_LEN :: nat
  serialize_framed :: "server_message \<Rightarrow> proto_error + byte list"
  deserialize :: "byte list \<Rightarrow> proto_error + client_request"
  parse_frame_header :: "byte list \<Rightarrow> proto_error + nat"

type_synonym wire_log = "(server_message \<times> fd option) list"

record 'k env =
  proto :: protocol
  kernel :: "'k drm_kernel"
  engine_reply :: "engine_command list \<Rightarrow> resource \<Rightarrow> acquire_outcome option option"
  write_result :: "wire_log \<Rightarrow> server_message \<Rightarrow> io_error + unit"

record 'k conn =
  conn_inv :: inventory
  conn_k :: 'k
  told :: "engine_command list"
  wire :: wire_log
  ack_deadline :: "instant option"
  frame_buf :: "byte list"

definition GRANT_ACK_TIMEOUT :: nat where
  "GRANT_ACK_TIMEOUT = 5000"

definition tell :: "engine_command \<Rightarrow> 'k conn \<Rightarrow> 'k conn" where
  "tell cmd c = c\<lparr>told := told c @ [cmd]\<rparr>"

text \<open>Serialise a message and write it, with a descriptor or without.\<close>

definition write_msg ::
  "'k env \<Rightarrow> server_message \<Rightarrow> fd option \<Rightarrow> 'k conn \<Rightarrow> (server_error + unit) \<times> 'k conn" where
  "write_msg E m f c =
     (case serialize_framed (proto E) m of
        Inl e \<Rightarrow> (Inl (Protocol e), c)
      | Inr bytes \<Rightarrow>
          (case write_result E (wire c) m of
             Inl e \<Rightarrow> (Inl (WriteErr e), c)
           | Inr _ \<Rightarrow> (Inr (), c\<lparr>wire := wire c @ [(m, f)]\<rparr>)))"

section \<open>Requests\<close>

definition send_grant :: "'k env \<Rightarrow> resource \<Rightarrow> 'k conn \<Rightarrow> (server_error + unit) \<times> 'k conn" where
  "send_grant E r c =
     (case grant_fd (kernel E) (conn_k c) r (conn_inv c) of
        (Inl e, iv, k) \<Rightarrow> (Inl (Other (GrantErr e)), c\<lparr>conn_inv := iv, conn_k := k\<rparr>)
      | (Inr f, iv, k) \<Rightarrow> write_msg E (MsgGrant r) (Some f) (c\<lparr>conn_inv := iv, conn_k := k\<rparr>))"

text \<open>
  The shared tail of an immediate grant and of a grant from the queue: a grant that cannot be
  produced is rolled back and denied, a grant that was sent arms the ack timer.
\<close>

definition deliver_grant ::
  "'k env \<Rightarrow> instant \<Rightarrow> client_id \<Rightarrow> resource \<Rightarrow> 'k conn \<Rightarrow> (server_error + unit) \<times> 'k conn" where
  "deliver_grant E now cl r c =
     (case send_grant E r c of
        (Inl e, c1) \<Rightarrow> write_msg E (MsgDeny (GrantFailed e)) None (tell (CmdRelease cl r) c1)
      | (Inr _, c1) \<Rightarrow> (Inr (), c1\<lparr>ack_deadline := Some (now + GRANT_ACK_TIMEOUT)\<rparr>))"

text \<open>\<open>PolicyEngine::acquire\<close>: a mailbox that is closed or a reply that never comes is a denial.\<close>

definition engine_acquire :: "'k env \<Rightarrow> client_id \<Rightarrow> resource \<Rightarrow> 'k conn \<Rightarrow> acquire_outcome \<times> 'k conn" where
  "engine_acquire E cl r c =
     (case engine_reply E (told c) r of
        None \<Rightarrow> (OutcomeDenied EngineUnavailable, c)
      | Some reply \<Rightarrow>
          (case reply of None \<Rightarrow> OutcomeDenied EngineUnavailable | Some outcome \<Rightarrow> outcome,
           tell (CmdAcquire cl r) c))"

text \<open>The match of \<open>handle_acquire\<close> on the engine's decision.\<close>

definition acquire_answered ::
  "'k env \<Rightarrow> instant \<Rightarrow> client_id \<Rightarrow> resource \<Rightarrow> acquire_outcome \<Rightarrow> 'k conn \<Rightarrow> (server_error + unit) \<times> 'k conn" where
  "acquire_answered E now cl r outcome c =
     (case outcome of
        OutcomeGranted \<Rightarrow> deliver_grant E now cl r c
      | OutcomeQueued \<Rightarrow> (Inr (), c)
      | OutcomeDenied reason \<Rightarrow> write_msg E (MsgDeny (EngineReason reason)) None c)"

definition handle_acquire ::
  "'k env \<Rightarrow> instant \<Rightarrow> client_id \<Rightarrow> resource \<Rightarrow> 'k conn \<Rightarrow> (server_error + unit) \<times> 'k conn" where
  "handle_acquire E now cl r c =
     (let (outcome, c1) = engine_acquire E cl r c in acquire_answered E now cl r outcome c1)"

definition handle_release :: "'k env \<Rightarrow> client_id \<Rightarrow> resource \<Rightarrow> 'k conn \<Rightarrow> 'k conn" where
  "handle_release E cl r c =
     (let (iv, k) = inventory_revoke_lease (kernel E) (conn_k c) r (conn_inv c)
      in tell (CmdRelease cl r) (c\<lparr>conn_inv := iv, conn_k := k\<rparr>))"

fun dispatch_request ::
  "'k env \<Rightarrow> instant \<Rightarrow> client_id \<Rightarrow> client_request \<Rightarrow> 'k conn \<Rightarrow> (server_error + unit) \<times> 'k conn" where
  "dispatch_request E now cl (ReqAcquire r) c = handle_acquire E now cl r c"
| "dispatch_request E now cl (ReqRelease r) c = (Inr (), handle_release E cl r c)"
| "dispatch_request E now cl ReqAck c = (Inr (), c\<lparr>ack_deadline := None\<rparr>)"

section \<open>Pushed messages\<close>

fun process_control_message ::
  "'k env \<Rightarrow> instant \<Rightarrow> client_id \<Rightarrow> control_message \<Rightarrow> 'k conn \<Rightarrow> (server_error + unit) \<times> 'k conn" where
  "process_control_message E now cl (CtlRevoke r) c = write_msg E (MsgRevoke r) None c"
| "process_control_message E now cl (CtlAdvertise rs) c = write_msg E (MsgAdvertise rs) None c"
| "process_control_message E now cl (CtlGrant r) c = deliver_grant E now cl r c"

section \<open>Frames\<close>

datatype read_result = ReadBytes "byte list" | ReadEof | ReadError io_error

text \<open>Reading until the socket would block, which is the end of the list.\<close>

fun drain_socket :: "read_result list \<Rightarrow> byte list \<Rightarrow> (server_error + bool) \<times> byte list" where
  "drain_socket [] buf = (Inr True, buf)"
| "drain_socket (ReadEof # rs) buf = (Inr False, buf)"
| "drain_socket (ReadBytes bs # rs) buf = drain_socket rs (buf @ bs)"
| "drain_socket (ReadError e # rs) buf = (Inl (Other (ReadFailed e)), buf)"

text \<open>One iteration of the frame loop: \<open>Inr True\<close> goes on, \<open>Inr False\<close> leaves the loop.\<close>

definition frame_step ::
  "'k env \<Rightarrow> instant \<Rightarrow> client_id \<Rightarrow> 'k conn \<Rightarrow> (server_error + bool) \<times> 'k conn" where
  "frame_step E now cl c =
     (let P = proto E; n = FRAME_HEADER_LEN P
      in if length (frame_buf c) < n then (Inr False, c)
         else (case parse_frame_header P (take n (frame_buf c)) of
                 Inl e \<Rightarrow> (Inl (Other (FrameErr e)), c)
               | Inr len \<Rightarrow>
                   if length (frame_buf c) < n + len then (Inr False, c)
                   else
                     let payload = take len (drop n (frame_buf c));
                         c1 = c\<lparr>frame_buf := drop (n + len) (frame_buf c)\<rparr>
                     in (case deserialize P payload of
                           Inl e \<Rightarrow> (Inl (Other (FrameErr e)), c1)
                         | Inr req \<Rightarrow>
                             (case dispatch_request E now cl req c1 of
                                (Inl e, c2) \<Rightarrow> (Inl e, c2)
                              | (Inr _, c2) \<Rightarrow> (Inr True, c2)))))"

definition frame_result :: "(server_error + bool) \<times> 'k conn \<Rightarrow> (server_error + unit) \<times> 'k conn" where
  "frame_result x = (case fst x of Inl e \<Rightarrow> (Inl e, snd x) | Inr _ \<Rightarrow> (Inr (), snd x))"

partial_function (option) frame_loop ::
  "'k env \<Rightarrow> instant \<Rightarrow> client_id \<Rightarrow> 'k conn \<Rightarrow> ((server_error + unit) \<times> 'k conn) option" where
  "frame_loop E now cl c =
     (if fst (frame_step E now cl c) = Inr True then frame_loop E now cl (snd (frame_step E now cl c))
      else Some (frame_result (frame_step E now cl c)))"

declare frame_loop.simps [code]

text \<open>The result says whether the connection goes on; \<open>None\<close> is a frame loop that never ends.\<close>

definition process_wire_bytes ::
  "'k env \<Rightarrow> instant \<Rightarrow> client_id \<Rightarrow> read_result list \<Rightarrow> 'k conn \<Rightarrow> ((server_error + bool) \<times> 'k conn) option" where
  "process_wire_bytes E now cl reads c =
     (case drain_socket reads (frame_buf c) of
        (Inl e, buf) \<Rightarrow> Some (Inl e, c\<lparr>frame_buf := buf\<rparr>)
      | (Inr False, buf) \<Rightarrow> Some (Inr False, c\<lparr>frame_buf := buf\<rparr>)
      | (Inr True, buf) \<Rightarrow>
          (case frame_loop E now cl (c\<lparr>frame_buf := buf\<rparr>) of
             None \<Rightarrow> None
           | Some (Inl e, c1) \<Rightarrow> Some (Inl e, c1)
           | Some (Inr _, c1) \<Rightarrow> Some (Inr True, c1)))"

section \<open>The life of a connection\<close>

datatype conn_event = WireReadable "read_result list" | ControlMsg control_message | AckTimedOut

text \<open>How far a connection has come: its task waits, has ended with a result, or spins.\<close>

datatype conn_status = Waiting | Ended "server_error + unit" | Spinning

text \<open>
  One turn of the select loop: the time, the shared inventory and kernel as the turn finds them
  (other tasks have used them since the last turn), and what woke the task.
\<close>

record 'k turn =
  turn_now :: instant
  turn_inv :: inventory
  turn_k :: 'k
  turn_event :: conn_event

fun handle_event ::
  "'k env \<Rightarrow> client_id \<Rightarrow> instant \<Rightarrow> conn_event \<Rightarrow> 'k conn \<Rightarrow> conn_status \<times> 'k conn" where
  "handle_event E cl now (WireReadable reads) c =
     (case process_wire_bytes E now cl reads c of
        None \<Rightarrow> (Spinning, c)
      | Some (Inl e, c1) \<Rightarrow> (Ended (Inl e), c1)
      | Some (Inr True, c1) \<Rightarrow> (Waiting, c1)
      | Some (Inr False, c1) \<Rightarrow> (Ended (Inr ()), c1))"
| "handle_event E cl now (ControlMsg m) c =
     (case process_control_message E now cl m c of
        (Inl e, c1) \<Rightarrow> (Ended (Inl e), c1)
      | (Inr _, c1) \<Rightarrow> (Waiting, c1))"
| "handle_event E cl now AckTimedOut c = (Waiting, c\<lparr>ack_deadline := None\<rparr>)"

definition conn_turn :: "'k env \<Rightarrow> client_id \<Rightarrow> 'k turn \<Rightarrow> 'k conn \<Rightarrow> conn_status \<times> 'k conn" where
  "conn_turn E cl t c =
     handle_event E cl (turn_now t) (turn_event t) (c\<lparr>conn_inv := turn_inv t, conn_k := turn_k t\<rparr>)"

fun conn_loop :: "'k env \<Rightarrow> client_id \<Rightarrow> 'k turn list \<Rightarrow> 'k conn \<Rightarrow> conn_status \<times> 'k conn" where
  "conn_loop E cl [] c = (Waiting, c)"
| "conn_loop E cl (t # ts) c =
     (case conn_turn E cl t c of
        (Waiting, c1) \<Rightarrow> conn_loop E cl ts c1
      | (st, c1) \<Rightarrow> (st, c1))"

definition handle_connection ::
  "'k env \<Rightarrow> client_id \<Rightarrow> chan \<Rightarrow> inventory \<Rightarrow> 'k \<Rightarrow> advertised \<Rightarrow> 'k turn list \<Rightarrow> conn_status \<times> 'k conn" where
  "handle_connection E cl ch iv k adv ts =
     (let c0 = \<lparr>conn_inv = iv, conn_k = k, told = [], wire = [], ack_deadline = None, frame_buf = []\<rparr>;
          c1 = tell (CmdRegister cl ch) c0
      in (case write_msg E (MsgAdvertise (adv_snapshot adv)) None c1 of
            (Inl e, c2) \<Rightarrow> (Ended (Inl e), c2)
          | (Inr _, c2) \<Rightarrow>
              (case conn_loop E cl ts c2 of
                 (Ended res, c3) \<Rightarrow> (Ended res, tell (CmdDisconnected cl) c3)
               | (st, c3) \<Rightarrow> (st, c3))))"

end
