(* ===== verification/Client_Properties.thy ===== *)
theory Client_Properties
  imports Client_Handler Engine_Laws
begin

text \<open>
  What the connection task guarantees: the frame loop ends and does not depend on how the bytes
  arrive, every framed request is dispatched once and in order, the engine hears of the client in a
  fixed pattern, and a grant that cannot be delivered is given back.
\<close>

section \<open>What the operations leave alone\<close>

text \<open>Replacing the read buffer commutes with everything a request does.\<close>

abbreviation with_buf :: "byte list \<Rightarrow> 'a \<times> 'k conn \<Rightarrow> 'a \<times> 'k conn" where
  "with_buf b x \<equiv> (fst x, (snd x)\<lparr>frame_buf := b\<rparr>)"

lemma write_msg_buf [sgc_frame]:
  "write_msg E m f (c\<lparr>frame_buf := b\<rparr>) = with_buf b (write_msg E m f c)"
  by (simp add: write_msg_def split: sum.splits)

lemma send_grant_buf [sgc_frame]:
  "send_grant E r (c\<lparr>frame_buf := b\<rparr>) = with_buf b (send_grant E r c)"
  by (cases c) (simp add: send_grant_def write_msg_def case_prod_beta split: sum.splits)

lemma tell_buf [sgc_frame]: "tell cmd (c\<lparr>frame_buf := b\<rparr>) = (tell cmd c)\<lparr>frame_buf := b\<rparr>"
  by (simp add: tell_def)

lemma deliver_grant_buf [sgc_frame]:
  "deliver_grant E now cl r (c\<lparr>frame_buf := b\<rparr>) = with_buf b (deliver_grant E now cl r c)"
  by (simp add: deliver_grant_def sgc_frame case_prod_beta split: sum.splits)

lemma engine_acquire_buf [sgc_frame]:
  "engine_acquire E cl r (c\<lparr>frame_buf := b\<rparr>) = with_buf b (engine_acquire E cl r c)"
  by (simp add: engine_acquire_def tell_buf split: option.splits)

lemma handle_acquire_buf [sgc_frame]:
  "handle_acquire E now cl r (c\<lparr>frame_buf := b\<rparr>) = with_buf b (handle_acquire E now cl r c)"
  by (simp add: handle_acquire_def acquire_answered_def sgc_frame Let_def case_prod_beta split: acquire_outcome.splits)

lemma handle_release_buf [sgc_frame]:
  "handle_release E cl r (c\<lparr>frame_buf := b\<rparr>) = (handle_release E cl r c)\<lparr>frame_buf := b\<rparr>"
  by (simp add: handle_release_def tell_def Let_def case_prod_beta)

lemma dispatch_request_buf [sgc_frame]:
  "dispatch_request E now cl req (c\<lparr>frame_buf := b\<rparr>) = with_buf b (dispatch_request E now cl req c)"
  by (cases req) (simp_all add: sgc_frame)

text \<open>What is sent to the engine, and the read buffer.\<close>

lemma write_msg_keeps [simp]:
  "told (snd (write_msg E m f c)) = told c" "frame_buf (snd (write_msg E m f c)) = frame_buf c"
  by (simp_all add: write_msg_def split: sum.splits)

lemma send_grant_keeps [simp]:
  "told (snd (send_grant E r c)) = told c" "frame_buf (snd (send_grant E r c)) = frame_buf c"
  by (simp_all add: send_grant_def case_prod_beta split: sum.splits)

lemma tell_simps [simp]:
  "told (tell cmd c) = told c @ [cmd]" "frame_buf (tell cmd c) = frame_buf c"
  by (simp_all add: tell_def)

lemma engine_acquire_keeps [simp]: "frame_buf (snd (engine_acquire E cl r c)) = frame_buf c"
  by (simp add: engine_acquire_def split: option.splits)

lemma deliver_grant_buf_kept [simp]: "frame_buf (snd (deliver_grant E now cl r c)) = frame_buf c"
  by (simp add: deliver_grant_def case_prod_beta split: sum.splits)

lemma deliver_grant_told:
  "told (snd (deliver_grant E now cl r c)) \<in> {told c, told c @ [CmdRelease cl r]}"
  by (simp add: deliver_grant_def case_prod_beta split: sum.splits)

lemma dispatch_keeps_buf [simp]:
  "frame_buf (snd (dispatch_request E now cl req c)) = frame_buf c"
  by (cases req)
    (simp_all add: handle_acquire_def acquire_answered_def handle_release_def Let_def case_prod_beta split: acquire_outcome.splits)

section \<open>The frame loop\<close>

lemma frame_step_shorter:
  assumes "fst (frame_step E now cl c) = Inr True"
  shows "length (frame_buf (snd (frame_step E now cl c))) + FRAME_HEADER_LEN (proto E) \<le> length (frame_buf c)"
  using assms dispatch_keeps_buf [of E now cl]
  by (auto simp: frame_step_def Let_def case_prod_beta split: if_splits sum.splits)

lemma frame_loop_returns:
  assumes "0 < FRAME_HEADER_LEN (proto E)"
  shows "\<exists>x. frame_loop E now cl c = Some x"
proof (induction "length (frame_buf c)" arbitrary: c rule: less_induct)
  case less
  show ?case
  proof (cases "fst (frame_step E now cl c) = Inr True")
    case True
    then have "length (frame_buf (snd (frame_step E now cl c))) < length (frame_buf c)"
      using frame_step_shorter [OF True] assms by simp
    with less True show ?thesis by (subst frame_loop.simps) simp
  next
    case False
    then show ?thesis by (subst frame_loop.simps) simp
  qed
qed

text \<open>More bytes behind a complete frame do not change how the frame is handled.\<close>

lemma frame_step_TrueE:
  assumes "fst (frame_step E now cl c) = Inr True"
  obtains len req c2 where "FRAME_HEADER_LEN (proto E) + len \<le> length (frame_buf c)"
    "parse_frame_header (proto E) (take (FRAME_HEADER_LEN (proto E)) (frame_buf c)) = Inr len"
    "deserialize (proto E) (take len (drop (FRAME_HEADER_LEN (proto E)) (frame_buf c))) = Inr req"
    "dispatch_request E now cl req (c\<lparr>frame_buf := drop (FRAME_HEADER_LEN (proto E) + len) (frame_buf c)\<rparr>) = (Inr (), c2)"
    "frame_step E now cl c = (Inr True, c2)"
proof -
  let ?n = "FRAME_HEADER_LEN (proto E)"
  from assms obtain len where len: "parse_frame_header (proto E) (take ?n (frame_buf c)) = Inr len"
      "\<not> length (frame_buf c) < ?n" "\<not> length (frame_buf c) < ?n + len"
    by (auto simp: frame_step_def Let_def split: if_splits sum.splits)
  with assms obtain req where req: "deserialize (proto E) (take len (drop ?n (frame_buf c))) = Inr req"
    by (auto simp: frame_step_def Let_def split: sum.splits)
  let ?d = "dispatch_request E now cl req (c\<lparr>frame_buf := drop (?n + len) (frame_buf c)\<rparr>)"
  from assms len req have "fst ?d = Inr ()"
    by (auto simp: frame_step_def Let_def case_prod_beta split: sum.splits)
  with len req that [of len req "snd ?d"] show thesis
    by (simp add: frame_step_def Let_def case_prod_beta prod_eq_iff)
qed

lemma frame_step_more:
  assumes "fst (frame_step E now cl c) = Inr True"
  shows "frame_step E now cl (c\<lparr>frame_buf := frame_buf c @ b\<rparr>) =
    with_buf (frame_buf (snd (frame_step E now cl c)) @ b) (frame_step E now cl c)"
proof -
  let ?n = "FRAME_HEADER_LEN (proto E)"
  from assms obtain len req c2 where f: "?n + len \<le> length (frame_buf c)"
    "parse_frame_header (proto E) (take ?n (frame_buf c)) = Inr len"
    "deserialize (proto E) (take len (drop ?n (frame_buf c))) = Inr req"
    "dispatch_request E now cl req (c\<lparr>frame_buf := drop (?n + len) (frame_buf c)\<rparr>) = (Inr (), c2)"
    "frame_step E now cl c = (Inr True, c2)"
    by (rule frame_step_TrueE)
  have rest: "frame_buf c2 = drop (?n + len) (frame_buf c)"
    using dispatch_keeps_buf [of E now cl req "c\<lparr>frame_buf := drop (?n + len) (frame_buf c)\<rparr>"] f(4) by simp
  have "dispatch_request E now cl req (c\<lparr>frame_buf := drop (?n + len) (frame_buf c) @ b\<rparr>) =
      (Inr (), c2\<lparr>frame_buf := frame_buf c2 @ b\<rparr>)"
    using dispatch_request_buf [of E now cl req "drop (?n + len) (frame_buf c) @ b"
        "c\<lparr>frame_buf := drop (?n + len) (frame_buf c)\<rparr>"] f(4) rest by simp
  with f rest show ?thesis
    by (simp add: frame_step_def Let_def)
qed

lemma frame_loop_more:
  assumes "frame_loop E now cl c = Some (Inr (), c1)" "0 < FRAME_HEADER_LEN (proto E)"
  shows "frame_loop E now cl (c\<lparr>frame_buf := frame_buf c @ b\<rparr>) = frame_loop E now cl (c1\<lparr>frame_buf := frame_buf c1 @ b\<rparr>)"
  using assms
proof (induction "length (frame_buf c)" arbitrary: c rule: less_induct)
  case less
  let ?c' = "snd (frame_step E now cl c)"
  show ?case
  proof (cases "fst (frame_step E now cl c) = Inr True")
    case True
    have "length (frame_buf ?c') < length (frame_buf c)"
      using frame_step_shorter [OF True] less(3) by simp
    moreover have "frame_loop E now cl ?c' = Some (Inr (), c1)"
      using less(2) True by (subst (asm) frame_loop.simps) simp
    ultimately have "frame_loop E now cl (?c'\<lparr>frame_buf := frame_buf ?c' @ b\<rparr>) =
        frame_loop E now cl (c1\<lparr>frame_buf := frame_buf c1 @ b\<rparr>)"
      using less by blast
    then show ?thesis
      by (subst frame_loop.simps) (simp add: frame_step_more [OF True] True)
  next
    case False
    with less(2) have "frame_result (frame_step E now cl c) = (Inr (), c1)"
      by (subst (asm) frame_loop.simps) simp
    with False have "frame_step E now cl c = (Inr False, c1)"
      by (cases "fst (frame_step E now cl c)") (auto simp: frame_result_def prod_eq_iff)
    then have "c1 = c"
      by (auto simp: frame_step_def Let_def case_prod_beta split: if_splits sum.splits)
    then show ?thesis by simp
  qed
qed

lemma drain_bytes: "drain_socket (map ReadBytes bss) buf = (Inr True, buf @ concat bss)"
  by (induction bss arbitrary: buf) simp_all

lemma process_bytes:
  "process_wire_bytes E now cl (map ReadBytes bss) c =
    map_option (\<lambda>(res, c1). (map_sum id (\<lambda>_. True) res, c1))
      (frame_loop E now cl (c\<lparr>frame_buf := frame_buf c @ concat bss\<rparr>))"
  by (auto simp: process_wire_bytes_def drain_bytes split: option.splits sum.splits)

text \<open>C26. Frames may be split anywhere: the wire handler always returns, and reading some chunks in one
  wake and further chunks in the next does exactly what reading them all in one wake does, whatever
  the boundaries between chunks, wakes and frames.\<close>

theorem chunking_is_invisible:
  assumes "0 < FRAME_HEADER_LEN (proto E)"
    and "process_wire_bytes E now cl (map ReadBytes bss) c = Some (Inr True, c1)"
  shows "process_wire_bytes E now cl (map ReadBytes (bss @ bss')) c =
      process_wire_bytes E now cl (map ReadBytes bss') c1 \<and>
    process_wire_bytes E now cl (map ReadBytes bss') c1 \<noteq> None"
proof -
  let ?c = "c\<lparr>frame_buf := frame_buf c @ concat bss\<rparr>"
  obtain res where "frame_loop E now cl ?c = Some (res, c1)" "map_sum id (\<lambda>_. True) res = Inr True"
    using assms(2) by (auto simp: process_bytes)
  then have "frame_loop E now cl ?c = Some (Inr (), c1)"
    by (cases res) auto
  from frame_loop_more [OF this assms(1), of "concat bss'"]
  have "frame_loop E now cl (c\<lparr>frame_buf := frame_buf c @ concat (bss @ bss')\<rparr>) =
      frame_loop E now cl (c1\<lparr>frame_buf := frame_buf c1 @ concat bss'\<rparr>)"
    by simp
  then show ?thesis
    using frame_loop_returns [OF assms(1), of now cl "c1\<lparr>frame_buf := frame_buf c1 @ concat bss'\<rparr>"]
    by (auto simp only: process_bytes option.map(2))
qed

text \<open>A codec with one length byte in front of one payload byte.\<close>

definition toy_proto :: protocol where
  "toy_proto =
     \<lparr>FRAME_HEADER_LEN = 1, serialize_framed = \<lambda>_. Inr [],
      deserialize = \<lambda>bs. if bs = [0] then Inr ReqAck else if bs = [1] then Inr (ReqAcquire Fbdev)
        else if bs = [2] then Inr (ReqRelease (Drm 0)) else Inl 1,
      parse_frame_header = \<lambda>bs. Inr (unat (hd bs))\<rparr>"

definition toy_env :: "(nat \<times> (fd \<times> lease_id) list) env" where
  "toy_env =
     \<lparr>proto = toy_proto, kernel = toy_kernel, engine_reply = \<lambda>_ _. Some (Some OutcomeGranted), write_result = \<lambda>_ _. Inr ()\<rparr>"

definition toy_conn :: "(nat \<times> (fd \<times> lease_id) list) conn" where
  "toy_conn =
     \<lparr>conn_inv = \<lparr>fds = [(Fbdev, 3)],
        drm = [(Drm 0, \<lparr>drm_index = 0, state = Some (Leased \<lparr>leased_card = 7, lease = \<lparr>lease_id = 5, lease_fd = 8\<rparr>\<rparr>)\<rparr>)],
        inputs = []\<rparr>,
      conn_k = (9, [(7, 5)]), told = [], wire = [], ack_deadline = None, frame_buf = []\<rparr>"

theorem chunking_is_invisible_witness:
  "\<exists>c1. process_wire_bytes toy_env 3 2 (map ReadBytes [[1], [0, 1]]) toy_conn = Some (Inr True, c1) \<and>
    process_wire_bytes toy_env 3 2 (map ReadBytes ([[1], [0, 1]] @ [[1]])) toy_conn =
      process_wire_bytes toy_env 3 2 (map ReadBytes [[1]]) c1"
proof -
  have "map_option fst (process_wire_bytes toy_env 3 2 (map ReadBytes [[1], [0, 1]]) toy_conn) = Some (Inr True)"
    by code_simp
  then obtain c1 where c1: "process_wire_bytes toy_env 3 2 (map ReadBytes [[1], [0, 1]]) toy_conn = Some (Inr True, c1)"
    by auto
  have "0 < FRAME_HEADER_LEN (proto toy_env)" by code_simp
  from chunking_is_invisible [OF this c1, of "[[1]]"] c1 show ?thesis by blast
qed

section \<open>Every request once, in order\<close>

text \<open>Dispatching a list of requests one after the other, up to the first error.\<close>

fun dispatch_all ::
  "'k env \<Rightarrow> instant \<Rightarrow> client_id \<Rightarrow> client_request list \<Rightarrow> 'k conn \<Rightarrow> (server_error + unit) \<times> 'k conn" where
  "dispatch_all E now cl [] c = (Inr (), c)"
| "dispatch_all E now cl (r # rs) c =
     (case dispatch_request E now cl r c of
        (Inl e, c1) \<Rightarrow> (Inl e, c1)
      | (Inr _, c1) \<Rightarrow> dispatch_all E now cl rs c1)"

text \<open>\<open>encode\<close> is how the client's half of the protocol crate frames a request.\<close>

definition framing :: "protocol \<Rightarrow> (client_request \<Rightarrow> byte list) \<Rightarrow> client_request \<Rightarrow> bool" where
  "framing P encode r \<longleftrightarrow>
     FRAME_HEADER_LEN P \<le> length (encode r) \<and>
     parse_frame_header P (take (FRAME_HEADER_LEN P) (encode r)) = Inr (length (encode r) - FRAME_HEADER_LEN P) \<and>
     deserialize P (drop (FRAME_HEADER_LEN P) (encode r)) = Inr r"

lemma frame_step_framed:
  assumes "framing (proto E) encode r"
  shows "frame_step E now cl (c\<lparr>frame_buf := encode r @ b\<rparr>) =
    (case dispatch_request E now cl r (c\<lparr>frame_buf := b\<rparr>) of
       (Inl e, c2) \<Rightarrow> (Inl e, c2) | (Inr _, c2) \<Rightarrow> (Inr True, c2))"
  using assms by (simp add: frame_step_def framing_def Let_def)

lemma frame_loop_framed:
  assumes "\<forall>r\<in>set rs. framing (proto E) encode r" "0 < FRAME_HEADER_LEN (proto E)"
    and "dispatch_all E now cl rs (c\<lparr>frame_buf := []\<rparr>) = (Inr (), c')"
  shows "frame_loop E now cl (c\<lparr>frame_buf := concat (map encode rs)\<rparr>) = Some (Inr (), c')"
  using assms
proof (induction rs arbitrary: c)
  case Nil
  then have "frame_step E now cl (c\<lparr>frame_buf := []\<rparr>) = (Inr False, c')"
    by (auto simp: frame_step_def)
  then show ?case
    by (subst frame_loop.simps) (simp add: frame_result_def)
next
  case (Cons r rs)
  let ?b = "concat (map encode rs)"
  obtain u c1 where d: "dispatch_request E now cl r (c\<lparr>frame_buf := []\<rparr>) = (Inr u, c1)"
    using Cons(4) by (auto split: prod.splits sum.splits)
  have "dispatch_request E now cl r (c\<lparr>frame_buf := ?b\<rparr>) = (Inr u, c1\<lparr>frame_buf := ?b\<rparr>)"
    using dispatch_request_buf [of E now cl r ?b "c\<lparr>frame_buf := []\<rparr>"] d by simp
  then have step: "frame_step E now cl (c\<lparr>frame_buf := encode r @ ?b\<rparr>) = (Inr True, c1\<lparr>frame_buf := ?b\<rparr>)"
    using frame_step_framed [of E encode r now cl ?b c] Cons(2) by simp
  have "c1\<lparr>frame_buf := []\<rparr> = c1"
    using dispatch_keeps_buf [of E now cl r "c\<lparr>frame_buf := []\<rparr>"] d by (cases c1) simp
  then have "frame_loop E now cl (c1\<lparr>frame_buf := ?b\<rparr>) = Some (Inr (), c')"
    using Cons d by simp
  with step show ?case
    by (subst frame_loop.simps) simp
qed

text \<open>C27. Every request is handled once and in the order it was sent: whatever chunks the bytes of a list
  of framed requests arrive in, handling them is dispatching the requests one after the other, with
  nothing left in the buffer.\<close>

theorem framed_requests_in_order:
  assumes "\<forall>r\<in>set rs. framing (proto E) encode r" "0 < FRAME_HEADER_LEN (proto E)"
    and "dispatch_all E now cl rs c = (Inr (), c')" "frame_buf c = []"
    and "concat bss = concat (map encode rs)"
  shows "process_wire_bytes E now cl (map ReadBytes bss) c = Some (Inr True, c')"
proof -
  have "c\<lparr>frame_buf := []\<rparr> = c" using assms(4) by (cases c) simp
  then have "frame_loop E now cl (c\<lparr>frame_buf := concat (map encode rs)\<rparr>) = Some (Inr (), c')"
    using frame_loop_framed [OF assms(1,2)] assms(3) by simp
  then show ?thesis
    by (simp add: process_bytes assms(4,5))
qed

theorem framed_requests_in_order_witness:
  "\<exists>c'. process_wire_bytes toy_env 3 2 (map ReadBytes [[1], [1, 1], [0]]) toy_conn = Some (Inr True, c') \<and>
    told c' = [CmdAcquire 2 Fbdev]"
proof -
  let ?encode = "\<lambda>r. case r of ReqAck \<Rightarrow> [1, 0] | ReqAcquire _ \<Rightarrow> [1, 1] | ReqRelease _ \<Rightarrow> [1, 2]"
  let ?rs = "[ReqAcquire Fbdev, ReqAck]"
  let ?c' = "snd (dispatch_all toy_env 3 2 ?rs toy_conn)"
  have "\<forall>r\<in>set ?rs. framing (proto toy_env) ?encode r"
    by (simp add: framing_def toy_env_def toy_proto_def)
  moreover have "0 < FRAME_HEADER_LEN (proto toy_env)" by code_simp
  moreover have "fst (dispatch_all toy_env 3 2 ?rs toy_conn) = Inr ()" "told ?c' = [CmdAcquire 2 Fbdev]"
    by code_simp+
  then have "dispatch_all toy_env 3 2 ?rs toy_conn = (Inr (), ?c')" by (simp add: prod_eq_iff)
  moreover have "frame_buf toy_conn = []" by (simp add: toy_conn_def)
  moreover have "concat [[1], [1, 1], [0]] = concat (map ?encode ?rs)" by simp
  ultimately have "process_wire_bytes toy_env 3 2 (map ReadBytes [[1], [1, 1], [0]]) toy_conn = Some (Inr True, ?c')"
    by (rule framed_requests_in_order)
  with \<open>told ?c' = [CmdAcquire 2 Fbdev]\<close> show ?thesis by blast
qed

section \<open>Grants that cannot be delivered\<close>

lemma policy_order_Nil [simp]: "policy_order p [] = []"
  by (cases p) simp_all

lemma acquire_then_release:
  assumes inv: "engine_inv e" and acq: "acquire_one ok now cl r e = (OutcomeGranted, e1, out)"
  shows "map_of (slots (fst (release_one ok' cl r e1))) r = map_of (slots e) r"
proof (cases rule: acquire_one_cases [of ok now cl r e])
  case (granted s)
  have s: "waiters s = []" "revoke_deadline s = None"
    using engine_invD(3) [OF inv granted(1)] granted(2) by (auto simp: slot_inv_def)
  have "next_waiter (s\<lparr>owner := None, revoke_deadline := None\<rparr>) = None"
    using s by (simp add: slot_service.pop_None_iff service_order_def policy_order_Nil)
  then have "release_slot ok' (control_reg e) cl r (s\<lparr>owner := Some cl\<rparr>) = (s\<lparr>owner := None, revoke_deadline := None\<rparr>, [])"
    using s by (simp add: release_slot_def grant_next_nobody)
  moreover have "s\<lparr>owner := None, revoke_deadline := None\<rparr> = s"
    using s granted(2) by (cases s) simp
  moreover have e1: "e1 = put_slot r (s\<lparr>owner := Some cl\<rparr>) e"
    using acq granted by simp
  ultimately show ?thesis
    using granted(1) release_one_owner [of e1 r "s\<lparr>owner := Some cl\<rparr>" cl ok'] unfolding e1 by simp
next
  case (queued s)
  moreover have "fst (queue_waiter ok now cl r (seat_steals e cl r s) s e) = OutcomeQueued"
    by (simp add: queue_waiter_def Let_def case_prod_beta split: option.splits)
  ultimately show ?thesis using acq by (metis acquire_outcome.distinct(1) fst_conv)
qed (use acq in auto)

text \<open>C28. A grant that cannot be delivered is given back: when the engine has granted an Acquire and the
  descriptor cannot be produced or sent, the task releases the resource again and arms no ack
  timer, and the engine's slot for it is then what it was before the Acquire.\<close>

theorem failed_grant_rolls_back:
  assumes "engine_reply E (told c) r = Some (Some OutcomeGranted)"
    and "fst (send_grant E r (tell (CmdAcquire cl r) c)) = Inl err"
    and "engine_inv e" "acquire_one ok now cl r e = (OutcomeGranted, e1, out)"
  shows "told (snd (handle_acquire E now cl r c)) = told c @ [CmdAcquire cl r, CmdRelease cl r] \<and>
    ack_deadline (snd (handle_acquire E now cl r c)) = ack_deadline c \<and>
    map_of (slots (fst (release_one ok cl r e1))) r = map_of (slots e) r"
proof -
  have kept: "ack_deadline (snd (write_msg E m f c')) = ack_deadline c'" for m f c'
    by (simp add: write_msg_def split: sum.splits)
  moreover have "ack_deadline (snd (send_grant E r c')) = ack_deadline c'" for c'
    by (simp add: send_grant_def kept case_prod_beta split: sum.splits)
  ultimately have "ack_deadline (snd (handle_acquire E now cl r c)) = ack_deadline c"
    using assms(1,2) by (simp add: handle_acquire_def acquire_answered_def engine_acquire_def deliver_grant_def case_prod_beta tell_def)
  moreover have "told (snd (handle_acquire E now cl r c)) = told c @ [CmdAcquire cl r, CmdRelease cl r]"
    using assms(1,2) by (simp add: handle_acquire_def acquire_answered_def engine_acquire_def deliver_grant_def case_prod_beta)
  ultimately show ?thesis
    using acquire_then_release [OF assms(3,4)] by blast
qed

theorem failed_grant_rolls_back_witness:
  "told (snd (handle_acquire toy_env 3 1 (Input (Mouse 0)) toy_conn)) =
    [CmdAcquire 1 (Input (Mouse 0)), CmdRelease 1 (Input (Mouse 0))]"
proof -
  let ?r = "Input (Mouse 0)"
  let ?e = "(init_engine [(?r, FairQueue)])\<lparr>control_reg := [(1, 101)]\<rparr>"
  have "engine_reply toy_env (told toy_conn) ?r = Some (Some OutcomeGranted)" by (simp add: toy_env_def)
  moreover have "fst (send_grant toy_env ?r (tell (CmdAcquire 1 ?r) toy_conn)) = Inl (Other (GrantErr (FdNotRegistered ?r)))"
    by code_simp
  moreover have "engine_inv ?e"
    by (simp add: engine_inv_def init_engine_def slot_inv_new_slot)
  moreover have "acquire_one (\<lambda>_ _. True) 3 1 ?r ?e =
      (OutcomeGranted, put_slot ?r ((new_slot FairQueue)\<lparr>owner := Some 1\<rparr>) ?e, [])"
    by (simp add: acquire_one_def init_engine_def new_slot_def Engine_Model.slot_state_def)
  ultimately have "told (snd (handle_acquire toy_env 3 1 ?r toy_conn)) = told toy_conn @ [CmdAcquire 1 ?r, CmdRelease 1 ?r]"
    using failed_grant_rolls_back by blast
  then show ?thesis by (simp add: toy_conn_def)
qed

section \<open>A Release of somebody else's display\<close>

text \<open>C36. A Release is not checked before the lease is revoked: a client that does not own a card can
  send a Release for it, upon which the kernel lease of the owner is gone, while the engine ignores
  the Release and still has the owner as owner.\<close>

theorem foreign_release_kills_lease:
  assumes K: "lease_kernel (kernel E) leases"
    and d: "map_of (drm (conn_inv c)) (Drm n) = Some d" "state d = Some (Leased ld)"
    and live: "leases (conn_k c) (leased_card ld) = {lease_id (lease ld)}"
    and revoked: "k_revoke_lease (kernel E) (conn_k c) (leased_card ld) (lease_id (lease ld)) = (Inr u, k')"
    and other: "owner_of e (Drm n) = Some ow" "ow \<noteq> cl"
  shows "leases (conn_k (handle_release E cl (Drm n) c)) (leased_card ld) = {} \<and>
    handle_command ok now (CmdRelease cl (Drm n)) e = (None, e, [])"
proof -
  have "conn_k (handle_release E cl (Drm n) c) = k'"
    using d revoked
    by (simp add: handle_release_def drm_revoke_lease_def leased_revoke_lease_def tell_def)
  moreover have "leases k' (leased_card ld) = {}"
    using lease_kernelD(3) [OF K revoked] live by simp
  moreover have "handle_release_cmd ok now cl (Drm n) e = (e, [])"
    using other by (simp add: handle_release_cmd_def release_one_not_owner owner_of_def)
  ultimately show ?thesis by simp
qed

definition card_engine :: engine where
  "card_engine =
     \<lparr>slots = [(Drm 0, (new_slot FairQueue)\<lparr>owner := Some 1\<rparr>)], control_reg = [(1, 101), (2, 102)]\<rparr>"

theorem foreign_release_kills_lease_witness:
  "toy_leases (conn_k (handle_release toy_env 2 (Drm 0) toy_conn)) 7 = {} \<and>
    fst (snd (handle_command (\<lambda>_ _. True) 3 (CmdRelease 2 (Drm 0)) card_engine)) = card_engine"
proof -
  let ?d = "\<lparr>drm_index = 0, state = Some (Leased \<lparr>leased_card = 7, lease = \<lparr>lease_id = 5, lease_fd = 8\<rparr>\<rparr>)\<rparr>"
  have K: "lease_kernel (kernel toy_env) toy_leases" by (simp add: toy_env_def toy_lease_kernel)
  have "map_of (drm (conn_inv toy_conn)) (Drm 0) = Some ?d" "toy_leases (conn_k toy_conn) 7 = {5}"
    "k_revoke_lease (kernel toy_env) (conn_k toy_conn) 7 5 = (Inr (), 9, [])"
    "owner_of card_engine (Drm 0) = Some 1"
    by (auto simp: toy_conn_def toy_env_def toy_kernel_def toy_leases_def card_engine_def owner_of_def)
  with foreign_release_kills_lease [OF K, of toy_conn 0 ?d _ "()" "(9, [])" card_engine 1 2 "\<lambda>_ _. True" 3]
  show ?thesis by auto
qed

section \<open>What the engine hears of a client\<close>

text \<open>The commands a task sends while its connection lives.\<close>

definition own_request :: "client_id \<Rightarrow> engine_command \<Rightarrow> bool" where
  "own_request cl cmd \<longleftrightarrow> (\<exists>r. cmd = CmdAcquire cl r \<or> cmd = CmdRelease cl r)"

definition extends :: "client_id \<Rightarrow> 'k conn \<Rightarrow> 'k conn \<Rightarrow> bool" where
  "extends cl c c' \<longleftrightarrow> (\<exists>body. told c' = told c @ body \<and> list_all (own_request cl) body)"

lemma extends_refl: "told c' = told c \<Longrightarrow> extends cl c c'"
  by (simp add: extends_def)

lemma extends_trans: "extends cl c c' \<Longrightarrow> extends cl c' c'' \<Longrightarrow> extends cl c c''"
  by (force simp: extends_def)

lemma deliver_grant_extends: "extends cl c (snd (deliver_grant E now cl r c))"
  using deliver_grant_told [of E now cl r c] by (auto simp: extends_def own_request_def)

lemma tell_extends: "own_request cl cmd \<Longrightarrow> extends cl c (tell cmd c)"
  by (simp add: extends_def)

lemma dispatch_extends: "extends cl c (snd (dispatch_request E now cl req c))"
proof (cases req)
  case (ReqAcquire r)
  have asked: "extends cl c (snd (engine_acquire E cl r c))"
    by (auto simp: engine_acquire_def own_request_def extends_refl intro: tell_extends split: option.splits)
  moreover have "extends cl c' (snd (write_msg E m f c'))" for c' m f
    by (rule extends_refl) simp
  ultimately show ?thesis
    using ReqAcquire deliver_grant_extends [of cl "snd (engine_acquire E cl r c)" E now r]
    by (auto simp: handle_acquire_def acquire_answered_def Let_def case_prod_beta intro: extends_trans split: acquire_outcome.splits)
next
  case (ReqRelease r)
  then show ?thesis
    by (simp add: handle_release_def case_prod_beta extends_def own_request_def)
qed (simp add: extends_refl)

lemma frame_step_extends: "extends cl c (snd (frame_step E now cl c))"
proof -
  have "extends cl c (snd (dispatch_request E now cl req (c\<lparr>frame_buf := b\<rparr>)))" for req b
    using dispatch_extends [of cl "c\<lparr>frame_buf := b\<rparr>" E now req] by (simp add: extends_def)
  then show ?thesis
    by (auto simp: frame_step_def Let_def case_prod_beta extends_refl split: if_splits sum.splits)
qed

lemma frame_loop_extends:
  assumes "frame_loop E now cl c = Some x" shows "extends cl c (snd x)"
proof (rule frame_loop.raw_induct [where P = "\<lambda>E now cl c x. extends cl c (snd x)", OF _ assms])
  fix loop E now cl c x
  assume 1: "\<And>E now cl c x. loop E now cl c = Some x \<Longrightarrow> extends cl c (snd x)"
    "(if fst (frame_step E now cl c) = Inr True then loop E now cl (snd (frame_step E now cl c))
      else Some (frame_result (frame_step E now cl c))) = Some x"
  show "extends cl c (snd x)"
  proof (cases "fst (frame_step E now cl c) = Inr True")
    case True
    with 1(2) have "extends cl (snd (frame_step E now cl c)) (snd x)" by (intro 1(1)) simp
    with frame_step_extends show ?thesis by (rule extends_trans)
  next
    case False
    with 1(2) have "snd x = snd (frame_step E now cl c)"
      by (auto simp: frame_result_def split: sum.splits)
    then show ?thesis by (simp add: frame_step_extends)
  qed
qed

lemma process_wire_extends:
  assumes "process_wire_bytes E now cl reads c = Some x" shows "extends cl c (snd x)"
proof -
  have "extends cl c (snd y)" if "frame_loop E now cl (c\<lparr>frame_buf := b\<rparr>) = Some y" for y b
    using frame_loop_extends [OF that] by (simp add: extends_def)
  with assms show ?thesis
    by (fastforce simp: process_wire_bytes_def extends_refl split: prod.splits sum.splits bool.splits option.splits)
qed

lemma handle_event_extends: "extends cl c (snd (handle_event E cl now ev c))"
proof (cases ev)
  case (WireReadable reads)
  then show ?thesis
    using process_wire_extends [of E now cl reads c]
    by (force simp: extends_refl split: option.splits prod.splits sum.splits bool.splits)
next
  case (ControlMsg m)
  then show ?thesis
    using deliver_grant_extends [of cl c E now]
    by (cases m) (auto simp: case_prod_beta extends_refl split: sum.splits)
qed (simp add: extends_refl)

lemma conn_loop_extends: "extends cl c (snd (conn_loop E cl ts c))"
proof (induction ts arbitrary: c)
  case (Cons t ts)
  have "extends cl c (snd (conn_turn E cl t c))"
    using handle_event_extends [of cl "c\<lparr>conn_inv := turn_inv t, conn_k := turn_k t\<rparr>" E "turn_now t" "turn_event t"]
    by (simp add: conn_turn_def extends_def)
  with Cons show ?case
    by (force split: prod.splits conn_status.splits intro: extends_trans)
qed (simp add: extends_refl)

text \<open>The engine hears of a client in a fixed pattern: first its registration, then Acquires and
  Releases of that client only, and, once a connection that got its first list out has ended (with
  or without an error), its disconnect, exactly once and last.\<close>

theorem connection_pattern:
  assumes "handle_connection E cl ch iv k adv ts = (st, c)"
    and "write_result E [] (MsgAdvertise adv) = Inr ()" "serialize_framed (proto E) (MsgAdvertise adv) = Inr bytes"
  shows "\<exists>body. list_all (own_request cl) body \<and>
    told c = CmdRegister cl ch # body @ (case st of Ended _ \<Rightarrow> [CmdDisconnected cl] | _ \<Rightarrow> [])"
proof -
  define c2 where "c2 = \<lparr>conn_inv = iv, conn_k = k, told = [CmdRegister cl ch],
    wire = [(MsgAdvertise adv, None)], ack_deadline = None, frame_buf = []\<rparr>"
  obtain body where body: "told (snd (conn_loop E cl ts c2)) = CmdRegister cl ch # body" "list_all (own_request cl) body"
    using conn_loop_extends [of cl c2 E ts] by (auto simp: extends_def c2_def)
  have "(st, c) = (case conn_loop E cl ts c2 of
      (Ended res, c3) \<Rightarrow> (Ended res, tell (CmdDisconnected cl) c3) | (st, c3) \<Rightarrow> (st, c3))"
    using assms by (simp add: handle_connection_def write_msg_def tell_def adv_snapshot_def c2_def)
  with body show ?thesis
    by (intro exI [of _ body]) (auto split: prod.splits conn_status.splits)
qed

theorem connection_pattern_witness:
  "\<exists>body. told (snd (handle_connection toy_env 2 102 (conn_inv toy_conn) (conn_k toy_conn) [Fbdev]
      [\<lparr>turn_now = 3, turn_inv = conn_inv toy_conn, turn_k = conn_k toy_conn, turn_event = WireReadable [ReadEof]\<rparr>])) =
    CmdRegister 2 102 # body @ [CmdDisconnected 2]"
proof -
  let ?ts = "[\<lparr>turn_now = 3, turn_inv = conn_inv toy_conn, turn_k = conn_k toy_conn, turn_event = WireReadable [ReadEof]\<rparr>]"
  obtain st c where eq: "handle_connection toy_env 2 102 (conn_inv toy_conn) (conn_k toy_conn) [Fbdev] ?ts = (st, c)"
    by fastforce
  have "fst (handle_connection toy_env 2 102 (conn_inv toy_conn) (conn_k toy_conn) [Fbdev] ?ts) = Ended (Inr ())"
    by code_simp
  with eq connection_pattern [OF eq, of "[]"] show ?thesis
    by (auto simp: toy_env_def toy_proto_def)
qed

text \<open>A client whose connection breaks before the first list is out stays registered: if the first
  write fails, the task ends with the error and the engine, which was told of the client, is never
  told of its disconnect.\<close>

theorem early_failure_leaks_registration:
  assumes "serialize_framed (proto E) (MsgAdvertise adv) = Inr bytes" "write_result E [] (MsgAdvertise adv) = Inl e"
  shows "fst (handle_connection E cl ch iv k adv ts) = Ended (Inl (WriteErr e)) \<and>
    told (snd (handle_connection E cl ch iv k adv ts)) = [CmdRegister cl ch]"
  using assms by (simp add: handle_connection_def write_msg_def tell_def adv_snapshot_def)

theorem early_failure_leaks_registration_witness:
  "told (snd (handle_connection (toy_env\<lparr>write_result := \<lambda>_ _. Inl 32\<rparr>) 2 102 (conn_inv toy_conn) (conn_k toy_conn) [Fbdev] [])) =
    [CmdRegister 2 102]"
  using early_failure_leaks_registration [of "toy_env\<lparr>write_result := \<lambda>_ _. Inl 32\<rparr>" "[Fbdev]" "[]" 32]
  by (simp add: toy_env_def toy_proto_def)

end
