(* ===== verification/Daemon_System.thy ===== *)
theory Daemon_System
  imports Engine_Runs Hotplug_Watch Client_Properties
begin

text \<open>
  The daemon as a whole (\<open>src/main.rs\<close>): the tasks that run side by side and what they share.  The
  engine's mailbox (the channel of \<open>PolicyEngine\<close>) is a queue of commands; the reconciler makes
  passes and sends what they produced one command at a time; every connection registers its client,
  sends that client's requests and reports its disconnect, or breaks off before.  Commands of
  different tasks interleave freely in the mailbox.  The shared inventory and the advertised list
  are as the last command of the reconciler found them.
\<close>

section \<open>State\<close>

record daemon =
  d_sys :: engine_sys
  d_mail :: "engine_command list"
  d_hp :: hp
  d_todo :: "(engine_command \<times> inventory \<times> advertised) list"
  d_inv :: inventory
  d_adv :: advertised
  d_open :: "client_id set"
  d_next :: u64

text \<open>What \<open>main\<close> wires up, and \<open>main\<close> itself: a policy that does not parse ends it.\<close>

definition daemon_boot ::
  "'k drm_kernel \<Rightarrow> 'k \<Rightarrow> io_error + fd \<Rightarrow> fs_view \<Rightarrow> policy \<Rightarrow> instant \<Rightarrow> daemon" where
  "daemon_boot K k fb fs pol now =
     (let (iv, opened, k') = open_resources K k fb fs;
          adv = adv_new opened
      in \<lparr>d_sys = \<lparr>eng = init_engine (main_policies pol adv), clock = now\<rparr>, d_mail = [],
          d_hp = startup_hp iv adv, d_todo = [], d_inv = iv, d_adv = adv,
          d_open = {}, d_next = NEXT_CLIENT_ID_init\<rparr>)"

definition daemon_main ::
  "'k drm_kernel \<Rightarrow> 'k \<Rightarrow> io_error + fd \<Rightarrow> fs_view \<Rightarrow> string option \<Rightarrow> instant \<Rightarrow> string + daemon" where
  "daemon_main K k fb fs var now =
     (case policy_from_env var of
        Inl bad \<Rightarrow> Inl bad
      | Inr pol \<Rightarrow> Inr (daemon_boot K k fb fs pol now))"

section \<open>Steps\<close>

datatype daemon_event =
  PassStarted
| Published
| Told engine_command
| Connected_as client_id "resource list"
| Requested engine_command
| Closed client_id
| Broken client_id
| Engine engine_event

text \<open>
  \<open>Published\<close>: the reconciler has updated the shared structures for its next command but not sent
  it yet.  \<open>Connected_as\<close>: a connection is accepted, registers, and is shown the advertised list.
  \<open>Broken\<close>: its first write failed, so that its task ends without a disconnect.
\<close>

inductive daemon_step ::
  "(resource \<Rightarrow> string) \<Rightarrow> policy \<Rightarrow> daemon \<Rightarrow> daemon_event \<Rightarrow> daemon \<Rightarrow> bool"
  for fmt :: "resource \<Rightarrow> string" and pol :: policy where
  pass:
    "d_todo s = [] \<Longrightarrow> reconcile fs fmt pol ((d_hp s)\<lparr>hp_out := []\<rparr>) = (retry, h) \<Longrightarrow>
     daemon_step fmt pol s PassStarted (s\<lparr>d_hp := h, d_todo := hp_out h\<rparr>)"
| publish:
    "d_todo s = (cmd, iv, adv) # todo \<Longrightarrow>
     daemon_step fmt pol s Published (s\<lparr>d_inv := iv, d_adv := adv\<rparr>)"
| settle:
    "d_todo s = [] \<Longrightarrow>
     daemon_step fmt pol s Published (s\<lparr>d_inv := hp_inv (d_hp s), d_adv := hp_adv (d_hp s)\<rparr>)"
| tells:
    "d_todo s = (cmd, iv, adv) # todo \<Longrightarrow>
     daemon_step fmt pol s (Told cmd)
       (s\<lparr>d_inv := iv, d_adv := adv, d_todo := todo, d_mail := d_mail s @ [cmd]\<rparr>)"
| connect:
    "alloc_client_id (d_next s) = (c, n) \<Longrightarrow> c \<notin> d_open s \<Longrightarrow>
     daemon_step fmt pol s (Connected_as c (adv_snapshot (d_adv s)))
       (s\<lparr>d_open := insert c (d_open s), d_next := n, d_mail := d_mail s @ [CmdRegister c ch]\<rparr>)"
| request:
    "c \<in> d_open s \<Longrightarrow> own_request c cmd \<Longrightarrow>
     daemon_step fmt pol s (Requested cmd) (s\<lparr>d_mail := d_mail s @ [cmd]\<rparr>)"
| close:
    "c \<in> d_open s \<Longrightarrow>
     daemon_step fmt pol s (Closed c) (s\<lparr>d_open := d_open s - {c}, d_mail := d_mail s @ [CmdDisconnected c]\<rparr>)"
| break_off:
    "c \<in> d_open s \<Longrightarrow> daemon_step fmt pol s (Broken c) (s\<lparr>d_open := d_open s - {c}\<rparr>)"
| handle:
    "d_mail s = cmd # mail \<Longrightarrow> clock (d_sys s) \<le> now \<Longrightarrow>
     handle_command ok now cmd (eng (d_sys s)) = (res, e', out) \<Longrightarrow>
     daemon_step fmt pol s (Engine (Handled cmd res out))
       (s\<lparr>d_sys := \<lparr>eng = e', clock = now\<rparr>, d_mail := mail\<rparr>)"
| timeout:
    "engine_step (d_sys s) (TimedOut out) sys' \<Longrightarrow>
     daemon_step fmt pol s (Engine (TimedOut out)) (s\<lparr>d_sys := sys'\<rparr>)"

inductive_cases daemon_handleE: "daemon_step fmt pol s (Engine (Handled cmd res out)) t"

text \<open>
  The daemon starts on a machine whose input nodes have distinct names with at most 256 devices of
  a class; \<open>fmt\<close> gives distinct resources distinct texts.
\<close>

definition daemon_init ::
  "'k drm_kernel \<Rightarrow> 'k \<Rightarrow> io_error + fd \<Rightarrow> fs_view \<Rightarrow> (resource \<Rightarrow> string) \<Rightarrow> string option \<Rightarrow> policy \<Rightarrow> daemon \<Rightarrow> bool" where
  "daemon_init K k fb fs fmt var pol s \<longleftrightarrow>
     inj fmt \<and> distinct (map pd_path (probe_all fs)) \<and>
     (\<forall>c. length (filter (\<lambda>p. pd_class p = c) (probe_all fs)) \<le> 256) \<and>
     policy_from_env var = Inr pol \<and> (\<exists>now. daemon_main K k fb fs var now = Inr s)"

section \<open>The mailbox\<close>

text \<open>The clients that are registered once a command has been handled.\<close>

fun reg_after :: "engine_command \<Rightarrow> client_id set \<Rightarrow> client_id set" where
  "reg_after (CmdRegister c _) R = insert c R"
| "reg_after (CmdDisconnected c) R = R - {c}"
| "reg_after _ R = R"

fun orderly :: "client_id set \<Rightarrow> engine_command list \<Rightarrow> bool" where
  "orderly R [] \<longleftrightarrow> True"
| "orderly R (CmdAcquire c r # cmds) \<longleftrightarrow> c \<in> R \<and> orderly R cmds"
| "orderly R (cmd # cmds) \<longleftrightarrow> orderly (reg_after cmd R) cmds"

lemma orderly_append [simp]:
  "orderly R (xs @ ys) \<longleftrightarrow> orderly R xs \<and> orderly (fold reg_after xs R) ys"
  by (induction R xs rule: orderly.induct) simp_all

abbreviation registered :: "engine \<Rightarrow> client_id set" where
  "registered e \<equiv> dom (map_of (control_reg e))"

lemma registered_command:
  "registered (fst (snd (handle_command ok now cmd e))) = reg_after cmd (registered e)"
proof (cases cmd)
  case (CmdRelease c r)
  then show ?thesis by (simp add: handle_release_cmd_def Let_def case_prod_beta)
next
  case (CmdDisconnected c)
  then show ?thesis by (auto simp: handle_disconnected_def Let_def)
next
  case (CmdResume r)
  then show ?thesis by (simp add: handle_resume_def Let_def split: option.splits)
next
  case (CmdSuspend r)
  then show ?thesis by (simp add: handle_suspend_def split: option.splits)
next
  case (CmdOffer r p)
  then show ?thesis by (simp add: handle_offer_def)
qed (simp_all add: case_prod_beta Let_def)

lemma orderly_head: "orderly (registered e) (cmd # cmds) \<Longrightarrow> admissible e cmd \<and> orderly (reg_after cmd (registered e)) cmds"
  by (cases cmd) (auto simp: domIff)

lemma own_request_reg [simp]: "own_request c cmd \<Longrightarrow> reg_after cmd R = R"
  by (auto simp: own_request_def)

lemma own_request_orderly: "own_request c cmd \<Longrightarrow> c \<in> R \<Longrightarrow> orderly R [cmd]"
  by (auto simp: own_request_def)

lemma own_request_absence [simp]: "own_request c cmd \<Longrightarrow> absence_after cmd a = a"
  by (auto simp: own_request_def)

lemma own_request_lists: "own_request c cmd \<Longrightarrow> lists_current a [cmd]"
  by (auto simp: own_request_def)

lemma lists_current_tail: "lists_current a (cmd # cmds) \<Longrightarrow> lists_current (absence_after cmd a) cmds"
  by (cases "(a, cmd # cmds)" rule: lists_current.cases) auto

lemma timely_command:
  assumes "timely (cmd, iv, adv)"
  shows "orderly R [cmd]" "reg_after cmd R = R" "adv_backed iv adv"
  using assms consistent_backed by (cases cmd; auto)+

section \<open>The invariant of the whole\<close>

text \<open>
  The engine has got where it is by admissible steps; the mailbox keeps every client's commands in
  order; and the engine, once it has handled what is in the mailbox and what the reconciler has
  still to send, agrees with the reconciler about every device, each pushed list being current when
  its turn comes.
\<close>

definition daemon_inv :: "(resource \<Rightarrow> string) \<Rightarrow> daemon \<Rightarrow> bool" where
  "daemon_inv fmt s \<longleftrightarrow>
     inj fmt \<and> reach engine_start engine_step (d_sys s) \<and> hp_ok fmt (d_hp s) \<and>
     list_all timely (d_todo s) \<and> adv_backed (d_inv s) (d_adv s) \<and>
     orderly (registered (eng (d_sys s))) (d_mail s) \<and>
     d_open s \<subseteq> fold reg_after (d_mail s) (registered (eng (d_sys s))) \<and>
     tracks (fold absence_after (d_mail s @ map fst (d_todo s)) (absence (eng (d_sys s)))) (hp_inv (d_hp s)) \<and>
     lists_current (absence (eng (d_sys s))) (d_mail s @ map fst (d_todo s))"

lemma distinct_main_policies: "distinct (map fst (main_policies pol adv))"
proof -
  have "distinct (map fst al) \<Longrightarrow> distinct (map fst (fold (\<lambda>r al. AList.update r pol al) rs al))" for rs al
    by (induction rs arbitrary: al) simp_all
  from this [of "[]"] show ?thesis by (simp add: main_policies_def)
qed

lemma daemon_init_inv:
  assumes "daemon_init K k fb fs fmt var pol s" shows "daemon_inv fmt s"
proof -
  obtain iv adv k' where opened: "open_resources K k fb fs = (iv, adv, k')" by (rule prod_cases3)
  from assms obtain now where s: "s = daemon_boot K k fb fs pol now"
    and ok: "inj fmt" "distinct (map pd_path (probe_all fs))"
      "\<forall>c. length (filter (\<lambda>p. pd_class p = c) (probe_all fs)) \<le> 256"
    by (auto simp: daemon_init_def daemon_main_def)
  have hp: "hp_ok fmt (startup_hp iv adv)" by (rule startup_hp_ok [OF opened ok(2,3)])
  then have con: "consistent iv adv" by (simp add: hp_ok_def startup_hp_def)
  have "reach engine_start engine_step \<lparr>eng = init_engine (main_policies pol adv), clock = now\<rparr>"
    by (intro reach_start) (auto simp: engine_start_def intro!: exI [of _ "main_policies pol adv"] distinct_main_policies)
  with s ok(1) hp con startup_in_step [OF opened con, of pol] show ?thesis
    by (simp add: daemon_inv_def daemon_boot_def opened adv_new_def in_step_tracks consistent_backed startup_hp_def)
qed

lemma daemon_pass_inv:
  assumes "daemon_inv fmt s" "d_todo s = []" "reconcile fs fmt pol ((d_hp s)\<lparr>hp_out := []\<rparr>) = (retry, h)"
  shows "daemon_inv fmt (s\<lparr>d_hp := h, d_todo := hp_out h\<rparr>)"
proof -
  let ?h = "(d_hp s)\<lparr>hp_out := []\<rparr>" and ?a = "fold absence_after (d_mail s) (absence (eng (d_sys s)))"
  have ok: "hp_ok fmt ?h" "inj fmt" using assms(1) by (simp_all add: daemon_inv_def hp_ok_def)
  then have "refines fmt pol ?h h" using reconcile_refines [OF ok, of pol fs] assms(3) by simp
  then have h: "hp_ok fmt h" "hp_changes pol ?h h" by (simp_all add: refines_def)
  have "tracks ?a (hp_inv ?h)" using assms(1,2) by (simp add: daemon_inv_def)
  from hp_changes_tracks [OF h(2) this] have "tracks (fold absence_after (map fst (hp_out h)) ?a) (hp_inv h)"
    "lists_current ?a (map fst (hp_out h))"
    by auto
  with assms(1) h(1) show ?thesis
    by (simp add: daemon_inv_def hp_ok_def)
qed

lemma daemon_tells_inv:
  assumes "daemon_inv fmt s" "d_todo s = (cmd, iv, adv) # todo"
  shows "daemon_inv fmt (s\<lparr>d_inv := iv, d_adv := adv, d_todo := todo, d_mail := d_mail s @ [cmd]\<rparr>)"
proof -
  have "timely (cmd, iv, adv)" using assms by (simp add: daemon_inv_def)
  from timely_command [OF this] assms show ?thesis by (simp add: daemon_inv_def)
qed

text \<open>What the connection tasks put into the mailbox.\<close>

lemma daemon_mail_inv:
  assumes "daemon_inv fmt s" "orderly (fold reg_after (d_mail s) (registered (eng (d_sys s)))) [cmd]"
    and "opn \<subseteq> reg_after cmd (fold reg_after (d_mail s) (registered (eng (d_sys s))))"
    and "\<And>a. absence_after cmd a = a" "\<And>a. lists_current a [cmd]"
  shows "daemon_inv fmt (s\<lparr>d_open := opn, d_next := n, d_mail := d_mail s @ [cmd]\<rparr>)"
  using assms lists_current_append [of _ "[cmd]" "map fst (d_todo s)"] by (simp add: daemon_inv_def)

lemma daemon_handle_inv:
  assumes "daemon_inv fmt s" "d_mail s = cmd # mail" "clock (d_sys s) \<le> now"
    and h: "handle_command ok now cmd (eng (d_sys s)) = (res, e', out)"
  shows "daemon_inv fmt (s\<lparr>d_sys := \<lparr>eng = e', clock = now\<rparr>, d_mail := mail\<rparr>)"
proof -
  let ?e = "eng (d_sys s)"
  have adm: "admissible ?e cmd" "orderly (reg_after cmd (registered ?e)) mail"
    using assms(1,2) orderly_head [of ?e cmd mail] by (simp_all add: daemon_inv_def)
  have "engine_step (d_sys s) (Handled cmd res out) \<lparr>eng = e', clock = now\<rparr>"
    by (rule step_command [OF assms(3) adm(1) h])
  with assms(1) have "reach engine_start engine_step \<lparr>eng = e', clock = now\<rparr>"
    unfolding daemon_inv_def by (blast intro: reach_step)
  moreover have "absence e' = absence_after cmd (absence ?e)" "registered e' = reg_after cmd (registered ?e)"
    using absence_command [of ok now cmd ?e] registered_command [of ok now cmd ?e] h by simp_all
  moreover have "lists_current (absence_after cmd (absence ?e)) (mail @ map fst (d_todo s))"
    by (rule lists_current_tail) (use assms(1,2) in \<open>simp add: daemon_inv_def\<close>)
  ultimately show ?thesis
    using assms(1,2) adm by (simp add: daemon_inv_def)
qed

lemma daemon_timeout_inv:
  assumes "daemon_inv fmt s" "engine_step (d_sys s) (TimedOut out) sys'"
  shows "daemon_inv fmt (s\<lparr>d_sys := sys'\<rparr>)"
proof -
  have inv: "engine_inv (eng (d_sys s))"
    using assms(1) by (intro engine_reach.reach_inv) (simp add: daemon_inv_def)
  obtain ok now where "handle_timeout ok now (eng (d_sys s)) = (eng sys', out)"
    using assms(2) by (rule engine_step_TimedOutE) (simp only: engine_sys.simps)
  then have "absence (eng sys') = absence (eng (d_sys s))" "control_reg (eng sys') = control_reg (eng (d_sys s))"
    using absence_timeout [of ok now "eng (d_sys s)"] handle_timeout_reg [OF inv, of ok now] by simp_all
  moreover have "reach engine_start engine_step sys'"
    using assms unfolding daemon_inv_def by (blast intro: reach_step)
  ultimately show ?thesis using assms(1) by (simp add: daemon_inv_def)
qed

lemma daemon_step_inv:
  assumes "daemon_inv fmt s" "daemon_step fmt pol s ev t" shows "daemon_inv fmt t"
  using assms(2,1)
proof cases
  case (publish cmd iv adv todo)
  then have "timely (cmd, iv, adv)" using assms(1) by (simp add: daemon_inv_def)
  from timely_command(3) [OF this] publish assms(1) show ?thesis by (simp add: daemon_inv_def)
next
  case settle
  with assms(1) show ?thesis by (simp add: daemon_inv_def hp_ok_def consistent_backed)
next
  case (connect c n ch)
  then show ?thesis
    using assms(1) by (auto intro!: daemon_mail_inv simp: daemon_inv_def)
next
  case (request c cmd)
  then have "daemon_inv fmt (s\<lparr>d_open := d_open s, d_next := d_next s, d_mail := d_mail s @ [cmd]\<rparr>)"
    using assms(1) by (intro daemon_mail_inv [OF assms(1)])
      (auto simp: daemon_inv_def own_request_lists intro: own_request_orderly)
  with request show ?thesis by simp
next
  case (close c)
  then have "daemon_inv fmt (s\<lparr>d_open := d_open s - {c}, d_next := d_next s, d_mail := d_mail s @ [CmdDisconnected c]\<rparr>)"
    using assms(1) by (intro daemon_mail_inv [OF assms(1)]) (auto simp: daemon_inv_def)
  with close show ?thesis by simp
next
  case (break_off c)
  with assms(1) show ?thesis by (auto simp: daemon_inv_def)
qed (simp_all add: daemon_pass_inv daemon_tells_inv daemon_handle_inv daemon_timeout_inv)

interpretation daemon_system: invariant_system "daemon_init K k fb fs fmt var pol" "daemon_step fmt pol" "daemon_inv fmt"
  for K k fb fs fmt var pol
  by unfold_locales (rule daemon_init_inv, assumption, rule daemon_step_inv, assumption+)

section \<open>A daemon that runs\<close>

text \<open>The demonstration machine, booted with the default policy.\<close>

abbreviation demo_boot :: "fs_view \<Rightarrow> daemon" where
  "demo_boot fs \<equiv> daemon_boot toy_kernel (20, []) (Inr 3) fs FairQueue 0"

abbreviation demo_reachable :: "fs_view \<Rightarrow> daemon \<Rightarrow> bool" where
  "demo_reachable fs \<equiv>
     reach (daemon_init toy_kernel (20, []) (Inr 3) fs show_resource None FairQueue) (daemon_step show_resource FairQueue)"

lemma demo_machines:
  "distinct (map pd_path (probe_all demo_fs)) \<and> (\<forall>c. length (filter (\<lambda>p. pd_class p = c) (probe_all demo_fs)) \<le> 256)"
  "distinct (map pd_path (probe_all demo_fs_unplugged)) \<and>
    (\<forall>c. length (filter (\<lambda>p. pd_class p = c) (probe_all demo_fs_unplugged)) \<le> 256)"
  by code_simp+

lemma demo_boot_reachable: "demo_reachable demo_fs (demo_boot demo_fs)"
  "demo_reachable demo_fs_unplugged (demo_boot demo_fs_unplugged)"
  by (rule reach_start, auto simp: daemon_init_def daemon_main_def policy_from_env_def inj_show_resource
      demo_machines)+

lemma demo_boot_idle [simp]:
  "d_mail (demo_boot fs) = []" "d_todo (demo_boot fs) = []" "d_open (demo_boot fs) = {}"
  "d_next (demo_boot fs) = 1" "clock (d_sys (demo_boot fs)) = 0"
  by (simp_all add: daemon_boot_def case_prod_beta Let_def NEXT_CLIENT_ID_init_def)

lemma demo_boot_lists:
  "d_adv (demo_boot demo_fs) = [Fbdev, Input (Mouse 0), Input (Keyboard 0), Input (Mouse 1)]"
  "hp_adv (d_hp (demo_boot demo_fs)) = [Fbdev, Input (Mouse 0), Input (Keyboard 0), Input (Mouse 1)]"
  by code_simp+

section \<open>Connections as the daemon's clients\<close>

abbreviation daemon_steps :: "(resource \<Rightarrow> string) \<Rightarrow> policy \<Rightarrow> daemon \<Rightarrow> daemon \<Rightarrow> bool" where
  "daemon_steps fmt pol \<equiv> (\<lambda>s t. \<exists>ev. daemon_step fmt pol s ev t)\<^sup>*\<^sup>*"

lemma daemon_steps_step:
  "daemon_steps fmt pol s t \<Longrightarrow> daemon_step fmt pol t ev u \<Longrightarrow> daemon_steps fmt pol s u"
  by (rule rtranclp.rtrancl_into_rtrancl, assumption) blast

lemma requests_are_steps:
  assumes "list_all (own_request c) body" "c \<in> d_open s"
  shows "daemon_steps fmt pol s (s\<lparr>d_mail := d_mail s @ body\<rparr>)"
  using assms(1)
proof (induction body rule: rev_induct)
  case (snoc cmd body)
  let ?t = "s\<lparr>d_mail := d_mail s @ body\<rparr>"
  have "daemon_step fmt pol ?t (Requested cmd) (?t\<lparr>d_mail := d_mail ?t @ [cmd]\<rparr>)"
    using snoc.prems assms(2) by (intro request [of c]) simp_all
  then have "daemon_step fmt pol ?t (Requested cmd) (s\<lparr>d_mail := d_mail s @ body @ [cmd]\<rparr>)" by simp
  moreover have "daemon_steps fmt pol s ?t" using snoc by simp
  ultimately show ?case by (rule daemon_steps_step [rotated])
qed simp

lemma connection_session:
  assumes "handle_connection E cl ch iv k adv ts = (st, c)"
  shows "\<exists>body tail. told c = CmdRegister cl ch # body @ tail \<and> list_all (own_request cl) body \<and>
    (tail = [CmdDisconnected cl] \<and> (\<exists>res. st = Ended res) \<or> tail = [] \<and> (\<forall>res. st \<noteq> Ended res) \<or>
     tail = [] \<and> body = [] \<and> (\<exists>res. st = Ended res))"
proof -
  let ?c1 = "tell (CmdRegister cl ch) \<lparr>conn_inv = iv, conn_k = k, told = [], wire = [], ack_deadline = None, frame_buf = []\<rparr>"
  obtain res c2 where w: "write_msg E (MsgAdvertise (adv_snapshot adv)) None ?c1 = (res, c2)" by fastforce
  then have c2: "told c2 = [CmdRegister cl ch]"
    using write_msg_keeps(1) [of E "MsgAdvertise (adv_snapshot adv)" None ?c1] by simp
  show ?thesis
  proof (cases res)
    case (Inl e)
    with assms w c2 show ?thesis by (auto simp: handle_connection_def Let_def)
  next
    case (Inr u)
    obtain st' c3 where loop: "conn_loop E cl ts c2 = (st', c3)" by fastforce
    with conn_loop_extends [of cl c2 E ts] c2 obtain body where
      body: "told c3 = CmdRegister cl ch # body" "list_all (own_request cl) body"
      by (auto simp: extends_def)
    show ?thesis
    proof (rule exI [of _ body])
      show "\<exists>tail. told c = CmdRegister cl ch # body @ tail \<and> list_all (own_request cl) body \<and>
        (tail = [CmdDisconnected cl] \<and> (\<exists>res. st = Ended res) \<or> tail = [] \<and> (\<forall>res. st \<noteq> Ended res) \<or>
         tail = [] \<and> body = [] \<and> (\<exists>res. st = Ended res))"
        using assms w Inr loop body by (auto simp: handle_connection_def Let_def split: conn_status.splits)
    qed
  qed
qed

end
