(* ===== verification/Daemon_Sessions.thy ===== *)
theory Daemon_Sessions
  imports Daemon_System
begin

text \<open>
  The daemon with its connection tasks spelled out: every accepted connection is a task
  (\<open>handle_connection\<close> of \<open>src/client_handler/mod.rs\<close>, spawned by \<open>src/server.rs\<close>) with the control
  channel the engine pushes into, and the tasks share the inventory, the card registry and the
  kernel.  A handler of a task is one step, up to the command it sends to the engine: sending is a
  step of its own, which has to wait while the mailbox is full, and until then the task does nothing
  else.  A task that waits for the engine's answer to an Acquire handles nothing else either; a task
  that is slow, or blocked in a write because its peer does not read, is one whose next step comes
  late.  The steps are a function of the event, so that runs can be
  evaluated; events carry what the outside decides: the directory a pass sees, the outcome of the
  writes, the request a client sends, the time.
\<close>

section \<open>State\<close>

text \<open>
  Where a task is: before its first write, in its select loop, inside \<open>engine.acquire\<close>, with the
  answer there, past the loop, or inside \<open>engine.disconnected\<close>.
\<close>

datatype task_phase =
  Greeting
| Ready
| Awaiting resource
| Answered resource acquire_outcome
| Leaving
| Closing

text \<open>\<open>s_out\<close> is the command the task is about to send, in \<open>PolicyEngine\<close>'s \<open>tx.send\<close>.\<close>

record 'k session =
  s_conn :: "'k conn"
  s_chan :: chan
  s_inbox :: "control_message list"
  s_phase :: task_phase
  s_out :: "engine_command list"

text \<open>The capacity of the mailbox (\<open>PolicyEngine::spawn\<close>).\<close>

definition MAILBOX :: nat where
  "MAILBOX = 64"

text \<open>
  The history variable \<open>x_issued\<close> lists the engine's grants: an Acquire answered "granted", or a
  Grant pushed into the channel of a live task.
\<close>

record 'k sessions =
  x_d :: daemon
  x_drm :: "(resource \<times> drm_device) list"
  x_k :: 'k
  x_sess :: "(client_id \<times> 'k session) list"
  x_next_chan :: chan
  x_issued :: "(client_id \<times> resource) list"

definition sessions_boot ::
  "'k drm_kernel \<Rightarrow> 'k \<Rightarrow> io_error + fd \<Rightarrow> fs_view \<Rightarrow> policy \<Rightarrow> instant \<Rightarrow> 'k sessions" where
  "sessions_boot K k fb fs pol now =
     (let (iv, opened, k') = open_resources K k fb fs
      in \<lparr>x_d = daemon_boot K k fb fs pol now, x_drm = drm iv, x_k = k', x_sess = [], x_next_chan = 0,
          x_issued = []\<rparr>)"

section \<open>Tasks\<close>

type_synonym writes = "wire_log \<Rightarrow> server_message \<Rightarrow> io_error + unit"

text \<open>The engine's answer is not a function here: it arrives as a step of its own.\<close>

definition task_env :: "'k drm_kernel \<Rightarrow> protocol \<Rightarrow> writes \<Rightarrow> 'k env" where
  "task_env K P wr = \<lparr>proto = P, kernel = K, engine_reply = \<lambda>_ _. None, write_result = wr\<rparr>"

text \<open>\<open>handle_connection\<close> up to the registration.\<close>

definition new_session :: "client_id \<Rightarrow> chan \<Rightarrow> inventory \<Rightarrow> 'k \<Rightarrow> 'k session" where
  "new_session cl ch iv k =
     \<lparr>s_conn = tell (CmdRegister cl ch)
        \<lparr>conn_inv = iv, conn_k = k, told = [], wire = [], ack_deadline = None, frame_buf = []\<rparr>,
      s_chan = ch, s_inbox = [], s_phase = Greeting, s_out = []\<rparr>"

text \<open>
  A handler finds the shared structures as they are, and leaves them as it has changed them, with
  the command it tells the engine still to be sent.
\<close>

definition shared_inv :: "'k sessions \<Rightarrow> inventory" where
  "shared_inv s = (d_inv (x_d s))\<lparr>drm := x_drm s\<rparr>"

definition borrow :: "'k sessions \<Rightarrow> 'k conn \<Rightarrow> 'k conn" where
  "borrow s c = c\<lparr>conn_inv := shared_inv s, conn_k := x_k s\<rparr>"

definition give_back :: "client_id \<Rightarrow> 'k session \<Rightarrow> 'k conn \<Rightarrow> 'k sessions \<Rightarrow> 'k sessions" where
  "give_back cl ses c s =
     s\<lparr>x_drm := drm (conn_inv c), x_k := conn_k c,
       x_sess := AList.update cl (ses\<lparr>s_conn := c, s_out := drop (length (told (s_conn ses))) (told c)\<rparr>) (x_sess s)\<rparr>"

fun phase_after :: "server_error + unit \<Rightarrow> task_phase" where
  "phase_after (Inl e) = Leaving"
| "phase_after (Inr _) = Ready"

text \<open>Run a handler of the task of \<open>cl\<close>, which goes on or leaves its loop with the error.\<close>

definition run_task ::
  "('k conn \<Rightarrow> (server_error + unit) \<times> 'k conn) \<Rightarrow> client_id \<Rightarrow> 'k session \<Rightarrow> 'k sessions \<Rightarrow> 'k sessions" where
  "run_task handler cl ses s =
     (let (res, c) = handler (borrow s (s_conn ses)) in give_back cl (ses\<lparr>s_phase := phase_after res\<rparr>) c s)"

definition drop_session :: "client_id \<Rightarrow> 'k sessions \<Rightarrow> 'k sessions" where
  "drop_session cl s =
     s\<lparr>x_d := (x_d s)\<lparr>d_open := d_open (x_d s) - {cl}\<rparr>, x_sess := AList.delete cl (x_sess s)\<rparr>"

text \<open>The first write: a failure ends the task before the disconnect is reported.\<close>

definition task_greet :: "'k env \<Rightarrow> client_id \<Rightarrow> 'k session \<Rightarrow> 'k sessions \<Rightarrow> 'k sessions" where
  "task_greet E cl ses s =
     (case write_msg E (MsgAdvertise (adv_snapshot (d_adv (x_d s)))) None (borrow s (s_conn ses)) of
        (Inl e, c) \<Rightarrow> drop_session cl s
      | (Inr _, c) \<Rightarrow> give_back cl (ses\<lparr>s_phase := Ready\<rparr>) c s)"

fun task_request ::
  "'k env \<Rightarrow> instant \<Rightarrow> client_id \<Rightarrow> client_request \<Rightarrow> 'k session \<Rightarrow> 'k sessions \<Rightarrow> 'k sessions" where
  "task_request E now cl (ReqAcquire r) ses s =
     give_back cl (ses\<lparr>s_phase := Awaiting r\<rparr>) (tell (CmdAcquire cl r) (borrow s (s_conn ses))) s"
| "task_request E now cl req ses s = run_task (dispatch_request E now cl req) cl ses s"

definition task_control ::
  "'k env \<Rightarrow> instant \<Rightarrow> client_id \<Rightarrow> control_message \<Rightarrow> control_message list \<Rightarrow> 'k session \<Rightarrow> 'k sessions \<Rightarrow> 'k sessions" where
  "task_control E now cl m rest ses s =
     run_task (process_control_message E now cl m) cl (ses\<lparr>s_inbox := rest\<rparr>) s"

definition task_close :: "client_id \<Rightarrow> 'k session \<Rightarrow> 'k sessions \<Rightarrow> 'k sessions" where
  "task_close cl ses s =
     s\<lparr>x_sess := AList.update cl (ses\<lparr>s_phase := Closing, s_out := [CmdDisconnected cl]\<rparr>) (x_sess s)\<rparr>"

definition post :: "engine_command \<Rightarrow> 'k sessions \<Rightarrow> 'k sessions" where
  "post cmd s = s\<lparr>x_d := (x_d s)\<lparr>d_mail := d_mail (x_d s) @ [cmd]\<rparr>\<rparr>"

text \<open>The command has been sent: the task goes on, or ends when it was the disconnect.\<close>

definition task_sent :: "client_id \<Rightarrow> engine_command \<Rightarrow> engine_command list \<Rightarrow> 'k session \<Rightarrow> 'k sessions \<Rightarrow> 'k sessions" where
  "task_sent cl cmd rest ses s =
     post cmd (if s_phase ses = Closing then drop_session cl s
               else s\<lparr>x_sess := AList.update cl (ses\<lparr>s_out := rest\<rparr>) (x_sess s)\<rparr>)"

text \<open>A bounded channel: \<open>send\<close> waits while the channel holds as many commands as it has room for.\<close>

definition has_room :: "'k sessions \<Rightarrow> bool" where
  "has_room s \<longleftrightarrow> length (d_mail (x_d s)) < MAILBOX"

section \<open>The engine and its channels\<close>

text \<open>A push succeeds exactly while the receiving task exists.\<close>

definition listening :: "'k sessions \<Rightarrow> send_ok" where
  "listening s ch m = list_ex (\<lambda>(cl, ses). s_chan ses = ch) (x_sess s)"

definition pushed :: "outbox \<Rightarrow> chan \<Rightarrow> control_message list" where
  "pushed out ch = map snd (filter (\<lambda>(ch', m). ch' = ch) out)"

definition push_all :: "outbox \<Rightarrow> (client_id \<times> 'k session) list \<Rightarrow> (client_id \<times> 'k session) list" where
  "push_all out = map_entries (\<lambda>cl ses. ses\<lparr>s_inbox := s_inbox ses @ pushed out (s_chan ses)\<rparr>)"

text \<open>The reply of an Acquire reaches the task that waits for it.\<close>

fun reply_to ::
  "engine_command \<Rightarrow> acquire_outcome option \<Rightarrow> (client_id \<times> 'k session) list \<Rightarrow> (client_id \<times> 'k session) list" where
  "reply_to (CmdAcquire cl r) (Some res) =
     map_entries (\<lambda>cl' ses. if cl' = cl \<and> s_phase ses = Awaiting r \<and> s_out ses = [] then ses\<lparr>s_phase := Answered r res\<rparr> else ses)"
| "reply_to _ _ = id"

definition granted :: "control_message list \<Rightarrow> resource list" where
  "granted ms = List.map_filter (\<lambda>m. case m of CtlGrant r \<Rightarrow> Some r | _ \<Rightarrow> None) ms"

definition push_grants :: "outbox \<Rightarrow> (client_id \<times> 'k session) list \<Rightarrow> (client_id \<times> resource) list" where
  "push_grants out ss = concat (map (\<lambda>(cl, ses). map (Pair cl) (granted (pushed out (s_chan ses)))) ss)"

fun reply_grants :: "engine_command \<Rightarrow> acquire_outcome option \<Rightarrow> (client_id \<times> resource) list" where
  "reply_grants (CmdAcquire cl r) (Some OutcomeGranted) = [(cl, r)]"
| "reply_grants _ _ = []"

definition engine_turn :: "outbox \<Rightarrow> engine_sys \<Rightarrow> 'k sessions \<Rightarrow> 'k sessions" where
  "engine_turn out sys s =
     s\<lparr>x_d := (x_d s)\<lparr>d_sys := sys\<rparr>, x_sess := push_all out (x_sess s),
       x_issued := x_issued s @ push_grants out (x_sess s)\<rparr>"

definition reply_turn :: "engine_command \<Rightarrow> acquire_outcome option \<Rightarrow> 'k sessions \<Rightarrow> 'k sessions" where
  "reply_turn cmd res s =
     s\<lparr>x_sess := reply_to cmd res (x_sess s), x_issued := x_issued s @ reply_grants cmd res\<rparr>"

section \<open>Steps\<close>

datatype sess_event =
  EvPass fs_view
| EvPublish
| EvTell
| EvAccept
| EvGreet client_id writes
| EvRequest client_id client_request writes instant
| EvControl client_id writes instant
| EvAnswer client_id writes instant
| EvAckTimeout client_id instant
| EvHangup client_id
| EvClose client_id
| EvSend client_id
| EvHandle instant
| EvTimeout instant

fun sess_exec ::
  "(resource \<Rightarrow> string) \<Rightarrow> policy \<Rightarrow> 'k drm_kernel \<Rightarrow> protocol \<Rightarrow> sess_event \<Rightarrow> 'k sessions \<Rightarrow> 'k sessions option" where
  "sess_exec fmt pol K P (EvPass fs) s =
     (if d_todo (x_d s) = []
      then let (retry, h) = reconcile fs fmt pol ((d_hp (x_d s))\<lparr>hp_out := []\<rparr>)
           in Some (s\<lparr>x_d := (x_d s)\<lparr>d_hp := h, d_todo := hp_out h\<rparr>\<rparr>)
      else None)"
| "sess_exec fmt pol K P EvPublish s =
     (case d_todo (x_d s) of
        [] \<Rightarrow> Some (s\<lparr>x_d := (x_d s)\<lparr>d_inv := hp_inv (d_hp (x_d s)), d_adv := hp_adv (d_hp (x_d s))\<rparr>\<rparr>)
      | (cmd, iv, adv) # todo \<Rightarrow> Some (s\<lparr>x_d := (x_d s)\<lparr>d_inv := iv, d_adv := adv\<rparr>\<rparr>))"
| "sess_exec fmt pol K P EvTell s =
     (case d_todo (x_d s) of
        [] \<Rightarrow> None
      | (cmd, iv, adv) # todo \<Rightarrow>
          if has_room s then Some (post cmd (s\<lparr>x_d := (x_d s)\<lparr>d_inv := iv, d_adv := adv, d_todo := todo\<rparr>\<rparr>)) else None)"
| "sess_exec fmt pol K P EvAccept s =
     (let (cl, n) = alloc_client_id (d_next (x_d s)); ch = x_next_chan s
      in if map_of (x_sess s) cl \<noteq> None \<or> \<not> has_room s then None
         else Some (post (CmdRegister cl ch)
                (s\<lparr>x_d := (x_d s)\<lparr>d_open := insert cl (d_open (x_d s)), d_next := n\<rparr>,
                   x_sess := (cl, new_session cl ch (shared_inv s) (x_k s)) # x_sess s,
                   x_next_chan := ch + 1\<rparr>)))"
| "sess_exec fmt pol K P (EvGreet cl wr) s =
     (case map_of (x_sess s) cl of
        Some ses \<Rightarrow> if s_phase ses = Greeting then Some (task_greet (task_env K P wr) cl ses s) else None
      | None \<Rightarrow> None)"
| "sess_exec fmt pol K P (EvRequest cl req wr now) s =
     (case map_of (x_sess s) cl of
        Some ses \<Rightarrow> if s_phase ses = Ready \<and> s_out ses = [] then Some (task_request (task_env K P wr) now cl req ses s) else None
      | None \<Rightarrow> None)"
| "sess_exec fmt pol K P (EvControl cl wr now) s =
     (case map_of (x_sess s) cl of
        Some ses \<Rightarrow>
          (case (s_phase ses, s_inbox ses) of
             (Ready, m # rest) \<Rightarrow>
               if s_out ses = [] then Some (task_control (task_env K P wr) now cl m rest ses s) else None
           | _ \<Rightarrow> None)
      | None \<Rightarrow> None)"
| "sess_exec fmt pol K P (EvAnswer cl wr now) s =
     (case map_of (x_sess s) cl of
        Some ses \<Rightarrow>
          (case s_phase ses of
             Answered r res \<Rightarrow>
               if s_out ses = [] then Some (run_task (acquire_answered (task_env K P wr) now cl r res) cl ses s) else None
           | _ \<Rightarrow> None)
      | None \<Rightarrow> None)"
| "sess_exec fmt pol K P (EvAckTimeout cl now) s =
     (case map_of (x_sess s) cl of
        Some ses \<Rightarrow>
          (case (s_phase ses, ack_deadline (s_conn ses)) of
             (Ready, Some deadline) \<Rightarrow>
               if deadline \<le> now \<and> s_out ses = [] then Some (run_task (\<lambda>c. (Inr (), c\<lparr>ack_deadline := None\<rparr>)) cl ses s) else None
           | _ \<Rightarrow> None)
      | None \<Rightarrow> None)"
| "sess_exec fmt pol K P (EvHangup cl) s =
     (case map_of (x_sess s) cl of
        Some ses \<Rightarrow>
          if s_phase ses = Ready \<and> s_out ses = []
          then Some (s\<lparr>x_sess := AList.update cl (ses\<lparr>s_phase := Leaving\<rparr>) (x_sess s)\<rparr>) else None
      | None \<Rightarrow> None)"
| "sess_exec fmt pol K P (EvClose cl) s =
     (case map_of (x_sess s) cl of
        Some ses \<Rightarrow> if s_phase ses = Leaving \<and> s_out ses = [] then Some (task_close cl ses s) else None
      | None \<Rightarrow> None)"
| "sess_exec fmt pol K P (EvSend cl) s =
     (case map_of (x_sess s) cl of
        Some ses \<Rightarrow>
          (case s_out ses of
             cmd # rest \<Rightarrow> if has_room s then Some (task_sent cl cmd rest ses s) else None
           | [] \<Rightarrow> None)
      | None \<Rightarrow> None)"
| "sess_exec fmt pol K P (EvHandle now) s =
     (case d_mail (x_d s) of
        [] \<Rightarrow> None
      | cmd # mail \<Rightarrow>
          if clock (d_sys (x_d s)) \<le> now
          then let (res, e', out) = handle_command (listening s) now cmd (eng (d_sys (x_d s)));
                   s1 = engine_turn out \<lparr>eng = e', clock = now\<rparr> s
               in Some (reply_turn cmd res (s1\<lparr>x_d := (x_d s1)\<lparr>d_mail := mail\<rparr>\<rparr>))
          else None)"
| "sess_exec fmt pol K P (EvTimeout now) s =
     (case next_deadline (eng (d_sys (x_d s))) of
        None \<Rightarrow> None
      | Some d \<Rightarrow>
          if clock (d_sys (x_d s)) \<le> now \<and> d \<le> now
          then let (e', out) = handle_timeout (listening s) now (eng (d_sys (x_d s)))
               in Some (engine_turn out \<lparr>eng = e', clock = now\<rparr> s)
          else None)"

definition sess_step ::
  "(resource \<Rightarrow> string) \<Rightarrow> policy \<Rightarrow> 'k drm_kernel \<Rightarrow> protocol \<Rightarrow> 'k sessions \<Rightarrow> sess_event \<Rightarrow> 'k sessions \<Rightarrow> bool" where
  "sess_step fmt pol K P s ev t \<longleftrightarrow> sess_exec fmt pol K P ev s = Some t"

definition sess_init ::
  "'k drm_kernel \<Rightarrow> 'k \<Rightarrow> io_error + fd \<Rightarrow> fs_view \<Rightarrow> (resource \<Rightarrow> string) \<Rightarrow> string option \<Rightarrow> policy \<Rightarrow>
    'k sessions \<Rightarrow> bool" where
  "sess_init K k fb fs fmt var pol s \<longleftrightarrow>
     daemon_init K k fb fs fmt var pol (x_d s) \<and> (\<exists>now. s = sessions_boot K k fb fs pol now)"

fun sess_run ::
  "(resource \<Rightarrow> string) \<Rightarrow> policy \<Rightarrow> 'k drm_kernel \<Rightarrow> protocol \<Rightarrow> sess_event list \<Rightarrow> 'k sessions \<Rightarrow> 'k sessions option" where
  "sess_run fmt pol K P [] s = Some s"
| "sess_run fmt pol K P (ev # evs) s = Option.bind (sess_exec fmt pol K P ev s) (sess_run fmt pol K P evs)"

section \<open>The daemon with tasks is the daemon\<close>

definition sending_ok :: "client_id \<Rightarrow> 'k session \<Rightarrow> bool" where
  "sending_ok cl ses \<longleftrightarrow>
     (if s_phase ses = Closing then s_out ses = [CmdDisconnected cl] else list_all (own_request cl) (s_out ses))"

definition sess_inv :: "'k sessions \<Rightarrow> bool" where
  "sess_inv s \<longleftrightarrow> distinct (map fst (x_sess s)) \<and> d_open (x_d s) = set (map fst (x_sess s)) \<and>
     (\<forall>cl ses. map_of (x_sess s) cl = Some ses \<longrightarrow> sending_ok cl ses)"

lemma sess_inv_open: "sess_inv s \<Longrightarrow> map_of (x_sess s) cl = Some ses \<Longrightarrow> cl \<in> d_open (x_d s)"
  by (force simp: sess_inv_def dest: map_of_SomeD)

lemma sess_inv_sending: "sess_inv s \<Longrightarrow> map_of (x_sess s) cl = Some ses \<Longrightarrow> sending_ok cl ses"
  by (simp add: sess_inv_def)

lemma acquire_answered_extends: "extends cl c (snd (acquire_answered E now cl r res c))"
  by (cases res) (simp_all add: acquire_answered_def deliver_grant_extends extends_refl)

lemma control_extends: "extends cl c (snd (process_control_message E now cl m c))"
  by (cases m) (simp_all add: deliver_grant_extends extends_refl)

lemma borrow_told [simp]: "told (borrow s c) = told c" "wire (borrow s c) = wire c"
  "ack_deadline (borrow s c) = ack_deadline c" "conn_k (borrow s c) = x_k s" "conn_inv (borrow s c) = shared_inv s"
  by (simp_all add: borrow_def)

lemma extends_borrow: "extends cl (borrow s c) c' \<longleftrightarrow> extends cl c c'"
  by (simp add: extends_def)

lemma give_back_simps [simp]:
  "x_sess (give_back cl ses c s) =
     AList.update cl (ses\<lparr>s_conn := c, s_out := drop (length (told (s_conn ses))) (told c)\<rparr>) (x_sess s)"
  "x_drm (give_back cl ses c s) = drm (conn_inv c)" "x_k (give_back cl ses c s) = conn_k c"
  "x_issued (give_back cl ses c s) = x_issued s" "x_d (give_back cl ses c s) = x_d s"
  "x_next_chan (give_back cl ses c s) = x_next_chan s"
  by (simp_all add: give_back_def)

lemma post_simps [simp]:
  "x_sess (post cmd s) = x_sess s" "x_drm (post cmd s) = x_drm s" "x_k (post cmd s) = x_k s"
  "x_issued (post cmd s) = x_issued s" "x_next_chan (post cmd s) = x_next_chan s"
  "x_d (post cmd s) = (x_d s)\<lparr>d_mail := d_mail (x_d s) @ [cmd]\<rparr>"
  by (simp_all add: post_def)

lemma run_task_daemon [simp]: "x_d (run_task handler cl ses s) = x_d s"
  by (simp add: run_task_def case_prod_beta)

lemma one_daemon_step: "daemon_step fmt pol s ev t \<Longrightarrow> daemon_steps fmt pol s t"
  by (rule r_into_rtranclp) blast

lemma task_greet_steps:
  assumes "cl \<in> d_open (x_d s)"
  shows "daemon_steps fmt pol (x_d s) (x_d (task_greet E cl ses s))"
  using break_off [OF assms, of fmt pol]
  by (simp add: task_greet_def drop_session_def one_daemon_step case_prod_beta split: sum.split)

lemma task_request_daemon [simp]: "x_d (task_request E now cl req ses s) = x_d s"
  by (cases req) simp_all

lemma task_sent_steps:
  assumes "sess_inv s" "map_of (x_sess s) cl = Some ses" "s_out ses = cmd # rest"
  shows "daemon_steps fmt pol (x_d s) (x_d (task_sent cl cmd rest ses s))"
proof (cases "s_phase ses = Closing")
  case True
  with assms sess_inv_sending [OF assms(1,2)] have "cmd = CmdDisconnected cl" by (simp add: sending_ok_def)
  with True close [OF sess_inv_open [OF assms(1,2)], of fmt pol] show ?thesis
    by (simp add: task_sent_def drop_session_def one_daemon_step)
next
  case False
  with assms sess_inv_sending [OF assms(1,2)] have "own_request cl cmd" by (simp add: sending_ok_def)
  from request [OF sess_inv_open [OF assms(1,2)] this, of fmt pol] False show ?thesis
    by (simp add: task_sent_def one_daemon_step)
qed

lemma accept_steps:
  assumes "sess_inv s" "sess_exec fmt pol K P EvAccept s = Some t"
  shows "daemon_steps fmt pol (x_d s) (x_d t)"
proof -
  obtain cl n where a: "alloc_client_id (d_next (x_d s)) = (cl, n)" by fastforce
  with assms have "cl \<notin> d_open (x_d s)"
    by (auto simp: sess_inv_def map_of_eq_None_iff Let_def split: if_splits)
  from connect [OF a this, of fmt pol "x_next_chan s"] a assms(2) show ?thesis
    by (auto simp: one_daemon_step Let_def split: if_splits)
qed

lemma handle_steps:
  assumes "sess_exec fmt pol K P (EvHandle now) s = Some t"
  shows "daemon_steps fmt pol (x_d s) (x_d t)"
proof -
  obtain cmd mail where m: "d_mail (x_d s) = cmd # mail" "clock (d_sys (x_d s)) \<le> now"
    using assms by (auto split: list.splits if_splits)
  obtain res e' out where h: "handle_command (listening s) now cmd (eng (d_sys (x_d s))) = (res, e', out)"
    by (rule prod_cases3)
  from handle [OF m h, of fmt pol] assms m h show ?thesis
    by (auto simp: engine_turn_def reply_turn_def one_daemon_step Let_def)
qed

lemma timeout_steps:
  assumes "sess_exec fmt pol K P (EvTimeout now) s = Some t"
  shows "daemon_steps fmt pol (x_d s) (x_d t)"
proof -
  obtain d where d: "next_deadline (eng (d_sys (x_d s))) = Some d" "clock (d_sys (x_d s)) \<le> now" "d \<le> now"
    using assms by (auto split: option.splits if_splits)
  obtain e' out where h: "handle_timeout (listening s) now (eng (d_sys (x_d s))) = (e', out)" by fastforce
  from timeout [OF step_timeout [OF d h], of fmt pol] assms d h show ?thesis
    by (auto simp: engine_turn_def one_daemon_step)
qed

lemma sess_step_steps:
  assumes "sess_inv s" "sess_step fmt pol K P s ev t"
  shows "daemon_steps fmt pol (x_d s) (x_d t)"
proof (cases ev)
  case (EvPass fs)
  obtain retry h where "reconcile fs fmt pol ((d_hp (x_d s))\<lparr>hp_out := []\<rparr>) = (retry, h)" by fastforce
  with EvPass assms pass [of "x_d s" fs fmt pol retry h] show ?thesis
    by (auto simp: sess_step_def one_daemon_step split: if_splits)
next
  case EvPublish
  with assms show ?thesis
    by (auto simp: sess_step_def split: list.splits intro: one_daemon_step [OF publish] one_daemon_step [OF settle])
next
  case EvTell
  then obtain cmd iv adv todo where todo: "d_todo (x_d s) = (cmd, iv, adv) # todo"
    and "t = post cmd (s\<lparr>x_d := (x_d s)\<lparr>d_inv := iv, d_adv := adv, d_todo := todo\<rparr>\<rparr>)"
    using assms(2) by (auto simp: sess_step_def split: list.splits if_splits)
  with one_daemon_step [OF tells [OF todo], of fmt pol] show ?thesis by simp
next
  case EvAccept
  with assms show ?thesis by (auto simp only: sess_step_def intro: accept_steps)
next
  case (EvHandle now)
  with assms show ?thesis by (auto simp only: sess_step_def intro: handle_steps)
next
  case (EvTimeout now)
  with assms show ?thesis by (auto simp only: sess_step_def intro: timeout_steps)
next
  case (EvSend cl)
  with assms show ?thesis
    by (auto simp: sess_step_def split: option.splits list.splits if_splits intro: task_sent_steps)
qed (use assms sess_inv_open [OF assms(1)] in \<open>auto simp: sess_step_def task_control_def task_close_def
      split: option.splits if_splits task_phase.splits list.splits intro!: task_greet_steps\<close>)

section \<open>The tasks and what they send\<close>

lemma sess_inv_update:
  assumes "sess_inv s" "map_of (x_sess s) cl = Some old" "x_sess t = AList.update cl ses (x_sess s)"
    and "d_open (x_d t) = d_open (x_d s)" "sending_ok cl ses"
  shows "sess_inv t"
  using assms unfolding sess_inv_def by (simp add: keys_update_present del: set_map)

lemma sess_inv_daemon: "sess_inv s \<Longrightarrow> x_sess t = x_sess s \<Longrightarrow> d_open (x_d t) = d_open (x_d s) \<Longrightarrow> sess_inv t"
  by (simp add: sess_inv_def)

lemma give_back_inv:
  assumes "sess_inv s" "map_of (x_sess s) cl = Some old" "extends cl (s_conn ses) c" "s_phase ses \<noteq> Closing"
  shows "sess_inv (give_back cl ses c s)"
proof (rule sess_inv_update [OF assms(1,2) give_back_simps(1)])
  show "sending_ok cl (ses\<lparr>s_conn := c, s_out := drop (length (told (s_conn ses))) (told c)\<rparr>)"
    using assms(3,4) by (auto simp: sending_ok_def extends_def)
qed simp

lemma phase_after_cases [simp]:
  "phase_after res \<noteq> Awaiting r" "phase_after res \<noteq> Answered r a" "phase_after res \<noteq> Closing" "phase_after res \<noteq> Greeting"
  by (cases res; simp)+

text \<open>
  What the daemon relies on in a handler of a connection task: it sends the engine nothing but
  requests of its own client.
\<close>

locale task_handler =
  fixes handler :: "'k conn \<Rightarrow> (server_error + unit) \<times> 'k conn" and cl :: client_id
  assumes own_commands: "extends cl c (snd (handler c))"
begin

lemma keeps_inv:
  "sess_inv s \<Longrightarrow> map_of (x_sess s) cl = Some old \<Longrightarrow> sess_inv (run_task handler cl ses s)"
  using own_commands [of "borrow s (s_conn ses)"]
  by (auto simp: run_task_def case_prod_beta extends_borrow intro!: give_back_inv)

end

interpretation control_task: task_handler "process_control_message E now cl m" cl for E :: "'k env" and now cl m
  by unfold_locales (rule control_extends)

interpretation answer_task: task_handler "acquire_answered E now cl r res" cl for E :: "'k env" and now cl r res
  by unfold_locales (rule acquire_answered_extends)

interpretation request_task: task_handler "dispatch_request E now cl req" cl for E :: "'k env" and now cl req
  by unfold_locales (rule dispatch_extends)

interpretation ack_task: task_handler "\<lambda>c :: 'k conn. (Inr (), c\<lparr>ack_deadline := None\<rparr>)" cl for cl
  by unfold_locales (simp add: extends_refl)

lemma keys_delete: "set (map fst (AList.delete k al)) = set (map fst al) - {k}"
  by (simp only: delete_keys set_removeAll)

lemma drop_session_inv: "sess_inv s \<Longrightarrow> sess_inv (drop_session cl s)"
  using keys_delete [of cl "x_sess s"] by (simp add: sess_inv_def drop_session_def)

lemma post_inv: "sess_inv s \<Longrightarrow> sess_inv (post cmd s)"
  by (rule sess_inv_daemon) simp_all

lemma task_greet_inv: "sess_inv s \<Longrightarrow> map_of (x_sess s) cl = Some ses \<Longrightarrow> sess_inv (task_greet E cl ses s)"
  by (auto simp: task_greet_def case_prod_beta extends_refl intro!: give_back_inv drop_session_inv split: sum.split)

lemma task_request_inv:
  assumes "sess_inv s" "map_of (x_sess s) cl = Some ses" shows "sess_inv (task_request E now cl req ses s)"
proof (cases req)
  case (ReqAcquire r)
  have "extends cl (s_conn ses) (tell (CmdAcquire cl r) (borrow s (s_conn ses)))"
    by (simp add: extends_def own_request_def)
  with ReqAcquire assms show ?thesis by (simp add: give_back_inv)
qed (use assms in \<open>auto intro!: request_task.keeps_inv simp del: dispatch_request.simps\<close>)

lemma task_close_inv: "sess_inv s \<Longrightarrow> map_of (x_sess s) cl = Some ses \<Longrightarrow> sess_inv (task_close cl ses s)"
  by (rule sess_inv_update) (auto simp: task_close_def sending_ok_def)

lemma task_sent_inv:
  assumes "sess_inv s" "map_of (x_sess s) cl = Some ses" "s_out ses = cmd # rest"
  shows "sess_inv (task_sent cl cmd rest ses s)"
proof (cases "s_phase ses = Closing")
  case True
  with assms(1) show ?thesis by (simp add: task_sent_def post_inv drop_session_inv)
next
  case False
  with sess_inv_sending [OF assms(1,2)] assms(3) have "sending_ok cl (ses\<lparr>s_out := rest\<rparr>)"
    by (simp add: sending_ok_def)
  with False show ?thesis by (intro sess_inv_update [OF assms(1,2)]) (simp_all add: task_sent_def)
qed

lemma push_all_keys [simp]: "map fst (push_all out ss) = map fst ss"
  by (simp add: push_all_def)

lemma reply_to_keys [simp]: "map fst (reply_to cmd res ss) = map fst ss"
  by (cases "(cmd, res)" rule: reply_to.cases) simp_all

lemma push_all_sending:
  assumes "map_of (push_all out ss) cl = Some ses" "\<And>old. map_of ss cl = Some old \<Longrightarrow> sending_ok cl old"
  shows "sending_ok cl ses"
proof -
  from assms(1) obtain old where old: "map_of ss cl = Some old"
    "ses = old\<lparr>s_inbox := s_inbox old @ pushed out (s_chan old)\<rparr>"
    by (auto simp: push_all_def)
  from assms(2) [OF old(1)] show ?thesis by (simp add: old(2) sending_ok_def)
qed

lemma reply_to_sending:
  assumes "map_of (reply_to cmd res ss) cl = Some ses" "\<And>old. map_of ss cl = Some old \<Longrightarrow> sending_ok cl old"
  shows "sending_ok cl ses"
proof (cases "(cmd, res)" rule: reply_to.cases)
  case (1 c r res')
  with assms(1) obtain old where old: "map_of ss cl = Some old"
    "ses = (if cl = c \<and> s_phase old = Awaiting r \<and> s_out old = [] then old\<lparr>s_phase := Answered r res'\<rparr> else old)"
    by auto
  from assms(2) [OF old(1)] show ?thesis by (simp add: old(2) sending_ok_def)
qed (use assms in simp_all)

lemma sess_inv_entries:
  assumes "sess_inv s" "map fst (x_sess t) = map fst (x_sess s)" "d_open (x_d t) = d_open (x_d s)"
    and "\<And>cl ses. map_of (x_sess t) cl = Some ses \<Longrightarrow> sending_ok cl ses"
  shows "sess_inv t"
  using assms unfolding sess_inv_def by metis

lemma engine_turn_inv:
  assumes "sess_inv s" shows "sess_inv (engine_turn out sys s)"
proof (rule sess_inv_entries [OF assms])
  fix cl ses assume "map_of (x_sess (engine_turn out sys s)) cl = Some ses"
  then show "sending_ok cl ses"
    unfolding engine_turn_def using sess_inv_sending [OF assms] by (auto intro: push_all_sending)
qed (simp_all add: engine_turn_def)

lemma reply_turn_inv:
  assumes "sess_inv s" shows "sess_inv (reply_turn cmd res s)"
proof (rule sess_inv_entries [OF assms])
  fix cl ses assume "map_of (x_sess (reply_turn cmd res s)) cl = Some ses"
  then show "sending_ok cl ses"
    unfolding reply_turn_def using sess_inv_sending [OF assms] by (auto intro: reply_to_sending)
qed (simp_all add: reply_turn_def)

lemma mail_inv: "sess_inv s \<Longrightarrow> sess_inv (s\<lparr>x_d := (x_d s)\<lparr>d_mail := m\<rparr>\<rparr>)"
  by (rule sess_inv_daemon) simp_all

lemma accept_inv:
  assumes "sess_inv s" "map_of (x_sess s) cl = None" "x_sess t = (cl, new_session cl ch iv k) # x_sess s"
    and "d_open (x_d t) = insert cl (d_open (x_d s))"
  shows "sess_inv t"
  using assms by (auto simp: sess_inv_def new_session_def sending_ok_def map_of_eq_None_iff)

lemma sess_step_inv:
  assumes "sess_inv s" "sess_step fmt pol K P s ev t" shows "sess_inv t"
proof (cases ev)
  case (EvHandle now)
  with assms show ?thesis
    by (auto simp: sess_step_def Let_def intro!: reply_turn_inv mail_inv engine_turn_inv
        split: list.splits if_splits prod.splits)
next
  case EvAccept
  with assms(2) show ?thesis
    by (auto simp: sess_step_def Let_def alloc_client_id_def split: if_splits intro!: accept_inv [OF assms(1)])
next
  case (EvHangup cl)
  with assms show ?thesis
    by (auto simp: sess_step_def sending_ok_def split: option.splits if_splits intro!: sess_inv_update [OF assms(1)])
next
  case (EvSend cl)
  with assms show ?thesis
    by (auto simp: sess_step_def split: option.splits list.splits if_splits intro: task_sent_inv)
next
  case (EvPass fs)
  with assms(2) show ?thesis
    by (auto simp: sess_step_def case_prod_beta Let_def split: if_splits intro: sess_inv_daemon [OF assms(1)])
next
  case EvPublish
  with assms(2) show ?thesis
    by (auto simp: sess_step_def split: list.splits intro: sess_inv_daemon [OF assms(1)])
next
  case EvTell
  with assms(2) show ?thesis
    by (auto simp: sess_step_def split: list.splits if_splits intro!: sess_inv_daemon [OF assms(1)])
qed (use assms in \<open>auto simp: sess_step_def task_control_def engine_turn_inv simp del: process_control_message.simps dispatch_request.simps
      split: option.splits if_splits task_phase.splits list.splits prod.splits
      intro!: task_greet_inv task_request_inv task_close_inv control_task.keeps_inv answer_task.keeps_inv ack_task.keeps_inv\<close>)

lemma sessions_boot_simps [simp]:
  "x_d (sessions_boot K k fb fs pol now) = daemon_boot K k fb fs pol now" "x_sess (sessions_boot K k fb fs pol now) = []"
  "x_drm (sessions_boot K k fb fs pol now) = drm (fst (open_resources K k fb fs))"
  "x_k (sessions_boot K k fb fs pol now) = snd (snd (open_resources K k fb fs))"
  "x_issued (sessions_boot K k fb fs pol now) = []"
  by (simp_all add: sessions_boot_def case_prod_beta)

lemma sess_init_inv: "sess_init K k fb fs fmt var pol s \<Longrightarrow> sess_inv s"
  by (auto simp: sess_init_def sess_inv_def sessions_boot_simps daemon_boot_def case_prod_beta Let_def)

interpretation tasks: invariant_system "sess_init K k fb fs fmt var pol" "sess_step fmt pol K P" sess_inv
  for K k fb fs fmt var pol P
  by unfold_locales (rule sess_init_inv, assumption, rule sess_step_inv, assumption+)

lemma reach_steps:
  assumes "reach start (daemon_step fmt pol) s" "daemon_steps fmt pol s t"
  shows "reach start (daemon_step fmt pol) t"
  using assms(2,1) by (induction rule: rtranclp_induct) (auto intro: reach_step)

lemma sess_reach_daemon:
  assumes "reach (sess_init K k fb fs fmt var pol) (sess_step fmt pol K P) s"
  shows "reach (daemon_init K k fb fs fmt var pol) (daemon_step fmt pol) (x_d s)"
  using assms
proof (induction rule: reach.induct)
  case (reach_start s)
  then show ?case by (intro reach.reach_start) (simp add: sess_init_def)
next
  case (reach_step s ev t)
  show ?case
    by (rule reach_steps [OF reach_step(3) sess_step_steps [OF tasks.reach_inv [OF reach_step(1)] reach_step(2)]])
qed

end
