(* ===== verification/Session_Cards.thy ===== *)
theory Session_Cards
  imports Daemon_Sessions
begin

text \<open>
  What the tasks do to the shared card registry and the kernel behind it, and what holds of them in
  every state the daemon can reach: the registry is well typed, no operation on a card panics, and
  the kernel's live leases are those the registry has recorded.
\<close>

section \<open>One operation on the cards per step\<close>

inductive card_op ::
  "'k drm_kernel \<Rightarrow> (resource \<times> drm_device) list \<times> 'k \<Rightarrow> (resource \<times> drm_device) list \<times> 'k \<Rightarrow> bool"
  for K :: "'k drm_kernel" where
  card_none: "card_op K x x"
| card_clone: "k_try_clone K k f = (res, k') \<Longrightarrow> card_op K (dr, k) (dr, k')"
| card_grant: "map_of dr r = Some d \<Longrightarrow> grant_lease K k d = (res, d', k') \<Longrightarrow> res \<noteq> DrmPanic \<Longrightarrow>
    card_op K (dr, k) (AList.update r d' dr, k')"
| card_revoke: "map_of dr r = Some d \<Longrightarrow> drm_revoke_lease K k d = (res, d', k') \<Longrightarrow>
    card_op K (dr, k) (AList.update r d' dr, k')"

abbreviation conn_cards :: "'k conn \<Rightarrow> (resource \<times> drm_device) list \<times> 'k" where
  "conn_cards c \<equiv> (drm (conn_inv c), conn_k c)"

abbreviation sess_cards :: "'k sessions \<Rightarrow> (resource \<times> drm_device) list \<times> 'k" where
  "sess_cards s \<equiv> (x_drm s, x_k s)"

lemma grant_lease_panic: "grant_lease K k d = (DrmPanic, d', k') \<Longrightarrow> k' = k"
  by (auto simp: grant_lease_def lease_locked_def split: option.splits drm_device_state.splits prod.splits sum.splits)

lemma grant_fd_card_op:
  assumes "grant_fd K k r iv = (res, iv', k')"
  shows "card_op K (drm iv, k) (drm iv', k')"
proof (cases r)
  case (Drm c)
  show ?thesis
  proof (cases "map_of (drm iv) (Drm c)")
    case None
    with Drm assms show ?thesis by (auto intro: card_none)
  next
    case (Some d)
    obtain lres d' k1 where g: "grant_lease K k d = (lres, d', k1)" by (rule prod_cases3)
    show ?thesis
    proof (cases lres)
      case DrmPanic
      with Drm Some g assms grant_lease_panic [of K k d d' k1] show ?thesis by (auto intro: card_none)
    qed (use Drm Some g assms in \<open>auto intro: card_grant\<close>)
  qed
qed (use assms in \<open>auto simp: dup_fd_def intro: card_none card_clone split: option.splits prod.splits sum.splits\<close>)

lemma write_msg_cards [simp]: "conn_cards (snd (write_msg E m f c)) = conn_cards c"
  by (simp add: write_msg_def split: sum.splits)

lemma tell_cards [simp]: "conn_cards (tell cmd c) = conn_cards c"
  by (simp add: tell_def)

lemma send_grant_cards: "card_op (kernel E) (conn_cards c) (conn_cards (snd (send_grant E r c)))"
proof -
  obtain res iv k where g: "grant_fd (kernel E) (conn_k c) r (conn_inv c) = (res, iv, k)" by (rule prod_cases3)
  with grant_fd_card_op [OF g] show ?thesis
    by (auto simp: send_grant_def write_msg_def split: sum.splits)
qed

lemma deliver_grant_cards: "card_op (kernel E) (conn_cards c) (conn_cards (snd (deliver_grant E now cl r c)))"
proof -
  obtain res c1 where g: "send_grant E r c = (res, c1)" by fastforce
  with send_grant_cards [of E c r] show ?thesis
    by (auto simp: deliver_grant_def split: sum.splits)
qed

lemma acquire_answered_cards:
  "card_op (kernel E) (conn_cards c) (conn_cards (snd (acquire_answered E now cl r res c)))"
  using deliver_grant_cards [of E c now cl r]
  by (cases res) (auto simp: acquire_answered_def intro: card_none)

lemma control_card_op:
  "card_op (kernel E) (conn_cards c) (conn_cards (snd (process_control_message E now cl m c)))"
  using deliver_grant_cards [of E c now cl] by (cases m) (auto intro: card_none)

lemma handle_release_cards: "card_op (kernel E) (conn_cards c) (conn_cards (handle_release E cl r c))"
proof (cases r)
  case (Drm n)
  then show ?thesis
    by (auto simp: handle_release_def tell_def intro: card_none card_revoke split: option.splits prod.splits)
qed (auto simp: handle_release_def tell_def intro: card_none)

lemma dispatch_cards: "card_op (kernel E) (conn_cards c) (conn_cards (snd (dispatch_request E now cl req c)))"
proof (cases req)
  case (ReqAcquire r)
  have "conn_cards (snd (engine_acquire E cl r c)) = conn_cards c"
    by (simp add: engine_acquire_def tell_def split: option.split)
  with ReqAcquire acquire_answered_cards [of E "snd (engine_acquire E cl r c)"] show ?thesis
    by (simp add: handle_acquire_def case_prod_beta)
qed (simp_all add: handle_release_cards card_none)

text \<open>A handler of a task performs at most one operation on the shared cards.\<close>

locale card_handler = task_handler handler cl
  for handler :: "'k conn \<Rightarrow> (server_error + unit) \<times> 'k conn" and cl :: client_id +
  fixes K :: "'k drm_kernel"
  assumes one_card_op: "card_op K (conn_cards c) (conn_cards (snd (handler c)))"
begin

lemma cards: "card_op K (sess_cards s) (sess_cards (run_task handler cl ses s))"
  using one_card_op [of "borrow s (s_conn ses)"] by (simp add: run_task_def case_prod_beta shared_inv_def)

end

interpretation control_cards: card_handler "process_control_message E now cl m" cl "kernel E"
  for E :: "'k env" and now cl m
  by unfold_locales (rule control_card_op)

interpretation answer_cards: card_handler "acquire_answered E now cl r res" cl "kernel E"
  for E :: "'k env" and now cl r res
  by unfold_locales (rule acquire_answered_cards)

interpretation request_cards: card_handler "dispatch_request E now cl req" cl "kernel E"
  for E :: "'k env" and now cl req
  by unfold_locales (rule dispatch_cards)

interpretation ack_cards: card_handler "\<lambda>c :: 'k conn. (Inr (), c\<lparr>ack_deadline := None\<rparr>)" cl K for cl K
  by unfold_locales (simp add: card_none)

lemma task_request_cards: "card_op (kernel E) (sess_cards s) (sess_cards (task_request E now cl req ses s))"
  by (cases req) (auto simp: shared_inv_def tell_def intro: card_none request_cards.cards simp del: dispatch_request.simps)

lemma task_env_kernel [simp]: "kernel (task_env K P wr) = K"
  by (simp add: task_env_def)

lemma task_greet_cards [simp]: "sess_cards (task_greet E cl ses s) = sess_cards s"
  by (simp add: task_greet_def drop_session_def write_msg_def shared_inv_def split: sum.splits)

lemma turn_cards [simp]:
  "sess_cards (engine_turn out sys s) = sess_cards s" "sess_cards (reply_turn cmd res s) = sess_cards s"
  "sess_cards (task_close cl ses s) = sess_cards s" "sess_cards (task_sent cl cmd rest ses s) = sess_cards s"
  by (simp_all add: engine_turn_def reply_turn_def task_close_def task_sent_def drop_session_def)

lemma sess_step_cards:
  assumes "sess_step fmt pol K P s ev t"
  shows "card_op K (sess_cards s) (sess_cards t)"
proof (cases ev)
  case (EvRequest cl req wr now)
  with assms task_request_cards [of "task_env K P wr"] show ?thesis
    by (auto simp: sess_step_def split: option.splits if_splits)
next
  case (EvControl cl wr now)
  with assms control_cards.cards [of "task_env K P wr"] show ?thesis
    by (auto simp: sess_step_def task_control_def simp del: process_control_message.simps
        split: option.splits task_phase.splits list.splits if_splits)
next
  case (EvAnswer cl wr now)
  with assms answer_cards.cards [of "task_env K P wr"] show ?thesis
    by (auto simp: sess_step_def split: option.splits task_phase.splits if_splits)
next
  case (EvAckTimeout cl now)
  with assms show ?thesis
    by (auto simp: sess_step_def intro: ack_cards.cards split: option.splits task_phase.splits if_splits)
qed (use assms in \<open>auto simp: sess_step_def Let_def intro: card_none
      split: option.splits if_splits list.splits prod.splits\<close>)

section \<open>The registry is well typed\<close>

definition cards_typed :: "(resource \<times> drm_device) list \<Rightarrow> bool" where
  "cards_typed dr \<longleftrightarrow> (\<forall>r d. map_of dr r = Some d \<longrightarrow> r = Drm (drm_index d) \<and> state d \<noteq> None)"

lemma cards_typedD: "cards_typed dr \<Longrightarrow> map_of dr r = Some d \<Longrightarrow> r = Drm (drm_index d) \<and> (\<exists>st. state d = Some st)"
  by (simp add: cards_typed_def)

lemma cards_typed_update:
  "cards_typed dr \<Longrightarrow> r = Drm (drm_index d) \<Longrightarrow> state d \<noteq> None \<Longrightarrow> cards_typed (AList.update r d dr)"
  by (simp add: cards_typed_def)

text \<open>Whatever the kernel answers, the two operations keep a card's state, its index and its descriptor.\<close>

lemma create_lease_card:
  "case fst (create_lease K k lk) of Inl (lk', e) \<Rightarrow> locked_card lk' = locked_card lk
    | Inr leased \<Rightarrow> leased_card leased = locked_card lk"
  by (auto simp: create_lease_def Let_def split: sum.splits prod.splits)

lemma leased_revoke_card:
  "case fst (leased_revoke_lease K k lk) of Inl (lk', e) \<Rightarrow> leased_card lk' = leased_card lk
    | Inr locked \<Rightarrow> locked_card locked = leased_card lk"
  by (auto simp: leased_revoke_lease_def Let_def split: sum.splits prod.splits)

lemma lease_locked_keeps:
  assumes "lease_locked K k d lk = (res, d', k')"
  shows "drm_index d' = drm_index d \<and> device_card d' = Some (locked_card lk) \<and> res \<noteq> DrmPanic"
  using assms create_lease_card [where K = K and k = k and lk = lk]
  by (auto simp: lease_locked_def device_card_def split: sum.splits prod.splits)

lemma grant_lease_keeps:
  assumes "grant_lease K k d = (res, d', k')"
  shows "drm_index d' = drm_index d \<and> device_card d' = device_card d \<and> (res = DrmPanic \<longleftrightarrow> state d = None)"
proof (cases "state d")
  case (Some st)
  show ?thesis
  proof (cases st)
    case (Locked lk)
    with Some assms lease_locked_keeps [of K k d lk res d' k'] show ?thesis
      by (auto simp: grant_lease_def device_card_def)
  next
    case (Leased lk)
    obtain x k1 where x: "leased_revoke_lease K k lk = (x, k1)" by fastforce
    with leased_revoke_card [where K = K and k = k and lk = lk] have
      card: "case x of Inl (lk', e) \<Rightarrow> leased_card lk' = leased_card lk | Inr locked \<Rightarrow> locked_card locked = leased_card lk"
      by simp
    show ?thesis
    proof (cases x)
      case (Inr locked)
      with x Some Leased assms have "lease_locked K k1 d locked = (res, d', k')" by (simp add: grant_lease_def)
      from lease_locked_keeps [OF this] card Inr Some Leased show ?thesis by (simp add: device_card_def)
    qed (use x card Some Leased assms in \<open>auto simp: grant_lease_def device_card_def\<close>)
  qed
qed (use assms in \<open>simp add: grant_lease_def\<close>)

lemma drm_revoke_lease_keeps:
  assumes "drm_revoke_lease K k d = (res, d', k')"
  shows "drm_index d' = drm_index d \<and> device_card d' = device_card d"
proof -
  have "device_card d' = device_card d" if "state d = Some (Leased lk)" for lk
    using assms that leased_revoke_card [where K = K and k = k and lk = lk]
    by (auto simp: drm_revoke_lease_def device_card_def split: sum.splits prod.splits)
  then show ?thesis
    using assms by (auto simp: drm_revoke_lease_def device_card_def split: option.splits drm_device_state.splits
        sum.splits prod.splits)
qed

lemma device_card_None [simp]: "device_card d = None \<longleftrightarrow> state d = None"
  by (simp add: device_card_def)

lemma card_op_typed:
  assumes "card_op K x y" "cards_typed (fst x)" shows "cards_typed (fst y)"
  using assms
proof (induction rule: card_op.induct)
  case (card_grant dr r d k res d' k')
  then have "r = Drm (drm_index d') \<and> device_card d' \<noteq> None"
    using grant_lease_keeps [of K k d res d' k'] cards_typedD [of dr r d] by auto
  with card_grant show ?case by (auto intro: cards_typed_update)
next
  case (card_revoke dr r d k res d' k')
  then have "r = Drm (drm_index d') \<and> device_card d' \<noteq> None"
    using drm_revoke_lease_keeps [of K k d res d' k'] cards_typedD [of dr r d] by auto
  with card_revoke show ?case by (auto intro: cards_typed_update)
qed simp_all

lemma register_cards_typed: "cards_typed dr \<Longrightarrow> cards_typed (fst (register_cards ocs dr adv))"
  by (induction ocs dr adv rule: register_cards.induct) (simp_all add: Let_def cards_typed_update)

lemma open_discovered_drm [simp]: "drm (fst (open_discovered fs ds iv adv)) = drm iv"
  by (induction fs ds iv adv rule: open_discovered.induct) (simp_all add: Let_def split: option.splits)

lemma fbdev_open_drm [simp]: "drm (fst (fbdev_open fb iv adv)) = drm iv"
  by (simp add: fbdev_open_def split: sum.splits)

lemma open_resources_drm:
  "drm (fst (open_resources K k fb fs)) =
    fst (drm_open_devices K k (fs_read_dir fs ''/dev/dri/'') [] (snd (fbdev_open fb \<lparr>fds = [], drm = [], inputs = []\<rparr> [])))"
  by (simp add: open_resources_def input_open_devices_def case_prod_beta Let_def)

lemma startup_cards_typed: "cards_typed (drm (fst (open_resources K k fb fs)))"
  unfolding open_resources_drm
  by (auto simp: drm_open_devices_def Let_def case_prod_beta intro!: register_cards_typed split: sum.splits)
    (simp_all add: cards_typed_def)

section \<open>Leases\<close>

text \<open>No two resources share a card.\<close>

definition card_at :: "(resource \<times> drm_device) list \<Rightarrow> resource \<Rightarrow> fd option" where
  "card_at dr r = Option.bind (map_of dr r) device_card"

definition cards_distinct :: "(resource \<times> drm_device) list \<Rightarrow> bool" where
  "cards_distinct dr \<longleftrightarrow> (\<forall>r r' c. card_at dr r = Some c \<longrightarrow> card_at dr r' = Some c \<longrightarrow> r' = r)"

lemma card_at_update:
  "map_of dr r = Some d \<Longrightarrow> device_card d' = device_card d \<Longrightarrow> card_at (AList.update r d' dr) = card_at dr"
  by (simp add: card_at_def fun_eq_iff)

definition cards_agree :: "('k \<Rightarrow> fd \<Rightarrow> lease_id set) \<Rightarrow> (resource \<times> drm_device) list \<times> 'k \<Rightarrow> bool" where
  "cards_agree leases x \<longleftrightarrow>
     (\<forall>r d. map_of (fst x) r = Some d \<longrightarrow> leases_agree leases (snd x) d) \<and>
     cards_distinct (fst x)"

lemma leases_agree_other:
  assumes "leases_agree leases k d" "\<And>c. device_card d = Some c \<Longrightarrow> leases k' c = leases k c"
  shows "leases_agree leases k' d"
  using assms by (auto simp: leases_agree_def device_card_def split: option.splits)

lemma cards_agree_update:
  assumes "cards_agree leases (dr, k)" "map_of dr r = Some d" "device_card d' = device_card d"
    and "leases_agree leases k' d'" "\<And>c. device_card d \<noteq> Some c \<Longrightarrow> leases k' c = leases k c"
  shows "cards_agree leases (AList.update r d' dr, k')"
proof -
  have dist: "cards_distinct dr" using assms(1) by (simp add: cards_agree_def)
  have "leases_agree leases k' d1" if "map_of dr r1 = Some d1" "r1 \<noteq> r" for r1 d1
  proof (rule leases_agree_other [of leases k])
    show "leases_agree leases k d1" using assms(1) that by (simp add: cards_agree_def)
    fix c assume "device_card d1 = Some c"
    then have "card_at dr r1 = Some c" using that by (simp add: card_at_def)
    then have "card_at dr r \<noteq> Some c" using dist that(2) by (auto simp: cards_distinct_def)
    then show "leases k' c = leases k c" using assms(2,5) by (simp add: card_at_def)
  qed
  with assms(4) dist show ?thesis
    by (simp add: cards_agree_def cards_distinct_def card_at_update [OF assms(2,3)])
qed

lemma card_op_agree:
  assumes K: "lease_kernel K leases" and "card_op K x y" "cards_agree leases x" shows "cards_agree leases y"
  using assms(2,3)
proof (induction rule: card_op.induct)
  case (card_clone k f res k' dr)
  have "leases_agree leases k d \<Longrightarrow> leases_agree leases k' d" for d
    by (rule leases_agree_other, assumption) (simp add: lease_kernelD(5) [OF K card_clone(1)])
  with card_clone show ?case by (simp add: cards_agree_def)
next
  case (card_grant dr r d k res d' k')
  then have "leases_agree leases k d" by (simp add: cards_agree_def)
  from grant_lease_agrees [OF K this card_grant(2)] show ?case
    by (intro cards_agree_update [OF card_grant(4,1)]) auto
next
  case (card_revoke dr r d k res d' k')
  then have "leases_agree leases k d" by (simp add: cards_agree_def)
  from drm_revoke_lease_agrees [OF K this card_revoke(2)] show ?case
    by (intro cards_agree_update [OF card_revoke(3,1)]) auto
qed

text \<open>
  What opening the cards gives: files open at the same time have different descriptors, and a card
  that has just been opened carries no lease.
\<close>

definition fresh_cards :: "('k \<Rightarrow> fd \<Rightarrow> lease_id set) \<Rightarrow> (resource \<times> drm_device) list \<times> 'k \<Rightarrow> bool" where
  "fresh_cards leases x \<longleftrightarrow>
     (\<forall>r d c. map_of (fst x) r = Some d \<longrightarrow> device_card d = Some c \<longrightarrow> leases (snd x) c = {}) \<and>
     cards_distinct (fst x)"

text \<open>A card that discovery registers is locked.\<close>

lemma register_cards_locked:
  assumes "\<forall>r d. map_of dr r = Some d \<longrightarrow> (\<exists>lk. state d = Some (Locked lk))"
    and "map_of (fst (register_cards ocs dr adv)) r = Some d"
  shows "\<exists>lk. state d = Some (Locked lk)"
  using assms
  by (induction ocs dr adv rule: register_cards.induct) (auto simp: Let_def split: if_splits)

lemma startup_locked:
  assumes "map_of (drm (fst (open_resources K k fb fs))) r = Some d"
  shows "\<exists>lk. state d = Some (Locked lk)"
  using assms unfolding open_resources_drm
  by (auto simp: drm_open_devices_def Let_def case_prod_beta split: sum.splits intro: register_cards_locked [of "[]"])

lemma startup_agrees:
  assumes "fresh_cards leases (drm (fst (open_resources K k fb fs)), k')"
  shows "cards_agree leases (drm (fst (open_resources K k fb fs)), k')"
  using assms startup_locked [of K k fb fs]
  by (fastforce simp: fresh_cards_def cards_agree_def leases_agree_def device_card_def)

end
