(* ===== verification/Session_Grants.thy ===== *)
theory Session_Grants
  imports Session_Cards
begin

text \<open>
  What the clients of the daemon are sent: every message is well typed, and every Grant a client
  receives goes back to a decision of the engine, used once.  The channels tie the two together: a
  control channel belongs to one client, from the registration on.
\<close>

section \<open>What a handler writes\<close>

fun grant_of :: "server_message \<times> fd option \<Rightarrow> resource option" where
  "grant_of (MsgGrant r, _) = Some r"
| "grant_of _ = None"

definition wire_grants :: "wire_log \<Rightarrow> resource list" where
  "wire_grants w = List.map_filter grant_of w"

text \<open>A Grant carries a descriptor, and no other message does.\<close>

definition typed_msg :: "server_message \<times> fd option \<Rightarrow> bool" where
  "typed_msg m \<longleftrightarrow> (grant_of m \<noteq> None \<longleftrightarrow> snd m \<noteq> None)"

definition appends :: "resource list \<Rightarrow> 'k conn \<Rightarrow> 'k conn \<Rightarrow> bool" where
  "appends gs c c' \<longleftrightarrow>
     (\<exists>ms. wire c' = wire c @ ms \<and> list_all typed_msg ms \<and> (wire_grants ms = [] \<or> wire_grants ms = gs))"

lemma wire_grants_simps [simp]:
  "wire_grants [] = []" "wire_grants (xs @ ys) = wire_grants xs @ wire_grants ys"
  "wire_grants [m] = (case grant_of m of None \<Rightarrow> [] | Some r \<Rightarrow> [r])"
  by (simp_all add: wire_grants_def map_filter_def split: option.split)

lemma appends_nothing: "wire c' = wire c \<Longrightarrow> appends gs c c'"
  by (simp add: appends_def)

lemma write_msg_wire:
  "wire (snd (write_msg E m f c)) = wire c @ (if fst (write_msg E m f c) = Inr () then [(m, f)] else [])"
  by (simp add: write_msg_def split: sum.splits)

lemma write_msg_appends: "grant_of (m, None) = None \<Longrightarrow> appends gs c (snd (write_msg E m None c))"
  by (simp add: appends_def write_msg_wire typed_msg_def)

lemma send_grant_wire:
  "\<exists>f. wire (snd (send_grant E r c)) = wire c @ (if fst (send_grant E r c) = Inr () then [(MsgGrant r, Some f)] else [])"
  by (auto simp: send_grant_def write_msg_wire split: prod.splits sum.splits)

lemma deliver_grant_appends: "appends [r] c (snd (deliver_grant E now cl r c))"
proof -
  obtain res c1 where g: "send_grant E r c = (res, c1)" by fastforce
  obtain f where f: "wire c1 = wire c @ (if res = Inr () then [(MsgGrant r, Some f)] else [])"
    using send_grant_wire [of E r c] g by auto
  show ?thesis
  proof (cases res)
    case (Inl e)
    with g f show ?thesis
      by (simp add: deliver_grant_def appends_def write_msg_wire tell_def typed_msg_def)
  next
    case (Inr u)
    with g f show ?thesis by (simp add: deliver_grant_def appends_def typed_msg_def)
  qed
qed

lemma granted_simps [simp]:
  "granted [] = []" "granted (CtlGrant r # ms) = r # granted ms"
  "granted (CtlRevoke r # ms) = granted ms" "granted (CtlAdvertise rs # ms) = granted ms"
  by (simp_all add: granted_def map_filter_def)

lemma granted_append [simp]: "granted (xs @ ys) = granted xs @ granted ys"
  by (simp add: granted_def map_filter_def)

lemma in_granted [simp]: "r \<in> set (granted ms) \<longleftrightarrow> CtlGrant r \<in> set ms"
proof (induction ms)
  case (Cons m ms)
  then show ?case by (cases m) auto
qed simp

lemma acquire_answered_appends:
  "appends (if res = OutcomeGranted then [r] else []) c (snd (acquire_answered E now cl r res c))"
  by (cases res) (simp_all add: acquire_answered_def deliver_grant_appends write_msg_appends appends_nothing)

lemma control_appends: "appends (granted [m]) c (snd (process_control_message E now cl m c))"
  by (cases m) (simp_all add: deliver_grant_appends write_msg_appends)

section \<open>Every Grant is paid for\<close>

text \<open>The grants a task has still to turn into messages.\<close>

fun answer_owed :: "task_phase \<Rightarrow> resource list" where
  "answer_owed (Answered r OutcomeGranted) = [r]"
| "answer_owed _ = []"

definition owed :: "'k session \<Rightarrow> resource list" where
  "owed ses = granted (s_inbox ses) @ answer_owed (s_phase ses)"

definition task_ok :: "(client_id \<times> resource) list \<Rightarrow> client_id \<Rightarrow> 'k session \<Rightarrow> bool" where
  "task_ok iss cl ses \<longleftrightarrow>
     list_all typed_msg (wire (s_conn ses)) \<and>
     (\<forall>r. count_list (wire_grants (wire (s_conn ses)) @ owed ses) r \<le> count_list iss (cl, r))"

definition accounted :: "'k sessions \<Rightarrow> bool" where
  "accounted s \<longleftrightarrow> (\<forall>cl ses. map_of (x_sess s) cl = Some ses \<longrightarrow> task_ok (x_issued s) cl ses)"

lemma task_ok_more: "task_ok iss cl ses \<Longrightarrow> task_ok (iss @ new) cl ses"
  by (auto simp: task_ok_def count_list_append intro: trans_le_add1)

lemma task_ok_writes:
  assumes "task_ok iss cl ses" "appends gs (s_conn ses) c" "s_conn ses' = c"
    and "\<And>r. count_list (owed ses') r + count_list gs r \<le> count_list (owed ses) r"
  shows "task_ok iss cl ses'"
proof -
  obtain ms where ms: "wire c = wire (s_conn ses) @ ms" "list_all typed_msg ms" "wire_grants ms = [] \<or> wire_grants ms = gs"
    using assms(2) by (auto simp: appends_def)
  have "count_list (wire_grants (wire c) @ owed ses') r \<le> count_list (wire_grants (wire (s_conn ses)) @ owed ses) r" for r
    using ms(1,3) assms(4) [of r] by (auto simp: count_list_append)
  moreover have "count_list (wire_grants (wire (s_conn ses)) @ owed ses) r \<le> count_list iss (cl, r)" for r
    using assms(1) by (simp only: task_ok_def)
  ultimately have "count_list (wire_grants (wire c) @ owed ses') r \<le> count_list iss (cl, r)" for r
    by (rule order_trans)
  with assms(1,3) ms(1,2) show ?thesis by (simp add: task_ok_def)
qed

lemma task_ok_owes_less:
  assumes "task_ok iss cl ses" "s_conn ses' = s_conn ses" "\<And>r. count_list (owed ses') r \<le> count_list (owed ses) r"
  shows "task_ok iss cl ses'"
  using assms by (intro task_ok_writes [OF assms(1), of "[]" "s_conn ses"]) (auto simp: appends_nothing)

lemma accounted_update:
  assumes "accounted s" "task_ok (x_issued s) cl ses"
    and "x_sess t = AList.update cl ses (x_sess s)" "x_issued t = x_issued s"
  shows "accounted t"
  using assms by (simp add: accounted_def)

lemma accounted_drop: "accounted s \<Longrightarrow> accounted (drop_session cl s)"
  by (simp add: accounted_def drop_session_def)

lemma answer_owed_after [simp]: "answer_owed (phase_after res) = []"
  by (cases res) simp_all

lemma appends_borrow: "appends gs (borrow s c) c' \<longleftrightarrow> appends gs c c'"
  by (simp add: appends_def)

text \<open>
  A handler of a task writes at most the Grants it is called for: those are \<open>gs\<close>, and if the task
  owed them before it does not owe them afterwards, the books stay balanced.
\<close>

locale grant_handler = card_handler handler cl K
  for handler :: "'k conn \<Rightarrow> (server_error + unit) \<times> 'k conn" and cl :: client_id and K :: "'k drm_kernel" +
  fixes gs :: "resource list"
  assumes written: "appends gs c (snd (handler c))"
begin

lemma keeps_accounts:
  assumes "accounted s" "map_of (x_sess s) cl = Some old" "s_conn ses = s_conn old"
    and "\<And>r. count_list (granted (s_inbox ses)) r + count_list gs r \<le> count_list (owed old) r"
  shows "accounted (run_task handler cl ses s)"
proof -
  obtain res c where h: "handler (borrow s (s_conn ses)) = (res, c)" by fastforce
  have app: "appends gs (s_conn old) c" using written [of "borrow s (s_conn ses)"] h assms(3) by (simp add: appends_borrow)
  have ok: "task_ok (x_issued s) cl old" using assms(1,2) by (simp add: accounted_def)
  have "task_ok (x_issued s) cl (ses\<lparr>s_phase := phase_after res, s_conn := c, s_out := drop (length (told (s_conn ses))) (told c)\<rparr>)"
    by (rule task_ok_writes [OF ok app]) (use assms(4) in \<open>simp_all add: owed_def\<close>)
  then show ?thesis
    by (intro accounted_update [OF assms(1)]) (simp_all add: run_task_def h)
qed

end

fun requested :: "client_request \<Rightarrow> resource list" where
  "requested (ReqAcquire r) = [r]"
| "requested _ = []"

lemma dispatch_appends: "appends (requested req) c (snd (dispatch_request E now cl req c))"
proof (cases req)
  case (ReqAcquire r)
  have "wire (snd (engine_acquire E cl r c)) = wire c"
    by (simp add: engine_acquire_def tell_def split: option.split)
  with acquire_answered_appends [of "fst (engine_acquire E cl r c)" r "snd (engine_acquire E cl r c)" E now cl]
  have "appends [r] c (snd (acquire_answered E now cl r (fst (engine_acquire E cl r c)) (snd (engine_acquire E cl r c))))"
    unfolding appends_def by (auto split: if_splits)
  with ReqAcquire show ?thesis by (simp add: handle_acquire_def case_prod_beta)
qed (simp_all add: handle_release_def tell_def case_prod_beta Let_def appends_nothing)

interpretation control_grants: grant_handler "process_control_message E now cl m" cl "kernel E" "granted [m]"
  for E :: "'k env" and now cl m
  by unfold_locales (rule control_appends)

interpretation answer_grants: grant_handler "acquire_answered E now cl r res" cl "kernel E"
  "if res = OutcomeGranted then [r] else []"
  for E :: "'k env" and now cl r res
  by unfold_locales (rule acquire_answered_appends)

interpretation request_grants: grant_handler "dispatch_request E now cl req" cl "kernel E" "requested req"
  for E :: "'k env" and now cl req
  by unfold_locales (rule dispatch_appends)

interpretation ack_grants: grant_handler "\<lambda>c :: 'k conn. (Inr (), c\<lparr>ack_deadline := None\<rparr>)" cl K "[]" for cl K
  by unfold_locales (simp add: appends_nothing)

lemma task_request_accounted:
  assumes "accounted s" "map_of (x_sess s) cl = Some ses" "s_phase ses = Ready"
  shows "accounted (task_request E now cl req ses s)"
proof (cases "\<exists>r. req = ReqAcquire r")
  case True
  then obtain r where r: "req = ReqAcquire r" by blast
  let ?ses = "ses\<lparr>s_phase := Awaiting r, s_conn := tell (CmdAcquire cl r) (borrow s (s_conn ses)), s_out := [CmdAcquire cl r]\<rparr>"
  have "task_ok (x_issued s) cl ses" using assms(1,2) by (simp add: accounted_def)
  then have "task_ok (x_issued s) cl ?ses"
    by (rule task_ok_writes [where gs = "[]"]) (auto simp: owed_def tell_def appends_nothing assms(3))
  then show ?thesis by (intro accounted_update [OF assms(1)]) (simp_all add: r)
next
  case False
  then have "task_request E now cl req ses s = run_task (dispatch_request E now cl req) cl ses s" "requested req = []"
    by (cases req; simp)+
  with request_grants.keeps_accounts [OF assms(1,2) refl, of req E now] show ?thesis by (simp add: owed_def)
qed

lemma task_control_accounted:
  assumes "accounted s" "map_of (x_sess s) cl = Some ses" "s_inbox ses = m # rest"
  shows "accounted (task_control E now cl m rest ses s)"
  unfolding task_control_def
  by (rule control_grants.keeps_accounts [OF assms(1,2)])
    (use granted_append [of "[m]" rest] in \<open>simp_all add: owed_def assms(3) count_list_append\<close>)

lemma task_answer_accounted:
  assumes "accounted s" "map_of (x_sess s) cl = Some ses" "s_phase ses = Answered r res"
  shows "accounted (run_task (acquire_answered E now cl r res) cl ses s)"
  by (rule answer_grants.keeps_accounts [OF assms(1,2)]) (simp_all add: owed_def assms(3) count_list_append)

lemma task_greet_accounted:
  assumes "accounted s" "map_of (x_sess s) cl = Some ses" "s_phase ses = Greeting"
  shows "accounted (task_greet E cl ses s)"
proof -
  let ?m = "MsgAdvertise (adv_snapshot (d_adv (x_d s)))"
  obtain res c where w: "write_msg E ?m None (borrow s (s_conn ses)) = (res, c)" by fastforce
  have a: "appends [] (s_conn ses) c"
    using write_msg_appends [of ?m "[]" "borrow s (s_conn ses)" E] w by (simp add: appends_borrow)
  have ok: "task_ok (x_issued s) cl ses" using assms(1,2) by (simp add: accounted_def)
  have "task_ok (x_issued s) cl (ses\<lparr>s_phase := Ready, s_conn := c, s_out := drop (length (told (s_conn ses))) (told c)\<rparr>)"
    by (rule task_ok_writes [OF ok a]) (simp_all add: owed_def assms(3))
  then have "accounted (give_back cl (ses\<lparr>s_phase := Ready\<rparr>) c s)"
    by (rule accounted_update [OF assms(1)]) simp_all
  with w accounted_drop [OF assms(1), of cl] show ?thesis
    by (cases res) (simp_all add: task_greet_def)
qed

text \<open>What the engine pushes and answers is what the history records.\<close>

lemma count_list_pair [simp]: "count_list (map (Pair cl) rs) (cl', r) = (if cl' = cl then count_list rs r else 0)"
  by (induction rs) auto

lemma push_grants_count:
  "map_of ss cl = Some ses \<Longrightarrow> count_list (granted (pushed out (s_chan ses))) r \<le> count_list (push_grants out ss) (cl, r)"
  by (induction ss) (auto simp: push_grants_def count_list_append split: if_splits)

lemma task_ok_pushed:
  assumes "task_ok iss cl ses" "\<And>r. count_list (granted ms) r \<le> count_list new (cl, r)"
  shows "task_ok (iss @ new) cl (ses\<lparr>s_inbox := s_inbox ses @ ms\<rparr>)"
proof -
  have "count_list (wire_grants (wire (s_conn ses)) @ owed ses) r + count_list (granted ms) r
      \<le> count_list iss (cl, r) + count_list new (cl, r)" for r
    using assms by (intro add_mono) (simp_all only: task_ok_def)
  with assms(1) show ?thesis
    by (simp add: task_ok_def owed_def count_list_append algebra_simps)
qed

lemma engine_turn_accounted: "accounted s \<Longrightarrow> accounted (engine_turn out sys s)"
  by (auto simp: accounted_def engine_turn_def push_all_def intro!: task_ok_pushed push_grants_count)

lemma task_ok_answered:
  assumes "task_ok iss cl ses" "s_phase ses = Awaiting r"
  shows "task_ok (iss @ reply_grants (CmdAcquire cl r) (Some res)) cl (ses\<lparr>s_phase := Answered r res\<rparr>)"
proof -
  have "count_list (wire_grants (wire (s_conn ses)) @ granted (s_inbox ses)) q \<le> count_list iss (cl, q)" for q
    using assms by (simp add: task_ok_def owed_def)
  with assms(1) show ?thesis
    by (cases res) (simp_all add: task_ok_def owed_def count_list_append)
qed

lemma reply_turn_accounted:
  assumes "accounted s" shows "accounted (reply_turn cmd res s)"
proof (cases "(cmd, res)" rule: reply_to.cases)
  case (1 cl r res')
  with assms show ?thesis
    by (auto simp: accounted_def reply_turn_def task_ok_more task_ok_answered simp del: reply_grants.simps split: if_splits)
qed (use assms in \<open>auto simp: accounted_def reply_turn_def\<close>)

lemma accounted_daemon: "accounted s \<Longrightarrow> x_sess t = x_sess s \<Longrightarrow> x_issued t = x_issued s \<Longrightarrow> accounted t"
  by (simp add: accounted_def)

lemma new_session_ok: "task_ok iss cl (new_session cl ch iv k)"
  by (simp add: task_ok_def new_session_def tell_def owed_def)

lemma sess_step_accounted:
  assumes "accounted s" "sess_step fmt pol K P s ev t" shows "accounted t"
proof (cases ev)
  case (EvHandle now)
  obtain cmd mail res e' out where "d_mail (x_d s) = cmd # mail"
    "handle_command (listening s) now cmd (eng (d_sys (x_d s))) = (res, e', out)"
    using EvHandle assms(2) by (auto simp: sess_step_def split: list.splits if_splits prod.splits)
  with EvHandle assms(2) have t: "t = reply_turn cmd res ((engine_turn out \<lparr>eng = e', clock = now\<rparr> s)
      \<lparr>x_d := (x_d (engine_turn out \<lparr>eng = e', clock = now\<rparr> s))\<lparr>d_mail := mail\<rparr>\<rparr>)"
    by (simp add: sess_step_def Let_def split: if_splits)
  show ?thesis
    unfolding t by (intro reply_turn_accounted accounted_daemon [OF engine_turn_accounted [OF assms(1)]]) simp_all
next
  case (EvTimeout now)
  with assms engine_turn_accounted [OF assms(1)] show ?thesis
    by (auto simp: sess_step_def split: option.splits if_splits prod.splits)
next
  case EvAccept
  with assms show ?thesis
    by (auto simp: sess_step_def accounted_def Let_def new_session_ok split: if_splits prod.splits)
next
  case (EvHangup cl)
  then obtain ses where ses: "map_of (x_sess s) cl = Some ses" "s_phase ses = Ready"
    "t = s\<lparr>x_sess := AList.update cl (ses\<lparr>s_phase := Leaving\<rparr>) (x_sess s)\<rparr>"
    using assms(2) by (auto simp: sess_step_def split: option.splits if_splits)
  moreover from this assms(1) have "task_ok (x_issued s) cl ses" by (simp add: accounted_def)
  ultimately have "task_ok (x_issued s) cl (ses\<lparr>s_phase := Leaving\<rparr>)"
    by (auto intro: task_ok_owes_less simp: owed_def)
  with ses(3) show ?thesis by (intro accounted_update [OF assms(1)]) simp_all
next
  case (EvAckTimeout cl now)
  then obtain ses where ses: "map_of (x_sess s) cl = Some ses" "s_phase ses = Ready"
    "t = run_task (\<lambda>c. (Inr (), c\<lparr>ack_deadline := None\<rparr>)) cl ses s"
    using assms(2) by (auto simp: sess_step_def split: option.splits if_splits task_phase.splits)
  then show ?thesis
    using ack_grants.keeps_accounts [OF assms(1) ses(1) refl] by (simp add: owed_def)
next
  case (EvClose cl)
  then obtain ses where ses: "map_of (x_sess s) cl = Some ses" "t = task_close cl ses s"
    using assms(2) by (auto simp: sess_step_def split: option.splits if_splits)
  then have "task_ok (x_issued s) cl ses" using assms(1) by (simp add: accounted_def)
  then have "task_ok (x_issued s) cl (ses\<lparr>s_phase := Closing, s_out := [CmdDisconnected cl]\<rparr>)"
    by (rule task_ok_owes_less) (simp_all add: owed_def count_list_append)
  with ses(2) show ?thesis by (intro accounted_update [OF assms(1)]) (simp_all add: task_close_def)
next
  case (EvSend cl)
  then obtain ses cmd rest where ses: "map_of (x_sess s) cl = Some ses" "t = task_sent cl cmd rest ses s"
    using assms(2) by (auto simp: sess_step_def split: option.splits list.splits if_splits)
  then have "task_ok (x_issued s) cl ses" using assms(1) by (simp add: accounted_def)
  then have "task_ok (x_issued s) cl (ses\<lparr>s_out := rest\<rparr>)"
    by (rule task_ok_owes_less) (simp_all add: owed_def)
  then have "accounted (s\<lparr>x_sess := AList.update cl (ses\<lparr>s_out := rest\<rparr>) (x_sess s)\<rparr>)"
    by (intro accounted_update [OF assms(1)]) simp_all
  with ses(2) accounted_drop [OF assms(1), of cl] show ?thesis
    by (auto simp: task_sent_def intro: accounted_daemon)
qed (use assms in \<open>auto simp: sess_step_def split: option.splits if_splits list.splits task_phase.splits prod.splits
      intro: task_greet_accounted task_request_accounted task_control_accounted task_answer_accounted accounted_daemon\<close>)

section \<open>A channel belongs to one client\<close>

text \<open>Who a channel is registered for, about to be registered for, or the channel of.\<close>

definition claims :: "'k sessions \<Rightarrow> client_id \<Rightarrow> chan \<Rightarrow> bool" where
  "claims s c ch \<longleftrightarrow>
     map_of (control_reg (eng (d_sys (x_d s)))) c = Some ch \<or> CmdRegister c ch \<in> set (d_mail (x_d s)) \<or>
     (\<exists>ses. map_of (x_sess s) c = Some ses \<and> s_chan ses = ch)"

text \<open>The reconciler broadcasts advertised lists and nothing else, and registers nobody.\<close>

fun harmless :: "engine_command \<Rightarrow> bool" where
  "harmless (CmdBroadcast m) \<longleftrightarrow> (\<exists>rs. m = CtlAdvertise rs)"
| "harmless _ \<longleftrightarrow> True"

definition channels_inv :: "'k sessions \<Rightarrow> bool" where
  "channels_inv s \<longleftrightarrow>
     (\<forall>c ch. claims s c ch \<longrightarrow> ch < x_next_chan s) \<and>
     (\<forall>c c' ch. claims s c ch \<longrightarrow> claims s c' ch \<longrightarrow> c' = c) \<and>
     list_all harmless (d_mail (x_d s))"

lemma own_request_harmless: "own_request cl cmd \<Longrightarrow> harmless cmd \<and> (\<forall>c ch. cmd \<noteq> CmdRegister c ch)"
  by (auto simp: own_request_def)

lemma timely_harmless: "timely (cmd, iv, adv) \<Longrightarrow> harmless cmd \<and> (\<forall>c ch. cmd \<noteq> CmdRegister c ch)"
  by (cases cmd) auto

lemma channels_shrink:
  assumes "channels_inv s" "\<And>c ch. claims t c ch \<Longrightarrow> claims s c ch" "x_next_chan t = x_next_chan s"
    and "list_all harmless (d_mail (x_d t))"
  shows "channels_inv t"
  using assms unfolding channels_inv_def by metis

lemma channels_same:
  assumes "channels_inv s" "d_sys (x_d t) = d_sys (x_d s)" "d_mail (x_d t) = d_mail (x_d s)"
    and "x_sess t = x_sess s" "x_next_chan t = x_next_chan s"
  shows "channels_inv t"
  using assms by (simp add: channels_inv_def claims_def)

lemma registry_command:
  assumes "map_of (control_reg (fst (snd (handle_command ok now cmd e)))) c = Some ch"
  shows "map_of (control_reg e) c = Some ch \<or> cmd = CmdRegister c ch"
  using assms
  by (cases cmd) (auto simp: handle_disconnected_def handle_release_cmd_def handle_resume_def handle_suspend_def
      handle_offer_def case_prod_beta Let_def split: option.splits if_splits)

lemma update_channels:
  assumes "channels_inv s" "map_of (x_sess s) cl = Some old" "x_sess t = AList.update cl ses (x_sess s)" "s_chan ses = s_chan old"
    and "x_d t = x_d s" "x_next_chan t = x_next_chan s"
  shows "channels_inv t"
proof (rule channels_shrink [OF assms(1) _ assms(6)])
  show "claims s c ch" if "claims t c ch" for c ch
    using that assms(2-5) by (auto simp: claims_def split: if_splits)
qed (use assms(1,5) in \<open>simp add: channels_inv_def\<close>)

lemma run_task_channels:
  assumes "channels_inv s" "map_of (x_sess s) cl = Some old" "s_chan ses = s_chan old"
  shows "channels_inv (run_task handler cl ses s)"
  unfolding run_task_def case_prod_beta Let_def
  by (rule update_channels [OF assms(1,2) give_back_simps(1)]) (simp_all add: assms(3))

lemma post_channels:
  assumes "channels_inv s" "harmless cmd" "\<And>c ch. cmd \<noteq> CmdRegister c ch" shows "channels_inv (post cmd s)"
  using assms by (intro channels_shrink [OF assms(1)]) (auto simp: claims_def channels_inv_def)

lemma drop_session_channels: "channels_inv s \<Longrightarrow> channels_inv (drop_session cl s)"
  by (rule channels_shrink) (auto simp: claims_def drop_session_def channels_inv_def split: if_splits)

lemma task_greet_channels:
  assumes "channels_inv s" "map_of (x_sess s) cl = Some ses"
  shows "channels_inv (task_greet E cl ses s)"
  using drop_session_channels [OF assms(1)]
  by (auto simp: task_greet_def case_prod_beta intro!: update_channels [OF assms] split: sum.splits)

lemma task_request_channels:
  assumes "channels_inv s" "map_of (x_sess s) cl = Some ses"
  shows "channels_inv (task_request E now cl req ses s)"
  using assms by (cases req) (auto intro!: run_task_channels intro: update_channels [OF assms] simp del: dispatch_request.simps)

lemma task_sent_channels:
  assumes "channels_inv s" "sess_inv s" "map_of (x_sess s) cl = Some ses" "s_out ses = cmd # rest"
  shows "channels_inv (task_sent cl cmd rest ses s)"
proof -
  have "channels_inv (if s_phase ses = Closing then drop_session cl s
      else s\<lparr>x_sess := AList.update cl (ses\<lparr>s_out := rest\<rparr>) (x_sess s)\<rparr>)"
    using drop_session_channels [OF assms(1)] update_channels [OF assms(1,3)] by simp
  moreover have "harmless cmd \<and> (\<forall>c ch. cmd \<noteq> CmdRegister c ch)"
    using sess_inv_sending [OF assms(2,3)] assms(4) own_request_harmless
    by (auto simp: sending_ok_def split: if_splits)
  ultimately show ?thesis by (simp add: task_sent_def post_channels)
qed

lemma push_all_lookup: "map_of (push_all out ss) c = Some ses' \<Longrightarrow> \<exists>ses. map_of ss c = Some ses \<and> s_chan ses' = s_chan ses"
  by (auto simp: push_all_def)

lemma reply_to_lookup: "map_of (reply_to cmd res ss) c = Some ses' \<Longrightarrow> \<exists>ses. map_of ss c = Some ses \<and> s_chan ses' = s_chan ses"
  by (cases "(cmd, res)" rule: reply_to.cases) (auto split: if_splits)

lemma handled_state:
  assumes "sess_step fmt pol K P s (EvHandle now) t"
  obtains cmd mail res e' out where "d_mail (x_d s) = cmd # mail" "clock (d_sys (x_d s)) \<le> now"
    "handle_command (listening s) now cmd (eng (d_sys (x_d s))) = (res, e', out)"
    "x_d t = (x_d s)\<lparr>d_sys := \<lparr>eng = e', clock = now\<rparr>, d_mail := mail\<rparr>" "x_next_chan t = x_next_chan s"
    "x_sess t = reply_to cmd res (push_all out (x_sess s))"
    "x_issued t = x_issued s @ push_grants out (x_sess s) @ reply_grants cmd res"
proof -
  obtain cmd mail where m: "d_mail (x_d s) = cmd # mail" "clock (d_sys (x_d s)) \<le> now"
    using assms by (auto simp: sess_step_def split: list.splits if_splits)
  obtain res e' out where h: "handle_command (listening s) now cmd (eng (d_sys (x_d s))) = (res, e', out)"
    by (rule prod_cases3)
  with m assms that [OF m h] show thesis
    by (auto simp: sess_step_def Let_def engine_turn_def reply_turn_def)
qed

lemma timed_out_state:
  assumes "sess_step fmt pol K P s (EvTimeout now) t"
  obtains e' out where "handle_timeout (listening s) now (eng (d_sys (x_d s))) = (e', out)"
    "x_d t = (x_d s)\<lparr>d_sys := \<lparr>eng = e', clock = now\<rparr>\<rparr>" "x_next_chan t = x_next_chan s"
    "x_sess t = push_all out (x_sess s)" "x_issued t = x_issued s @ push_grants out (x_sess s)"
proof -
  obtain e' out where h: "handle_timeout (listening s) now (eng (d_sys (x_d s))) = (e', out)" by fastforce
  with assms that [OF h] show thesis
    by (auto simp: sess_step_def engine_turn_def split: option.splits if_splits)
qed

lemma handle_channels:
  assumes "channels_inv s" "sess_step fmt pol K P s (EvHandle now) t" shows "channels_inv t"
  using assms(2)
proof (rule handled_state)
  fix cmd mail res e' out
  assume t: "d_mail (x_d s) = cmd # mail" "handle_command (listening s) now cmd (eng (d_sys (x_d s))) = (res, e', out)"
    "x_d t = (x_d s)\<lparr>d_sys := \<lparr>eng = e', clock = now\<rparr>, d_mail := mail\<rparr>" "x_next_chan t = x_next_chan s"
    "x_sess t = reply_to cmd res (push_all out (x_sess s))"
  show ?thesis
  proof (rule channels_shrink [OF assms(1) _ t(4)])
    show "claims s c ch" if "claims t c ch" for c ch
      using that registry_command [of "listening s" now cmd "eng (d_sys (x_d s))" c ch] t
      by (auto simp: claims_def dest!: reply_to_lookup push_all_lookup)
    show "list_all harmless (d_mail (x_d t))" using assms(1) t(1,3) by (simp add: channels_inv_def)
  qed
qed

lemma timeout_channels:
  assumes "channels_inv s" "engine_inv (eng (d_sys (x_d s)))" "sess_step fmt pol K P s (EvTimeout now) t"
  shows "channels_inv t"
  using assms(3)
proof (rule timed_out_state)
  fix e' out
  assume t: "handle_timeout (listening s) now (eng (d_sys (x_d s))) = (e', out)"
    "x_d t = (x_d s)\<lparr>d_sys := \<lparr>eng = e', clock = now\<rparr>\<rparr>" "x_next_chan t = x_next_chan s"
    "x_sess t = push_all out (x_sess s)"
  have "control_reg e' = control_reg (eng (d_sys (x_d s)))"
    using handle_timeout_reg [OF assms(2), of "listening s" now] t(1) by simp
  then show ?thesis
    using assms(1) t by (intro channels_shrink [OF assms(1) _ t(3)])
      (auto simp: claims_def channels_inv_def dest!: push_all_lookup)
qed

lemma accept_channels:
  assumes "channels_inv s" "sess_step fmt pol K P s EvAccept t" shows "channels_inv t"
proof -
  obtain cl where cl: "claims t c ch \<Longrightarrow> claims s c ch \<or> c = cl \<and> ch = x_next_chan s" for c ch
  proof
    fix c ch assume "claims t c ch"
    with assms(2) show "claims s c ch \<or> c = d_next (x_d s) \<and> ch = x_next_chan s"
      by (auto simp: sess_step_def claims_def Let_def alloc_client_id_def new_session_def split: if_splits)
  qed
  have fresh: "\<not> claims s c (x_next_chan s)" for c
    using assms(1) by (auto simp: channels_inv_def)
  have t: "x_next_chan t = Suc (x_next_chan s)" "list_all harmless (d_mail (x_d t))"
    using assms by (auto simp: sess_step_def channels_inv_def Let_def alloc_client_id_def split: if_splits)
  show ?thesis
    unfolding channels_inv_def t(1)
  proof (intro conjI allI impI)
    show "ch < Suc (x_next_chan s)" if "claims t c ch" for c ch
      using cl [OF that] assms(1) by (auto simp: channels_inv_def less_SucI)
    show "c' = c" if "claims t c ch" "claims t c' ch" for c c' ch
      using cl [OF that(1)] cl [OF that(2)] fresh assms(1) by (auto simp: channels_inv_def)
  qed (rule t(2))
qed

lemma tell_channels:
  assumes "channels_inv s" "list_all timely (d_todo (x_d s))" "sess_step fmt pol K P s EvTell t" shows "channels_inv t"
proof -
  obtain cmd iv adv todo where todo: "d_todo (x_d s) = (cmd, iv, adv) # todo"
    and t: "t = post cmd (s\<lparr>x_d := (x_d s)\<lparr>d_inv := iv, d_adv := adv, d_todo := todo\<rparr>\<rparr>)"
    using assms(3) by (auto simp: sess_step_def split: list.splits if_splits)
  have "harmless cmd \<and> (\<forall>c ch. cmd \<noteq> CmdRegister c ch)"
    using assms(2) todo timely_harmless [of cmd iv adv] by simp
  then show ?thesis unfolding t by (intro post_channels channels_same [OF assms(1)]) simp_all
qed

lemma sess_step_channels:
  assumes "channels_inv s" "sess_inv s" "daemon_inv fmt (x_d s)" "sess_step fmt pol K P s ev t" shows "channels_inv t"
proof (cases ev)
  case (EvTimeout now)
  have "engine_inv (eng (d_sys (x_d s)))"
    using assms(3) by (intro engine_reach.reach_inv) (simp add: daemon_inv_def)
  with EvTimeout assms show ?thesis by (blast intro: timeout_channels)
next
  case EvTell
  with assms tell_channels show ?thesis unfolding daemon_inv_def by blast
next
  case (EvClose cl)
  with assms show ?thesis
    by (auto simp: sess_step_def task_close_def split: option.splits if_splits intro!: update_channels [OF assms(1)])
next
  case (EvSend cl)
  with assms show ?thesis
    by (auto simp: sess_step_def split: option.splits list.splits if_splits intro: task_sent_channels)
next
  case (EvHandle now)
  with assms show ?thesis by (blast intro: handle_channels)
next
  case EvAccept
  with assms show ?thesis by (blast intro: accept_channels)
next
  case (EvHangup cl)
  with assms show ?thesis
    by (auto simp: sess_step_def split: option.splits if_splits intro!: update_channels [OF assms(1)])
next
  case (EvPass fs)
  with assms show ?thesis
    by (auto simp: sess_step_def split: if_splits prod.splits intro!: channels_same [OF assms(1)])
next
  case EvPublish
  with assms show ?thesis
    by (auto simp: sess_step_def split: list.splits intro!: channels_same [OF assms(1)])
qed (use assms in \<open>auto simp: sess_step_def task_control_def simp del: process_control_message.simps
      split: option.splits if_splits list.splits task_phase.splits
      intro!: task_greet_channels task_request_channels run_task_channels\<close>)

section \<open>Decisions\<close>

lemma push_grants_in:
  assumes "(cl, r) \<in> set (push_grants out (x_sess s))" "sess_inv s"
  obtains ses where "map_of (x_sess s) cl = Some ses" "(s_chan ses, CtlGrant r) \<in> set out"
proof -
  obtain ses where ses: "(cl, ses) \<in> set (x_sess s)" "r \<in> set (granted (pushed out (s_chan ses)))"
    using assms(1) by (auto simp: push_grants_def)
  from ses(2) have "(s_chan ses, CtlGrant r) \<in> set out"
    by (auto simp: pushed_def)
  moreover have "map_of (x_sess s) cl = Some ses" using ses(1) assms(2) by (simp add: sess_inv_def)
  ultimately show thesis by (intro that)
qed

lemma broadcast_grants:
  assumes "harmless (CmdBroadcast m)" shows "(ch, CtlGrant r) \<notin> set (handle_broadcast ok m e)"
  using assms by (auto simp: handle_broadcast_def send_def split: if_splits)

lemma acquire_granted_owner:
  assumes "engine_inv e" "handle_command ok now cmd e = (res, e', out)" "(cl, r) \<in> set (reply_grants cmd res)"
  shows "owner_of e' r = Some cl"
proof -
  have "cmd = CmdAcquire cl r" "res = Some OutcomeGranted"
    using assms(3) by (cases "(cmd, res)" rule: reply_grants.cases; simp)+
  with assms(2) acquire_one_owner_of [OF assms(1), of ok now cl r r] show ?thesis
    by (auto simp: Let_def case_prod_beta)
qed

text \<open>The channel a Grant went to is the channel of the client that owns the resource.\<close>

lemma push_grants_owner:
  assumes "sess_inv s" "channels_inv t" "(cl, r) \<in> set (push_grants out (x_sess s))"
    and chans: "\<And>ses. map_of (x_sess s) cl = Some ses \<Longrightarrow> claims t cl (s_chan ses)"
    and eng: "\<And>ch. (ch, CtlGrant r) \<in> set out \<Longrightarrow> \<exists>c. map_of (control_reg (eng (d_sys (x_d t)))) c = Some ch \<and> owner_of (eng (d_sys (x_d t))) r = Some c"
  shows "owner_of (eng (d_sys (x_d t))) r = Some cl"
proof -
  obtain ses where ses: "map_of (x_sess s) cl = Some ses" "(s_chan ses, CtlGrant r) \<in> set out"
    by (rule push_grants_in [OF assms(3,1)])
  obtain c where c: "map_of (control_reg (eng (d_sys (x_d t)))) c = Some (s_chan ses)"
    "owner_of (eng (d_sys (x_d t))) r = Some c"
    using eng [OF ses(2)] by blast
  then have "claims t c (s_chan ses)" by (simp add: claims_def)
  with chans [OF ses(1)] assms(2) have "c = cl" by (simp add: channels_inv_def)
  with c(2) show ?thesis by simp
qed

lemma push_all_claims: "map_of ss c = Some ses \<Longrightarrow> \<exists>ses'. map_of (push_all out ss) c = Some ses' \<and> s_chan ses' = s_chan ses"
  by (auto simp: push_all_def)

lemma reply_to_claims: "map_of ss c = Some ses \<Longrightarrow> \<exists>ses'. map_of (reply_to cmd res ss) c = Some ses' \<and> s_chan ses' = s_chan ses"
  by (cases "(cmd, res)" rule: reply_to.cases) auto

lemma handle_decides:
  assumes "sess_inv s" "channels_inv s" "engine_inv (eng (d_sys (x_d s)))" "sess_step fmt pol K P s (EvHandle now) t"
  shows "\<exists>new. x_issued t = x_issued s @ new \<and> (\<forall>(cl, r)\<in>set new. owner_of (eng (d_sys (x_d t))) r = Some cl)"
  using assms(4)
proof (rule handled_state)
  fix cmd mail res e' out
  assume t: "d_mail (x_d s) = cmd # mail" "handle_command (listening s) now cmd (eng (d_sys (x_d s))) = (res, e', out)"
    "x_d t = (x_d s)\<lparr>d_sys := \<lparr>eng = e', clock = now\<rparr>, d_mail := mail\<rparr>"
    "x_sess t = reply_to cmd res (push_all out (x_sess s))"
    "x_issued t = x_issued s @ push_grants out (x_sess s) @ reply_grants cmd res"
  have "\<exists>c. map_of (control_reg e') c = Some ch \<and> owner_of e' r = Some c" if "(ch, CtlGrant r) \<in> set out" for ch r
  proof (cases "\<exists>m. cmd = CmdBroadcast m")
    case True
    with t(1) assms(2) have "harmless cmd" by (simp add: channels_inv_def)
    with True t(2) that broadcast_grants show ?thesis by auto
  next
    case False
    with handle_command_grant_owner [OF assms(3), of cmd ch r "listening s" now] t(2) that show ?thesis by auto
  qed
  then have eng: "\<exists>c. map_of (control_reg (eng (d_sys (x_d t)))) c = Some ch \<and> owner_of (eng (d_sys (x_d t))) r = Some c"
    if "(ch, CtlGrant r) \<in> set out" for ch r
    using that t(3) by simp
  have chans: "claims t cl (s_chan ses)" if "map_of (x_sess s) cl = Some ses" for cl ses
    using push_all_claims [OF that, of out] reply_to_claims [of "push_all out (x_sess s)" cl _ cmd res] t(4)
    unfolding claims_def by fastforce
  have "owner_of (eng (d_sys (x_d t))) r = Some cl"
    if "(cl, r) \<in> set (push_grants out (x_sess s) @ reply_grants cmd res)" for cl r
    using that acquire_granted_owner [OF assms(3) t(2)] t(3)
      push_grants_owner [OF assms(1) handle_channels [OF assms(2,4)], of cl r out] chans eng
    by auto
  with t(5) show ?thesis by (intro exI [of _ "push_grants out (x_sess s) @ reply_grants cmd res"]) auto
qed

lemma timeout_decides:
  assumes "sess_inv s" "channels_inv s" "engine_inv (eng (d_sys (x_d s)))" "sess_step fmt pol K P s (EvTimeout now) t"
  shows "\<exists>new. x_issued t = x_issued s @ new \<and> (\<forall>(cl, r)\<in>set new. owner_of (eng (d_sys (x_d t))) r = Some cl)"
  using assms(4)
proof (rule timed_out_state)
  fix e' out
  assume t: "handle_timeout (listening s) now (eng (d_sys (x_d s))) = (e', out)"
    "x_d t = (x_d s)\<lparr>d_sys := \<lparr>eng = e', clock = now\<rparr>\<rparr>"
    "x_sess t = push_all out (x_sess s)" "x_issued t = x_issued s @ push_grants out (x_sess s)"
  have eng: "\<exists>c. map_of (control_reg (eng (d_sys (x_d t)))) c = Some ch \<and> owner_of (eng (d_sys (x_d t))) r = Some c"
    if "(ch, CtlGrant r) \<in> set out" for ch r
    using handle_timeout_grant_owner [OF assms(3), of ch r "listening s" now] handle_timeout_reg [OF assms(3), of "listening s" now]
      that t(1,2) by simp
  have chans: "claims t cl (s_chan ses)" if "map_of (x_sess s) cl = Some ses" for cl ses
    using push_all_claims [OF that, of out] t(3) by (auto simp: claims_def)
  have "owner_of (eng (d_sys (x_d t))) r = Some cl" if "(cl, r) \<in> set (push_grants out (x_sess s))" for cl r
    using that chans eng by (intro push_grants_owner [OF assms(1) timeout_channels [OF assms(2,3,4)], of cl r out]) auto
  with t(4) show ?thesis by (intro exI [of _ "push_grants out (x_sess s)"]) auto
qed

lemma task_request_issued: "x_issued (task_request E now cl req ses s) = x_issued s"
  by (cases req) (simp_all add: run_task_def case_prod_beta)

lemma silent_issues:
  assumes "sess_step fmt pol K P s ev t" "\<forall>now. ev \<noteq> EvHandle now \<and> ev \<noteq> EvTimeout now"
  shows "x_issued t = x_issued s"
  using assms
  by (cases ev) (auto simp: sess_step_def task_greet_def run_task_def task_control_def task_close_def task_sent_def drop_session_def Let_def
      task_request_issued split: option.splits if_splits list.splits task_phase.splits prod.splits sum.splits)

section \<open>The invariant of the daemon with its tasks\<close>

definition full_inv :: "(resource \<Rightarrow> string) \<Rightarrow> 'k sessions \<Rightarrow> bool" where
  "full_inv fmt s \<longleftrightarrow> sess_inv s \<and> daemon_inv fmt (x_d s) \<and> channels_inv s \<and> accounted s \<and> cards_typed (x_drm s)"

lemma daemon_steps_inv: "daemon_steps fmt pol s t \<Longrightarrow> daemon_inv fmt s \<Longrightarrow> daemon_inv fmt t"
  by (induction rule: rtranclp_induct) (auto intro: daemon_step_inv)

lemma sess_init_full: "sess_init K k fb fs fmt var pol s \<Longrightarrow> full_inv fmt s"
  using sess_init_inv [of K k fb fs fmt var pol s] daemon_init_inv [of K k fb fs fmt var pol "x_d s"]
  by (auto simp: sess_init_def full_inv_def channels_inv_def claims_def accounted_def startup_cards_typed
      daemon_boot_def init_engine_def case_prod_beta Let_def)

lemma sess_step_full:
  assumes "full_inv fmt s" "sess_step fmt pol K P s ev t" shows "full_inv fmt t"
proof -
  have inv: "sess_inv s" "daemon_inv fmt (x_d s)" "channels_inv s" "accounted s" "cards_typed (x_drm s)"
    using assms(1) by (simp_all add: full_inv_def)
  moreover have "cards_typed (x_drm t)"
    using card_op_typed [OF sess_step_cards [OF assms(2)]] inv(5) by simp
  ultimately show ?thesis
    using sess_step_inv [OF inv(1) assms(2)] daemon_steps_inv [OF sess_step_steps [OF inv(1) assms(2)] inv(2)]
      sess_step_channels [OF inv(3,1,2) assms(2)] sess_step_accounted [OF inv(4) assms(2)]
    by (simp add: full_inv_def)
qed

interpretation full_system: invariant_system "sess_init K k fb fs fmt var pol" "sess_step fmt pol K P" "full_inv fmt"
  for K k fb fs fmt var pol P
  by unfold_locales (rule sess_init_full, assumption, rule sess_step_full, assumption+)

lemma step_decides:
  assumes "full_inv fmt s" "sess_step fmt pol K P s ev t"
  shows "\<exists>new. x_issued t = x_issued s @ new \<and> (\<forall>(cl, r)\<in>set new. owner_of (eng (d_sys (x_d t))) r = Some cl)"
proof -
  have inv: "sess_inv s" "channels_inv s" "engine_inv (eng (d_sys (x_d s)))"
    using assms(1) engine_reach.reach_inv by (auto simp: full_inv_def daemon_inv_def)
  show ?thesis
  proof (cases "\<exists>now. ev = EvHandle now \<or> ev = EvTimeout now")
    case True
    with assms(2) handle_decides [OF inv] timeout_decides [OF inv] show ?thesis by blast
  next
    case False
    with silent_issues [OF assms(2)] show ?thesis by auto
  qed
qed

end
