(* ===== verification/Session_Demo.thy ===== *)
theory Session_Demo
  imports Session_Grants
begin

text \<open>
  A run of the daemon with its tasks, evaluated: a machine with one card and nothing else, three
  clients and the default policy.  The first client acquires the card and the second asks for it;
  the first gives it up and the second is granted it, but the task of the second is stuck; the third
  asks, the second never answers the revoke, and the card goes back to the first, who leases it.
  The states in between are written out so that the run is evaluated in four parts.
\<close>

lemma run_reach:
  "reach start (sess_step fmt pol K P) s \<Longrightarrow> sess_run fmt pol K P evs s = Some t \<Longrightarrow> reach start (sess_step fmt pol K P) t"
proof (induction evs arbitrary: s)
  case (Cons ev evs)
  then obtain u where "sess_exec fmt pol K P ev s = Some u" "sess_run fmt pol K P evs u = Some t"
    by (auto simp: bind_eq_Some_conv)
  with Cons show ?case by (auto simp: sess_step_def intro: reach_step)
qed simp

type_synonym toy_k = "nat \<times> (fd \<times> lease_id) list"

definition card_fs :: fs_view where
  "card_fs = demo_fs\<lparr>fs_read_dir := \<lambda>p. if p = ''/dev/dri/'' then Inr [Inr (Some ''card0'')] else Inr []\<rparr>"

abbreviation all_ok :: writes where
  "all_ok \<equiv> \<lambda>_ _. Inr ()"

abbreviation card_run :: "sess_event list \<Rightarrow> toy_k sessions \<Rightarrow> toy_k sessions option" where
  "card_run \<equiv> sess_run show_resource FairQueue toy_kernel toy_proto"

definition card_boot :: "toy_k sessions" where
  "card_boot = sessions_boot toy_kernel (20, []) (Inl 2) card_fs FairQueue 0"

definition granted_run :: "sess_event list" where
  "granted_run =
     [EvAccept, EvAccept, EvAccept, EvGreet 1 all_ok, EvGreet 2 all_ok, EvGreet 3 all_ok,
      EvHandle 0, EvHandle 0, EvHandle 0,
      EvRequest 1 (ReqAcquire (Drm 0)) all_ok 1, EvSend 1, EvHandle 1, EvAnswer 1 all_ok 1]"

definition handed_run :: "sess_event list" where
  "handed_run =
     [EvRequest 2 (ReqAcquire (Drm 0)) all_ok 2, EvSend 2, EvHandle 2, EvAnswer 2 all_ok 2,
      EvControl 1 all_ok 3, EvRequest 1 (ReqRelease (Drm 0)) all_ok 3, EvSend 1, EvHandle 3]"

definition asked_run :: "sess_event list" where
  "asked_run = [EvRequest 3 (ReqAcquire (Drm 0)) all_ok 4, EvSend 3, EvHandle 4, EvAnswer 3 all_ok 4]"

definition reclaimed_run :: "sess_event list" where
  "reclaimed_run = [EvTimeout 6000, EvControl 1 all_ok 6000]"

text \<open>The states after each part.\<close>

definition free_card :: "(resource \<times> drm_device) list" where
  "free_card = [(Drm 0, \<lparr>drm_index = 0, state = Some (Locked \<lparr>locked_card = 20\<rparr>)\<rparr>)]"

definition leased_as :: "nat \<Rightarrow> (resource \<times> drm_device) list" where
  "leased_as i = [(Drm 0, \<lparr>drm_index = 0,
     state = Some (Leased \<lparr>leased_card = 20, lease = \<lparr>lease_id = of_nat i, lease_fd = i\<rparr>\<rparr>)\<rparr>)]"

definition card_daemon :: "client_id \<Rightarrow> client_id list \<Rightarrow> instant option \<Rightarrow> instant \<Rightarrow> daemon" where
  "card_daemon ow ws deadline now =
     \<lparr>d_sys = \<lparr>eng = \<lparr>slots = [(Drm 0, \<lparr>slot_policy = FairQueue, owner = Some ow,
          waiters = map (\<lambda>c. \<lparr>wclient = c, seat_claim = False\<rparr>) ws, revoke_deadline = deadline, suspended = False\<rparr>)],
        control_reg = [(1, 0), (2, 1), (3, 2)]\<rparr>, clock = now\<rparr>,
      d_mail = [],
      d_hp = \<lparr>hp_inv = \<lparr>fds = [], drm = free_card, inputs = []\<rparr>, hp_adv = [Drm 0], hp_out = []\<rparr>, d_todo = [],
      d_inv = \<lparr>fds = [], drm = free_card, inputs = []\<rparr>, d_adv = [Drm 0], d_open = {1, 2, 3}, d_next = 4\<rparr>"

definition card_task ::
  "chan \<Rightarrow> (resource \<times> drm_device) list \<Rightarrow> toy_k \<Rightarrow> engine_command list \<Rightarrow> wire_log \<Rightarrow> instant option \<Rightarrow>
    control_message list \<Rightarrow> toy_k session" where
  "card_task ch dr k cmds w ack inbox =
     \<lparr>s_conn = \<lparr>conn_inv = \<lparr>fds = [], drm = dr, inputs = []\<rparr>, conn_k = k, told = cmds,
        wire = (MsgAdvertise [Drm 0], None) # w, ack_deadline = ack, frame_buf = []\<rparr>,
      s_chan = ch, s_inbox = inbox, s_phase = Ready, s_out = []\<rparr>"

definition first_granted :: "toy_k sessions" where
  "first_granted =
     \<lparr>x_d = card_daemon 1 [] None 1, x_drm = leased_as 21, x_k = (23, [(20, 21)]),
      x_sess =
        [(3, card_task 2 free_card (21, []) [CmdRegister 3 2] [] None []),
         (2, card_task 1 free_card (21, []) [CmdRegister 2 1] [] None []),
         (1, card_task 0 (leased_as 21) (23, [(20, 21)]) [CmdRegister 1 0, CmdAcquire 1 (Drm 0)]
            [(MsgGrant (Drm 0), Some 22)] (Some 5001) [])],
      x_next_chan = 3, x_issued = [(1, Drm 0)]\<rparr>"

definition handed_over :: "toy_k sessions" where
  "handed_over =
     \<lparr>x_d = card_daemon 2 [1] None 3, x_drm = free_card, x_k = (23, []),
      x_sess =
        [(3, card_task 2 free_card (21, []) [CmdRegister 3 2] [] None []),
         (2, card_task 1 (leased_as 21) (23, [(20, 21)]) [CmdRegister 2 1, CmdAcquire 2 (Drm 0)] [] None [CtlGrant (Drm 0)]),
         (1, card_task 0 free_card (23, []) [CmdRegister 1 0, CmdAcquire 1 (Drm 0), CmdRelease 1 (Drm 0)]
            [(MsgGrant (Drm 0), Some 22), (MsgRevoke (Drm 0), None)] (Some 5001) [])],
      x_next_chan = 3, x_issued = [(1, Drm 0), (2, Drm 0)]\<rparr>"

definition third_asked :: "toy_k sessions" where
  "third_asked =
     \<lparr>x_d = card_daemon 2 [1, 3] (Some 5004) 4, x_drm = free_card, x_k = (23, []),
      x_sess =
        [(3, card_task 2 free_card (23, []) [CmdRegister 3 2, CmdAcquire 3 (Drm 0)] [] None []),
         (2, card_task 1 (leased_as 21) (23, [(20, 21)]) [CmdRegister 2 1, CmdAcquire 2 (Drm 0)] [] None
            [CtlGrant (Drm 0), CtlRevoke (Drm 0)]),
         (1, card_task 0 free_card (23, []) [CmdRegister 1 0, CmdAcquire 1 (Drm 0), CmdRelease 1 (Drm 0)]
            [(MsgGrant (Drm 0), Some 22), (MsgRevoke (Drm 0), None)] (Some 5001) [])],
      x_next_chan = 3, x_issued = [(1, Drm 0), (2, Drm 0)]\<rparr>"

text \<open>At the end the card is leased to the first client, and the Grant of the second is still unread.\<close>

definition late_state :: "toy_k sessions" where
  "late_state =
     \<lparr>x_d = card_daemon 1 [3] None 6000, x_drm = leased_as 23, x_k = (25, [(20, 23)]),
      x_sess =
        [(3, card_task 2 free_card (23, []) [CmdRegister 3 2, CmdAcquire 3 (Drm 0)] [] None []),
         (2, card_task 1 (leased_as 21) (23, [(20, 21)]) [CmdRegister 2 1, CmdAcquire 2 (Drm 0)] [] None
            [CtlGrant (Drm 0), CtlRevoke (Drm 0)]),
         (1, card_task 0 (leased_as 23) (25, [(20, 23)]) [CmdRegister 1 0, CmdAcquire 1 (Drm 0), CmdRelease 1 (Drm 0)]
            [(MsgGrant (Drm 0), Some 22), (MsgRevoke (Drm 0), None), (MsgGrant (Drm 0), Some 24)] (Some 11000) [])],
      x_next_chan = 3, x_issued = [(1, Drm 0), (2, Drm 0), (1, Drm 0)]\<rparr>"

lemma granted_run_eq: "card_run granted_run card_boot = Some first_granted"
  by code_simp

lemma handed_run_eq: "card_run handed_run first_granted = Some handed_over"
  by code_simp

lemma asked_run_eq: "card_run asked_run handed_over = Some third_asked"
  by code_simp

lemma reclaimed_run_eq: "card_run reclaimed_run third_asked = Some late_state"
  by code_simp

abbreviation card_reachable :: "toy_k sessions \<Rightarrow> bool" where
  "card_reachable \<equiv> reach (sess_init toy_kernel (20, []) (Inl 2) card_fs show_resource None FairQueue)
     (sess_step show_resource FairQueue toy_kernel toy_proto)"

lemma card_probe: "probe_all card_fs = []"
  by code_simp

lemma card_boot_reachable: "card_reachable card_boot"
proof (rule reach_start)
  have "daemon_main toy_kernel (20, []) (Inl 2) card_fs None 0 = Inr (x_d card_boot)"
    by (simp add: daemon_main_def policy_from_env_def card_boot_def)
  then have "daemon_init toy_kernel (20, []) (Inl 2) card_fs show_resource None FairQueue (x_d card_boot)"
    unfolding daemon_init_def card_probe using inj_show_resource by (auto simp: policy_from_env_def)
  then show "sess_init toy_kernel (20, []) (Inl 2) card_fs show_resource None FairQueue card_boot"
    unfolding sess_init_def by (auto simp: card_boot_def)
qed

lemma late_reachable: "card_reachable first_granted" "card_reachable handed_over" "card_reachable late_state"
proof -
  show 1: "card_reachable first_granted" by (rule run_reach [OF card_boot_reachable granted_run_eq])
  show 2: "card_reachable handed_over" by (rule run_reach [OF 1 handed_run_eq])
  have "card_reachable third_asked" by (rule run_reach [OF 2 asked_run_eq])
  then show "card_reachable late_state" by (rule run_reach [OF _ reclaimed_run_eq])
qed

end
