(* ===== verification/Hotplug_Displays.thy ===== *)
theory Hotplug_Displays
  imports Hotplug_Invariants
begin

text \<open>
  The reconciler leaves the displays alone: whatever a pass does, and in every snapshot it takes on
  the way, the framebuffer and the cards are advertised, registered and backed as they were at
  startup.
\<close>

section \<open>The part of the state that is not about inputs\<close>

definition display_part ::
  "inventory \<Rightarrow> advertised \<Rightarrow> resource list \<times> (resource \<times> fd) list \<times> (resource \<times> drm_device) list" where
  "display_part iv adv = (filter (\<lambda>r. \<not> is_input r) adv, filter (\<lambda>(r, f). \<not> is_input r) (fds iv), drm iv)"

lemma filter_update_other: "is_input r \<Longrightarrow> filter (\<lambda>(r, f). \<not> is_input r) (AList.update r v al) = filter (\<lambda>(r, f). \<not> is_input r) al"
  by (induction al) auto

lemma filter_delete_other: "is_input r \<Longrightarrow> filter (\<lambda>(r, f). \<not> is_input r) (AList.delete r al) = filter (\<lambda>(r, f). \<not> is_input r) al"
  by (induction al) auto

lemma display_part_simps [simp]:
  "display_part (iv\<lparr>inputs := x\<rparr>) adv = display_part iv adv"
  "is_input r \<Longrightarrow> display_part (iv\<lparr>fds := AList.update r f (fds iv)\<rparr>) adv = display_part iv adv"
  "is_input r \<Longrightarrow> display_part (iv\<lparr>fds := AList.delete r (fds iv)\<rparr>) adv = display_part iv adv"
  "is_input r \<Longrightarrow> display_part iv (adv_insert r adv) = display_part iv adv"
  "is_input r \<Longrightarrow> display_part iv (adv_remove r adv) = display_part iv adv"
  by (auto simp: display_part_def filter_update_other filter_delete_other adv_insert_def adv_remove_def
      intro: filter_cong)

definition held_typed :: "(path \<times> held_input) list \<Rightarrow> bool" where
  "held_typed index \<longleftrightarrow> (\<forall>(p, h)\<in>set index. is_input (held_resource h))"

lemma set_update_subset: "set (AList.update k v al) \<subseteq> insert (k, v) (set al)"
  by (induction al) auto

lemma held_typed_update: "held_typed index \<Longrightarrow> is_input (held_resource h) \<Longrightarrow> held_typed (AList.update p h index)"
  using set_update_subset [of p h index] by (auto simp: held_typed_def)

lemma held_typed_delete: "held_typed index \<Longrightarrow> held_typed (AList.delete p index)"
  by (auto simp: held_typed_def AList.delete_eq)

lemma held_typedD: "held_typed index \<Longrightarrow> map_of index p = Some h \<Longrightarrow> is_input (held_resource h)"
  by (auto simp: held_typed_def dest: map_of_SomeD)

section \<open>What a pass keeps\<close>

definition displays_kept ::
  "resource list \<times> (resource \<times> fd) list \<times> (resource \<times> drm_device) list \<Rightarrow> hp \<Rightarrow> bool" where
  "displays_kept base s \<longleftrightarrow>
     held_typed (inputs (hp_inv s)) \<and> display_part (hp_inv s) (hp_adv s) = base \<and>
     (\<forall>(cmd, iv, adv)\<in>set (hp_out s). display_part iv adv = base)"

lemma tell_kept: "displays_kept base s \<Longrightarrow> displays_kept base (tell_engine cmd s)"
  by (auto simp: displays_kept_def tell_engine_def)

lemma push_kept: "displays_kept base s \<Longrightarrow> displays_kept base (push s)"
  by (simp add: push_def tell_kept)

lemma moved_kept:
  assumes "displays_kept base s" "held_typed (inputs iv)" "display_part iv adv = base"
  shows "displays_kept base (s\<lparr>hp_inv := iv, hp_adv := adv\<rparr>)"
  using assms by (auto simp: displays_kept_def)

lemma keptD: "displays_kept base s \<Longrightarrow> held_typed (inputs (hp_inv s))" "displays_kept base s \<Longrightarrow> display_part (hp_inv s) (hp_adv s) = base"
  by (simp_all add: displays_kept_def)

lemma inv_only_kept:
  "displays_kept base s \<Longrightarrow> held_typed (inputs iv) \<Longrightarrow> display_part iv (hp_adv s) = base \<Longrightarrow> displays_kept base (s\<lparr>hp_inv := iv\<rparr>)"
  by (auto simp: displays_kept_def)

lemma reopen_kept:
  assumes "displays_kept base s" "is_input r" shows "displays_kept base (snd (reopen fs p r s))"
  using assms keptD [OF assms(1)]
  by (auto simp: reopen_def fresh_entry_def intro!: inv_only_kept held_typed_update split: option.splits)

lemma adopt_kept:
  assumes "displays_kept base s" shows "displays_kept base (snd (adopt fs pol p c s))"
  using assms keptD [OF assms]
  by (auto simp: adopt_def fresh_entry_def Let_def intro!: push_kept tell_kept moved_kept held_typed_update
      split: option.splits)

lemma suspend_kept:
  assumes "displays_kept base s" "is_input (held_resource h)" shows "displays_kept base (suspend p h s)"
proof -
  have "displays_kept base (s\<lparr>hp_adv := adv_remove (held_resource h) (hp_adv s)\<rparr>)"
    using assms by (simp add: displays_kept_def)
  from tell_kept [OF this, of "CmdSuspend (held_resource h)"] keptD [OF assms(1)] assms(2) show ?thesis
    by (auto simp: suspend_def Let_def tell_engine_def intro!: push_kept inv_only_kept held_typed_update)
qed

lemma resume_kept:
  assumes "displays_kept base s" "is_input (held_resource h)"
  shows "displays_kept base (snd (resume fs old_p p h s))"
  using assms keptD [OF assms(1)]
  by (auto simp: resume_def fresh_entry_def Let_def intro!: push_kept tell_kept moved_kept held_typed_update held_typed_delete
      split: option.splits)

lemma park_kept:
  assumes "displays_kept base s" shows "displays_kept base (park fmt p s)"
  using assms keptD [OF assms]
  by (auto simp: park_def intro!: inv_only_kept held_typed_update held_typed_delete dest: held_typedD split: option.splits)

lemma reconcile_device_kept:
  assumes "displays_kept base s" shows "displays_kept base (snd (reconcile_device fs fmt pol d s))"
proof (cases "map_of (inputs (hp_inv s)) (pd_path d)")
  case (Some h)
  then have "is_input (held_resource h)" using keptD(1) [OF assms] by (rule held_typedD [rotated])
  with Some assms show ?thesis
    by (auto simp: reconcile_device_def replace_device_def intro!: reopen_kept adopt_kept suspend_kept resume_kept park_kept)
next
  case None
  show ?thesis
  proof (cases "suspended_peer fs (inputs (hp_inv s)) (pd_class d)")
    case (Some x)
    obtain old_p h where x: "x = (old_p, h)" by fastforce
    with Some suspended_peer_SomeD have "(old_p, h) \<in> set (inputs (hp_inv s))" by blast
    then have "is_input (held_resource h)" using keptD(1) [OF assms] by (auto simp: held_typed_def)
    with None Some x assms show ?thesis by (simp add: reconcile_device_def resume_kept)
  qed (use None assms in \<open>simp add: reconcile_device_def adopt_kept\<close>)
qed

lemma reconcile_devices_kept:
  "displays_kept base s \<Longrightarrow> displays_kept base (snd (reconcile_devices fs fmt pol ds s))"
  by (induction ds arbitrary: s) (simp_all add: Let_def case_prod_beta reconcile_device_kept)

lemma suspend_missing_kept:
  "displays_kept base s \<Longrightarrow> held_typed es \<Longrightarrow> displays_kept base (suspend_missing fs present es s)"
  by (induction fs present es s rule: suspend_missing.induct) (auto simp: held_typed_def suspend_kept)

lemma reconcile_kept:
  assumes "displays_kept base s" shows "displays_kept base (snd (reconcile fs fmt pol s))"
  using suspend_missing_kept [OF reconcile_devices_kept [OF assms] keptD(1) [OF reconcile_devices_kept [OF assms]]]
  by (simp add: reconcile_def Let_def case_prod_beta)

section \<open>Startup\<close>

text \<open>What is advertised and not an input can be granted.\<close>

definition base_backed :: "resource list \<times> (resource \<times> fd) list \<times> (resource \<times> drm_device) list \<Rightarrow> bool" where
  "base_backed base \<longleftrightarrow>
     (case base of (rs, fs, dr) \<Rightarrow>
       \<forall>r\<in>set rs. map_of fs r \<noteq> None \<and> r = Fbdev \<or> (\<exists>n. r = Drm n \<and> map_of dr r \<noteq> None))"

lemma base_backedD:
  "base_backed base \<Longrightarrow> r \<in> set (fst base) \<Longrightarrow>
    map_of (fst (snd base)) r \<noteq> None \<and> r = Fbdev \<or> (\<exists>n. r = Drm n \<and> map_of (snd (snd base)) r \<noteq> None)"
  unfolding base_backed_def case_prod_beta by blast

lemma register_cards_backed:
  assumes "\<forall>r\<in>set adv. r = Fbdev \<or> map_of dr r \<noteq> None \<and> (\<exists>n. r = Drm n)"
  shows "\<forall>r\<in>set (snd (register_cards ocs dr adv)). r = Fbdev \<or> map_of (fst (register_cards ocs dr adv)) r \<noteq> None \<and> (\<exists>n. r = Drm n)"
  using assms by (induction ocs dr adv rule: register_cards.induct) (auto simp: Let_def)

lemma display_part_snoc [simp]: "is_input r \<Longrightarrow> display_part iv (adv @ [r]) = display_part iv adv"
  by (simp add: display_part_def)

lemma open_discovered_part:
  "display_part (fst (open_discovered fs ds iv adv)) (snd (open_discovered fs ds iv adv)) = display_part iv adv"
  by (induction fs ds iv adv rule: open_discovered.induct) (simp_all add: Let_def split: option.splits)

lemma open_discovered_typed: "held_typed (inputs iv) \<Longrightarrow> held_typed (inputs (fst (open_discovered fs ds iv adv)))"
  by (induction fs ds iv adv rule: open_discovered.induct) (auto simp: Let_def held_typed_update split: option.splits)

lemma map_of_filter_keys: "map_of (filter (\<lambda>(r, f). P r) al) r = (if P r then map_of al r else None)"
  by (induction al) auto

lemma startup_displays:
  assumes "open_resources K k fb fs = (iv, adv, k')"
  shows "held_typed (inputs iv) \<and> base_backed (display_part iv adv)"
proof -
  define iv1 adv1 where "iv1 = fst (fbdev_open fb \<lparr>fds = [], drm = [], inputs = []\<rparr> [])"
    and "adv1 = snd (fbdev_open fb \<lparr>fds = [], drm = [], inputs = []\<rparr> [])"
  define drm2 adv2 where "drm2 = fst (drm_open_devices K k (fs_read_dir fs ''/dev/dri/'') (drm iv1) adv1)"
    and "adv2 = fst (snd (drm_open_devices K k (fs_read_dir fs ''/dev/dri/'') (drm iv1) adv1))"
  let ?iv2 = "iv1\<lparr>drm := drm2\<rparr>"
  have eq: "iv = fst (open_discovered fs (discover fs) ?iv2 adv2)" "adv = snd (open_discovered fs (discover fs) ?iv2 adv2)"
    using assms by (simp_all add: open_resources_def iv1_def adv1_def drm2_def adv2_def Let_def
        case_prod_beta input_open_devices_def)
  have one: "inputs iv1 = []" "drm iv1 = []" "\<forall>r\<in>set adv1. r = Fbdev \<and> map_of (fds iv1) r \<noteq> None"
    by (auto simp: iv1_def adv1_def fbdev_open_def split: sum.splits)
  have "\<forall>r\<in>set adv2. r = Fbdev \<and> map_of (fds iv1) r \<noteq> None \<or> map_of drm2 r \<noteq> None \<and> (\<exists>n. r = Drm n)"
  proof (cases "fs_read_dir fs ''/dev/dri/''")
    case (Inl e)
    with one show ?thesis by (simp add: adv2_def drm2_def drm_open_devices_def)
  next
    case (Inr entries)
    obtain ocs where "drm2 = fst (register_cards ocs (drm iv1) adv1)" "adv2 = snd (register_cards ocs (drm iv1) adv1)"
      using Inr by (simp add: adv2_def drm2_def drm_open_devices_def Let_def case_prod_beta)
    moreover have "Fbdev \<in> set (snd (register_cards ocs (drm iv1) adv1)) \<Longrightarrow> Fbdev \<in> set adv1" for ocs
      by (auto simp: register_cards_adv)
    ultimately show ?thesis
      using register_cards_backed [of adv1 "drm iv1" ocs] one(3) by auto
  qed
  then have "base_backed (display_part ?iv2 adv2)"
    by (auto simp: base_backed_def display_part_def map_of_filter_keys)
  then show ?thesis
    unfolding eq open_discovered_part using open_discovered_typed [of ?iv2 fs "discover fs" adv2] one(1)
    by (simp add: held_typed_def)
qed

end
