(* ===== verification/Session_Properties.thy ===== *)
theory Session_Properties
  imports Session_Demo Hotplug_Displays
begin

text \<open>
  What holds of the daemon with its connection tasks, in every state it can reach: it behaves like
  the daemon the engine and the reconciler were proved for, its card registry and its messages are
  well typed, kernel and registry agree on the leases, what is advertised can be granted, and a
  client is granted only what the engine has decided.  The last section is about a Grant that is
  delivered late.
\<close>

section \<open>What is advertised can be granted\<close>

definition displays_inv ::
  "resource list \<times> (resource \<times> fd) list \<times> (resource \<times> drm_device) list \<Rightarrow> daemon \<Rightarrow> bool" where
  "displays_inv base s \<longleftrightarrow>
     displays_kept base (d_hp s) \<and> (\<forall>(cmd, iv, adv)\<in>set (d_todo s). display_part iv adv = base) \<and>
     display_part (d_inv s) (d_adv s) = base"

lemma daemon_step_displays:
  assumes "displays_inv base s" "daemon_step fmt pol s ev t" shows "displays_inv base t"
  using assms(2)
proof cases
  case (pass fs retry h)
  have "displays_kept base ((d_hp s)\<lparr>hp_out := []\<rparr>)" using assms(1) by (simp add: displays_inv_def displays_kept_def)
  from reconcile_kept [OF this, of fs fmt pol] pass assms(1) show ?thesis
    by (simp add: displays_inv_def) (simp add: displays_kept_def)
qed (use assms(1) in \<open>auto simp: displays_inv_def displays_kept_def\<close>)

lemma daemon_steps_displays: "daemon_steps fmt pol s t \<Longrightarrow> displays_inv base s \<Longrightarrow> displays_inv base t"
  by (induction rule: rtranclp_induct) (auto intro: daemon_step_displays)

definition grantable_inv :: "'k sessions \<Rightarrow> bool" where
  "grantable_inv s \<longleftrightarrow> sess_inv s \<and>
     (\<exists>base. base_backed base \<and> displays_inv base (x_d s) \<and> dom (map_of (x_drm s)) = dom (map_of (snd (snd base))))"

lemma card_op_keys: "card_op K x y \<Longrightarrow> dom (map_of (fst y)) = dom (map_of (fst x))"
  by (induction rule: card_op.induct) (auto split: if_splits)

lemma sess_init_grantable:
  assumes "sess_init K k fb fs fmt var pol s" shows "grantable_inv s"
proof -
  obtain iv adv k' where o: "open_resources K k fb fs = (iv, adv, k')" by (rule prod_cases3)
  from assms obtain now where s: "s = sessions_boot K k fb fs pol now" by (auto simp: sess_init_def)
  have "displays_inv (display_part iv adv) (x_d s)"
    using startup_displays [OF o] by (simp add: s daemon_boot_def o adv_new_def displays_inv_def displays_kept_def startup_hp_def)
  moreover have "dom (map_of (x_drm s)) = dom (map_of (snd (snd (display_part iv adv))))"
    by (simp add: s o display_part_def)
  ultimately show ?thesis
    using startup_displays [OF o] sess_init_inv [OF assms] unfolding grantable_inv_def by blast
qed

lemma sess_step_grantable:
  assumes "grantable_inv s" "sess_step fmt pol K P s ev t" shows "grantable_inv t"
proof -
  obtain base where base: "sess_inv s" "base_backed base" "displays_inv base (x_d s)"
    "dom (map_of (x_drm s)) = dom (map_of (snd (snd base)))"
    using assms(1) unfolding grantable_inv_def by blast
  moreover have "dom (map_of (x_drm t)) = dom (map_of (x_drm s))"
    using card_op_keys [OF sess_step_cards [OF assms(2)]] by simp
  ultimately show ?thesis
    using sess_step_inv [OF base(1) assms(2)] daemon_steps_displays [OF sess_step_steps [OF base(1) assms(2)] base(3)]
    unfolding grantable_inv_def by metis
qed

interpretation grantable: invariant_system "sess_init K k fb fs fmt var pol" "sess_step fmt pol K P" grantable_inv
  for K k fb fs fmt var pol P
  by unfold_locales (rule sess_init_grantable, assumption, rule sess_step_grantable, assumption+)

lemma display_registered:
  assumes "grantable_inv s" "r \<in> set (d_adv (x_d s))" "\<not> is_input r"
  shows "r = Fbdev \<and> map_of (fds (d_inv (x_d s))) r \<noteq> None \<or> (\<exists>n. r = Drm n) \<and> map_of (x_drm s) r \<noteq> None"
proof -
  obtain base where base: "base_backed base" "display_part (d_inv (x_d s)) (d_adv (x_d s)) = base"
    "dom (map_of (x_drm s)) = dom (map_of (snd (snd base)))"
    using assms(1) unfolding grantable_inv_def displays_inv_def by blast
  have "r \<in> set (fst base)" using assms(2,3) base(2) by (auto simp: display_part_def)
  from base_backedD [OF base(1) this] base(2,3) show ?thesis
    by (auto simp: display_part_def map_of_filter_keys dom_def split: if_splits)
qed

text \<open>C20. What is advertised can be granted: in every state the daemon can reach, and at whatever moment a
  task looks, every resource on the advertised list (framebuffer, card or input) is registered with
  the shared inventory, so that granting it can fail only if the kernel refuses the lease or the
  duplicate, and never panics.\<close>

theorem advertised_is_grantable:
  assumes "reach (sess_init K k fb fs fmt var pol) (sess_step fmt pol K P) s" "r \<in> set (d_adv (x_d s))"
  shows "(\<exists>f iv k''. grant_fd K' k' r (shared_inv s) = (Inr f, iv, k'')) \<or>
    (\<exists>e iv k''. grant_fd K' k' r (shared_inv s) = (Inl (if is_display r \<and> r \<noteq> Fbdev then LeaseFailed r e else DupFailed r e), iv, k''))"
proof -
  have full: "full_inv fmt s" and grantable: "grantable_inv s"
    using full_system.reach_inv [OF assms(1)] grantable.reach_inv [OF assms(1)] by blast+
  have backed: "adv_backed (d_inv (x_d s)) (d_adv (x_d s))" and typed: "cards_typed (x_drm s)"
    using full by (simp_all add: full_inv_def daemon_inv_def)
  show ?thesis
  proof (cases "\<exists>n. r = Drm n")
    case True
    then obtain n where n: "r = Drm n" by blast
    with display_registered [OF grantable assms(2)] obtain d where d: "map_of (x_drm s) (Drm n) = Some d" by auto
    with cards_typedD [OF typed d] have "state d \<noteq> None" by auto
    obtain res d' k'' where g: "grant_lease K' k' d = (res, d', k'')" by (rule prod_cases3)
    with grant_lease_keeps [OF g] \<open>state d \<noteq> None\<close> d n show ?thesis
      by (cases res) (auto simp: shared_inv_def)
  next
    case False
    have "map_of (fds (shared_inv s)) r \<noteq> None"
      using False display_registered [OF grantable assms(2)] backed assms(2)
      by (cases "is_input r") (auto simp: shared_inv_def adv_backed_def)
    then obtain f where f: "map_of (fds (shared_inv s)) r = Some f" by blast
    with False have "grant_fd K' k' r (shared_inv s) = dup_fd K' k' r (shared_inv s)"
      by (cases r) auto
    with f False show ?thesis
      by (cases r) (auto simp: dup_fd_def split: prod.splits sum.splits)
  qed
qed

theorem advertised_is_grantable_witness:
  "Drm 0 \<in> set (d_adv (x_d late_state)) \<and>
    (\<exists>f iv k. grant_fd toy_kernel (x_k late_state) (Drm 0) (shared_inv late_state) = (Inr f, iv, k) \<or>
      (\<exists>e. grant_fd toy_kernel (x_k late_state) (Drm 0) (shared_inv late_state) = (Inl (LeaseFailed (Drm 0) e), iv, k)))"
proof -
  have "Drm 0 \<in> set (d_adv (x_d late_state))" by (simp add: late_state_def card_daemon_def)
  with advertised_is_grantable [OF late_reachable(3) this, of toy_kernel "x_k late_state"] show ?thesis by auto
qed

section \<open>The daemon with its tasks\<close>

text \<open>C15. Spelling out the connection tasks adds nothing to what the daemon can do: every step of a task,
  of the engine or of the reconciler is a sequence of steps of the daemon without tasks, so that
  everything proved of that daemon holds in every state the tasks can reach.\<close>

theorem tasks_refine_daemon:
  assumes "reach (sess_init K k fb fs fmt var pol) (sess_step fmt pol K P) s" "sess_step fmt pol K P s ev t"
  shows "daemon_steps fmt pol (x_d s) (x_d t) \<and>
    reach (daemon_init K k fb fs fmt var pol) (daemon_step fmt pol) (x_d t)"
  using sess_step_steps [OF tasks.reach_inv [OF assms(1)] assms(2)] sess_reach_daemon [OF reach_step [OF assms]]
  by blast

theorem tasks_refine_daemon_witness:
  "\<exists>t. sess_step show_resource FairQueue toy_kernel toy_proto late_state (EvHangup 3) t \<and>
    daemon_steps show_resource FairQueue (x_d late_state) (x_d t)"
proof -
  obtain t where "sess_step show_resource FairQueue toy_kernel toy_proto late_state (EvHangup 3) t"
    by (auto simp: sess_step_def late_state_def card_task_def)
  from this tasks_refine_daemon [OF late_reachable(3) this] show ?thesis by blast
qed

text \<open>C21. The daemon's data is well typed in every state it can reach, whatever the kernel answers: a card
  is registered under its own index and its state is present, so that neither \<open>expect\<close> of the card
  operations can fail; and of the messages a client has been sent, exactly the Grants carry a
  descriptor.\<close>

theorem daemon_well_typed:
  assumes "reach (sess_init K k fb fs fmt var pol) (sess_step fmt pol K P) s"
  shows "(map_of (x_drm s) r = Some d \<longrightarrow>
      r = Drm (drm_index d) \<and> fst (grant_lease K' k' d) \<noteq> DrmPanic \<and> fst (drm_revoke_lease K' k' d) \<noteq> DrmPanic) \<and>
    (map_of (x_sess s) cl = Some ses \<longrightarrow> (m, f) \<in> set (wire (s_conn ses)) \<longrightarrow> (f \<noteq> None \<longleftrightarrow> (\<exists>q. m = MsgGrant q)))"
proof -
  have full: "full_inv fmt s" by (rule full_system.reach_inv [OF assms])
  have "r = Drm (drm_index d) \<and> fst (grant_lease K' k' d) \<noteq> DrmPanic \<and> fst (drm_revoke_lease K' k' d) \<noteq> DrmPanic"
    if reg: "map_of (x_drm s) r = Some d"
  proof -
    obtain st where st: "r = Drm (drm_index d)" "state d = Some st"
      using full cards_typedD [OF _ reg] by (auto simp: full_inv_def)
    obtain res d' k'' where g: "grant_lease K' k' d = (res, d', k'')" by (rule prod_cases3)
    have "fst (drm_revoke_lease K' k' d) \<noteq> DrmPanic"
      using st(2) by (auto simp: drm_revoke_lease_def split: drm_device_state.splits prod.splits sum.splits)
    with grant_lease_keeps [OF g] g st show ?thesis by simp
  qed
  moreover have "f \<noteq> None \<longleftrightarrow> (\<exists>q. m = MsgGrant q)"
    if "map_of (x_sess s) cl = Some ses" "(m, f) \<in> set (wire (s_conn ses))"
  proof -
    have "typed_msg (m, f)"
      using full that by (auto simp: full_inv_def accounted_def task_ok_def list_all_iff)
    then show ?thesis by (cases m) (auto simp: typed_msg_def)
  qed
  ultimately show ?thesis by blast
qed

theorem daemon_well_typed_witness:
  "fst (grant_lease toy_kernel (x_k late_state) (snd (hd (x_drm late_state)))) \<noteq> DrmPanic \<and>
    x_drm late_state = leased_as 23"
  using daemon_well_typed [OF late_reachable(3), of "Drm 0" "snd (hd (x_drm late_state))" toy_kernel "x_k late_state"]
  by (simp add: late_state_def leased_as_def)

interpretation leases_system: invariant_system "sess_init K k fb fs fmt var pol" "sess_step fmt pol K P"
  "\<lambda>s. lease_kernel K leases \<longrightarrow>
     fresh_cards leases (drm (fst (open_resources K k fb fs)), snd (snd (open_resources K k fb fs))) \<longrightarrow>
     cards_agree leases (sess_cards s)"
  for K k fb fs fmt var pol P leases
proof
  fix s assume "sess_init K k fb fs fmt var pol s"
  then show "lease_kernel K leases \<longrightarrow>
     fresh_cards leases (drm (fst (open_resources K k fb fs)), snd (snd (open_resources K k fb fs))) \<longrightarrow>
     cards_agree leases (sess_cards s)"
    using startup_agrees by (auto simp: sess_init_def)
next
  fix s ev t
  assume "lease_kernel K leases \<longrightarrow>
     fresh_cards leases (drm (fst (open_resources K k fb fs)), snd (snd (open_resources K k fb fs))) \<longrightarrow>
     cards_agree leases (sess_cards s)" and step: "sess_step fmt pol K P s ev t"
  then show "lease_kernel K leases \<longrightarrow>
     fresh_cards leases (drm (fst (open_resources K k fb fs)), snd (snd (open_resources K k fb fs))) \<longrightarrow>
     cards_agree leases (sess_cards t)"
    using card_op_agree [OF _ sess_step_cards [OF step]] by blast
qed

text \<open>C19. Kernel and registry agree on the leases in every state the daemon can reach, whatever its tasks do
  to the cards in whatever order: on every registered card the live leases are the one the registry
  has recorded, or none, so that no card is ever leased twice and no lease is forgotten.\<close>

theorem leases_match_registry:
  assumes "reach (sess_init K k fb fs fmt var pol) (sess_step fmt pol K P) s"
    and "lease_kernel K leases" "open_resources K k fb fs = (iv, adv, k')" "fresh_cards leases (drm iv, k')"
    and "map_of (x_drm s) r = Some d"
  shows "\<exists>st. state d = Some st \<and> leases (x_k s) (state_card st) =
    (case st of Leased ld \<Rightarrow> {lease_id (lease ld)} | Locked _ \<Rightarrow> {})"
proof -
  have "cards_agree leases (sess_cards s)"
    using leases_system.reach_inv [OF assms(1), of leases] assms(2-4) by simp
  with assms(5) have "leases_agree leases (x_k s) d" by (simp add: cards_agree_def)
  then show ?thesis
    by (cases rule: leases_agreeE) auto
qed

lemma card_boot_fresh:
  "fresh_cards toy_leases (drm (fst (open_resources toy_kernel (20, []) (Inl 2) card_fs)),
    snd (snd (open_resources toy_kernel (20, []) (Inl 2) card_fs)))"
proof -
  have "open_resources toy_kernel (20, []) (Inl 2) card_fs = (\<lparr>fds = [], drm = free_card, inputs = []\<rparr>, [Drm 0], 21, [])"
    by code_simp
  then show ?thesis
    by (simp add: fresh_cards_def cards_distinct_def card_at_def free_card_def toy_leases_def)
qed

theorem leases_match_registry_witness:
  "map_of (x_drm late_state) (Drm 0) = Some (snd (hd (leased_as 23))) \<and> toy_leases (x_k late_state) 20 = {23}"
proof -
  let ?o = "open_resources toy_kernel (20, []) (Inl 2) card_fs"
  have d: "map_of (x_drm late_state) (Drm 0) = Some (snd (hd (leased_as 23)))"
    by (simp add: late_state_def leased_as_def)
  have "\<exists>st. state (snd (hd (leased_as 23))) = Some st \<and> toy_leases (x_k late_state) (state_card st) =
      (case st of Leased ld \<Rightarrow> {lease_id (lease ld)} | Locked _ \<Rightarrow> {})"
    by (rule leases_match_registry [OF late_reachable(3) toy_lease_kernel _ card_boot_fresh d, where adv = "fst (snd ?o)"])
      (simp only: prod.collapse)
  with d show ?thesis by (simp add: leased_as_def)
qed

section \<open>Grants\<close>

text \<open>C16. A client is granted only what the engine has decided to give it: in every state the daemon can
  reach, a client has been sent no more Grants of a resource than the engine has issued to it, and
  whenever the engine issues one, the client it goes to owns the resource at that moment.\<close>

theorem grants_are_decisions:
  assumes "reach (sess_init K k fb fs fmt var pol) (sess_step fmt pol K P) s"
  shows "(map_of (x_sess s) cl = Some ses \<longrightarrow>
      count_list (wire_grants (wire (s_conn ses))) r \<le> count_list (x_issued s) (cl, r)) \<and>
    (sess_step fmt pol K P s ev t \<longrightarrow>
      (\<exists>new. x_issued t = x_issued s @ new \<and> (\<forall>(c, q)\<in>set new. owner_of (eng (d_sys (x_d t))) q = Some c)))"
proof -
  have full: "full_inv fmt s" by (rule full_system.reach_inv [OF assms])
  have "count_list (wire_grants (wire (s_conn ses))) r \<le> count_list (x_issued s) (cl, r)"
    if "map_of (x_sess s) cl = Some ses"
  proof -
    have "task_ok (x_issued s) cl ses" using full that by (simp add: full_inv_def accounted_def)
    then have "count_list (wire_grants (wire (s_conn ses)) @ owed ses) r \<le> count_list (x_issued s) (cl, r)"
      by (simp only: task_ok_def)
    then show ?thesis by (simp add: count_list_append)
  qed
  with step_decides [OF full] show ?thesis by blast
qed

theorem grants_are_decisions_witness:
  "\<exists>ses. map_of (x_sess late_state) 1 = Some ses \<and> count_list (wire_grants (wire (s_conn ses))) (Drm 0) = 2 \<and>
    2 \<le> count_list (x_issued late_state) (1, Drm 0)"
proof -
  let ?ses = "card_task 0 (leased_as 23) (25, [(20, 23)]) [CmdRegister 1 0, CmdAcquire 1 (Drm 0), CmdRelease 1 (Drm 0)]
            [(MsgGrant (Drm 0), Some 22), (MsgRevoke (Drm 0), None), (MsgGrant (Drm 0), Some 24)] (Some 11000) []"
  have ses: "map_of (x_sess late_state) 1 = Some ?ses" by (simp add: late_state_def)
  moreover have two: "count_list (wire_grants (wire (s_conn ?ses))) (Drm 0) = 2"
    by (simp add: card_task_def wire_grants_def map_filter_def)
  ultimately show ?thesis
    using grants_are_decisions [OF late_reachable(3), of 1 ?ses "Drm 0"] by auto
qed

section \<open>A Grant that is delivered late\<close>

lemma grant_lease_ok:
  assumes "grant_lease K k d = (DrmOk f, d', k')"
  obtains ld k1 where "state d' = Some (Leased ld)" "k_try_clone K k1 (lease_fd (lease ld)) = (Inr f, k')"
proof -
  have "\<exists>ld k1. state d' = Some (Leased ld) \<and> k_try_clone K k1 (lease_fd (lease ld)) = (Inr f, k')"
    if "lease_locked K k0 d lk = (DrmOk f, d', k')" for k0 lk
    using that by (auto simp: lease_locked_def split: prod.splits sum.splits)
  then have "\<exists>ld k1. state d' = Some (Leased ld) \<and> k_try_clone K k1 (lease_fd (lease ld)) = (Inr f, k')"
    using assms by (auto simp: grant_lease_def split: option.splits drm_device_state.splits prod.splits sum.splits)
  with that show thesis by blast
qed

lemma control_grant_step:
  assumes "map_of (x_sess s) c = Some ses" "s_phase ses = Ready" "s_out ses = []" "s_inbox ses = CtlGrant (Drm n) # rest"
    and "map_of (x_drm s) (Drm n) = Some d" "grant_lease K (x_k s) d = (DrmOk f, d', k')"
    and "serialize_framed P (MsgGrant (Drm n)) = Inr bytes" "wr (wire (s_conn ses)) (MsgGrant (Drm n)) = Inr ()"
  shows "\<exists>t ses'. sess_step fmt pol K P s (EvControl c wr now) t \<and> map_of (x_sess t) c = Some ses' \<and>
    wire (s_conn ses') = wire (s_conn ses) @ [(MsgGrant (Drm n), Some f)] \<and>
    map_of (x_drm t) (Drm n) = Some d' \<and> x_k t = k' \<and> x_d t = x_d s"
  using assms
  by (simp add: sess_step_def task_control_def run_task_def deliver_grant_def send_grant_def write_msg_def task_env_def
      borrow_def shared_inv_def give_back_def)

text \<open>C38. A Grant that is delivered late takes the card from its owner: a task that comes to an old Grant
  after the engine has given the card to another client revokes the owner's lease, leases the card
  anew and sends the descriptor to its own client, while the engine still counts the other client
  as the owner and is told nothing.\<close>

theorem late_grant_takes_card:
  assumes "lease_kernel K leases" "map_of (x_drm s) (Drm n) = Some d" "leases_agree leases (x_k s) d"
    and "state d = Some (Leased old)" "owner_of (eng (d_sys (x_d s))) (Drm n) = Some c'" "c' \<noteq> c"
    and "map_of (x_sess s) c = Some ses" "s_phase ses = Ready" "s_out ses = []" "s_inbox ses = CtlGrant (Drm n) # rest"
    and "grant_lease K (x_k s) d = (DrmOk f, d', k')"
    and "serialize_framed P (MsgGrant (Drm n)) = Inr bytes" "wr (wire (s_conn ses)) (MsgGrant (Drm n)) = Inr ()"
  shows "\<exists>t ses' (new :: leased_drm_device) k1. sess_step fmt pol K P s (EvControl c wr now) t \<and> map_of (x_sess t) c = Some ses' \<and>
    wire (s_conn ses') = wire (s_conn ses) @ [(MsgGrant (Drm n), Some f)] \<and>
    k_try_clone K k1 (lease_fd (lease new)) = (Inr f, x_k t) \<and>
    leases (x_k t) (leased_card old) = {lease_id (lease new)} \<and>
    x_d t = x_d s \<and> owner_of (eng (d_sys (x_d t))) (Drm n) \<noteq> Some c"
proof -
  obtain new k1 where new: "state d' = Some (Leased new)" "k_try_clone K k1 (lease_fd (lease new)) = (Inr f, k')"
    by (rule grant_lease_ok [OF assms(11)])
  have "leases_agree leases k' d'" "device_card d' = device_card d"
    using grant_lease_agrees [OF assms(1,3,11)] by simp_all
  with new(1) assms(4) have held: "leases k' (leased_card old) = {lease_id (lease new)}"
    by (simp add: leases_agree_def device_card_def)
  obtain t ses' where t: "sess_step fmt pol K P s (EvControl c wr now) t" "map_of (x_sess t) c = Some ses'"
    "wire (s_conn ses') = wire (s_conn ses) @ [(MsgGrant (Drm n), Some f)]" "x_k t = k'" "x_d t = x_d s"
    using control_grant_step [where wr = wr, OF assms(7-10,2,11-13), of fmt pol now] by blast
  have "owner_of (eng (d_sys (x_d t))) (Drm n) \<noteq> Some c" using t(5) assms(5,6) by simp
  with t(1-3,5) new(2) [folded t(4)] held [folded t(4)] show ?thesis by blast
qed

theorem late_grant_takes_card_witness:
  "card_reachable late_state \<and> owner_of (eng (d_sys (x_d late_state))) (Drm 0) = Some 1 \<and>
    (\<exists>t ses. sess_step show_resource FairQueue toy_kernel toy_proto late_state (EvControl 2 all_ok 6001) t \<and>
      map_of (x_sess t) 2 = Some ses \<and> (MsgGrant (Drm 0), Some 26) \<in> set (wire (s_conn ses)) \<and>
      owner_of (eng (d_sys (x_d t))) (Drm 0) \<noteq> Some 2)"
proof -
  let ?d = "snd (hd (leased_as 23))" and ?d' = "snd (hd (leased_as 25))"
  let ?ses = "card_task 1 (leased_as 21) (23, [(20, 21)]) [CmdRegister 2 1, CmdAcquire 2 (Drm 0)] [] None
            [CtlGrant (Drm 0), CtlRevoke (Drm 0)]"
  have d: "map_of (x_drm late_state) (Drm 0) = Some ?d" "map_of (x_sess late_state) 2 = Some ?ses"
    "leases_agree toy_leases (x_k late_state) ?d"
    "state ?d = Some (Leased \<lparr>leased_card = 20, lease = \<lparr>lease_id = 23, lease_fd = 23\<rparr>\<rparr>)"
    by (simp_all add: late_state_def leased_as_def leases_agree_def toy_leases_def)
  have o: "owner_of (eng (d_sys (x_d late_state))) (Drm 0) = Some 1" "(1::client_id) \<noteq> 2"
    by (simp_all add: late_state_def card_daemon_def owner_of_def)
  have ses: "s_phase ?ses = Ready" "s_out ?ses = []" "s_inbox ?ses = CtlGrant (Drm 0) # [CtlRevoke (Drm 0)]"
    by (simp_all add: card_task_def)
  have g: "grant_lease toy_kernel (x_k late_state) ?d = (DrmOk 26, ?d', (27, [(20, 25)]))"
    by code_simp
  have p: "serialize_framed toy_proto (MsgGrant (Drm 0)) = Inr []" by (simp add: toy_proto_def)
  from late_grant_takes_card [OF toy_lease_kernel d(1,3,4) o d(2) ses g p refl] late_reachable(3) o(1)
  show ?thesis by fastforce
qed

end
