(* ===== verification/Session_Progress.thy ===== *)
theory Session_Progress
  imports Session_Demo
begin

text \<open>
  The mailbox is bounded, and nobody waits for ever because of it: the engine waits for nobody while
  it empties the mailbox, so that a task that wants to send gets room, and each Acquire is
  answered when its turn comes.
\<close>

section \<open>What a waiting task waits for is on its way\<close>

definition waiting_ok :: "engine_command list \<Rightarrow> client_id \<Rightarrow> 'k session \<Rightarrow> bool" where
  "waiting_ok mail cl ses \<longleftrightarrow>
     (case s_phase ses of
        Awaiting r \<Rightarrow> s_out ses = [CmdAcquire cl r] \<or> s_out ses = [] \<and> CmdAcquire cl r \<in> set mail
      | Answered r res \<Rightarrow> s_out ses = []
      | _ \<Rightarrow> True)"

definition progress_inv :: "'k sessions \<Rightarrow> bool" where
  "progress_inv s \<longleftrightarrow>
     length (d_mail (x_d s)) \<le> MAILBOX \<and>
     (\<forall>cl ses. map_of (x_sess s) cl = Some ses \<longrightarrow> waiting_ok (d_mail (x_d s)) cl ses)"

lemma waiting_ok_more: "waiting_ok mail cl ses \<Longrightarrow> set mail \<subseteq> set mail' \<Longrightarrow> waiting_ok mail' cl ses"
  by (auto simp: waiting_ok_def split: task_phase.splits)

lemma waiting_ok_same: "s_phase ses = s_phase old \<Longrightarrow> s_out ses = s_out old \<Longrightarrow> waiting_ok mail cl ses = waiting_ok mail cl old"
  by (cases "s_phase old") (simp_all add: waiting_ok_def)

lemma progress_waiting: "progress_inv s \<Longrightarrow> map_of (x_sess s) cl = Some ses \<Longrightarrow> waiting_ok (d_mail (x_d s)) cl ses"
  by (simp add: progress_inv_def)

lemma progress_mail:
  assumes "progress_inv s" "x_sess t = x_sess s" "d_mail (x_d t) = d_mail (x_d s)" shows "progress_inv t"
  using assms by (simp add: progress_inv_def)

lemma progress_update:
  assumes "progress_inv s" "x_sess t = AList.update cl ses (x_sess s)" "d_mail (x_d t) = d_mail (x_d s)"
    and "waiting_ok (d_mail (x_d s)) cl ses"
  shows "progress_inv t"
  using assms by (simp add: progress_inv_def)

lemma progress_post:
  assumes "progress_inv s" "has_room s" shows "progress_inv (post cmd s)"
proof -
  have "waiting_ok (d_mail (x_d s) @ [cmd]) cl ses" if "map_of (x_sess s) cl = Some ses" for cl ses
    by (rule waiting_ok_more [OF progress_waiting [OF assms(1) that]]) auto
  with assms show ?thesis by (simp add: progress_inv_def has_room_def)
qed

lemma progress_drop: "progress_inv s \<Longrightarrow> progress_inv (drop_session cl s)"
  by (simp add: progress_inv_def drop_session_def)

lemma phase_after_waiting: "s_phase ses = phase_after res \<Longrightarrow> waiting_ok mail cl ses"
  by (cases res) (simp_all add: waiting_ok_def)

lemma run_task_progress: "progress_inv s \<Longrightarrow> progress_inv (run_task h cl ses s)"
  unfolding run_task_def case_prod_beta Let_def
  by (rule progress_update [OF _ give_back_simps(1)]) (auto intro: phase_after_waiting)

lemma task_greet_progress: "progress_inv s \<Longrightarrow> progress_inv (task_greet E cl ses s)"
  unfolding task_greet_def case_prod_beta
  by (auto split: sum.split intro: progress_drop intro!: progress_update [OF _ give_back_simps(1)] simp: waiting_ok_def)

lemma task_request_progress: "progress_inv s \<Longrightarrow> progress_inv (task_request E now cl req ses s)"
proof (cases req)
  case (ReqAcquire r)
  assume "progress_inv s"
  then have "progress_inv (give_back cl (ses\<lparr>s_phase := Awaiting r\<rparr>) (tell (CmdAcquire cl r) (borrow s (s_conn ses))) s)"
    by (rule progress_update [OF _ give_back_simps(1)]) (simp_all add: waiting_ok_def)
  with ReqAcquire show ?thesis by simp
qed (auto intro: run_task_progress simp del: dispatch_request.simps)

lemma task_sent_progress:
  assumes "progress_inv s" "has_room s" "map_of (x_sess s) cl = Some ses" "s_out ses = cmd # rest"
  shows "progress_inv (task_sent cl cmd rest ses s)"
proof (cases "s_phase ses = Closing")
  case True
  with assms(1,2) show ?thesis
    by (simp add: task_sent_def) (intro progress_post progress_drop, simp_all add: has_room_def drop_session_def)
next
  case False
  let ?t = "s\<lparr>x_sess := AList.update cl (ses\<lparr>s_out := rest\<rparr>) (x_sess s)\<rparr>"
  have mail: "set (d_mail (x_d s)) \<subseteq> set (d_mail (x_d s) @ [cmd])" by auto
  have "waiting_ok (d_mail (x_d s)) cl ses" using assms(1,3) by (simp add: progress_inv_def)
  then have "waiting_ok (d_mail (x_d s) @ [cmd]) cl (ses\<lparr>s_out := rest\<rparr>)"
    using assms(4) by (auto simp: waiting_ok_def split: task_phase.splits)
  moreover have "waiting_ok (d_mail (x_d s) @ [cmd]) c old" if "map_of (x_sess s) c = Some old" for c old
    by (rule waiting_ok_more [OF progress_waiting [OF assms(1) that] mail])
  ultimately have "progress_inv (post cmd ?t)"
    using assms(2) by (simp add: progress_inv_def has_room_def)
  with False show ?thesis by (simp add: task_sent_def)
qed

lemma push_all_waiting:
  "map_of (push_all out ss) cl = Some ses \<Longrightarrow>
    \<exists>old. map_of ss cl = Some old \<and> s_phase ses = s_phase old \<and> s_out ses = s_out old \<and> s_conn ses = s_conn old"
  by (auto simp: push_all_def)

lemma reply_to_waiting:
  assumes "map_of (reply_to cmd res ss) cl = Some ses"
  obtains (same) "map_of ss cl = Some ses" "\<And>r res'. cmd = CmdAcquire cl r \<Longrightarrow> res = Some res' \<Longrightarrow> s_phase ses \<noteq> Awaiting r \<or> s_out ses \<noteq> []"
    | (answered) r res' old where "map_of ss cl = Some old" "s_phase old = Awaiting r" "s_out old = []"
        "ses = old\<lparr>s_phase := Answered r res'\<rparr>"
proof (cases "(cmd, res)" rule: reply_to.cases)
  case (1 c r res')
  with assms obtain old where old: "map_of ss cl = Some old"
    "ses = (if cl = c \<and> s_phase old = Awaiting r \<and> s_out old = [] then old\<lparr>s_phase := Answered r res'\<rparr> else old)"
    by auto
  show thesis
  proof (cases "cl = c \<and> s_phase old = Awaiting r \<and> s_out old = []")
    case True
    with old answered show thesis by auto
  next
    case False
    with old 1 same show thesis by auto
  qed
qed (use assms same in auto)

lemma acquire_replies: "handle_command ok now (CmdAcquire cl r) e = (res, e', out) \<Longrightarrow> res \<noteq> None"
  by (auto simp: case_prod_beta Let_def)

lemma handle_progress:
  assumes "progress_inv s" "sess_step fmt pol K P s (EvHandle now) t" shows "progress_inv t"
  using assms(2)
proof (rule handled_state)
  fix cmd mail res e' out
  assume t: "d_mail (x_d s) = cmd # mail" "handle_command (listening s) now cmd (eng (d_sys (x_d s))) = (res, e', out)"
    "x_d t = (x_d s)\<lparr>d_sys := \<lparr>eng = e', clock = now\<rparr>, d_mail := mail\<rparr>"
    "x_sess t = reply_to cmd res (push_all out (x_sess s))"
  have "waiting_ok mail cl ses" if ses: "map_of (x_sess t) cl = Some ses" for cl ses
    using ses [unfolded t(4)]
  proof (cases rule: reply_to_waiting)
    case same
    from push_all_waiting [OF same(1)] obtain old where
      old: "map_of (x_sess s) cl = Some old" "s_phase ses = s_phase old" "s_out ses = s_out old" by blast
    from progress_waiting [OF assms(1) old(1)] t(1) have "waiting_ok (cmd # mail) cl ses"
      by (simp only: waiting_ok_same [OF old(2,3)])
    moreover have "cmd \<noteq> CmdAcquire cl r \<or> s_phase ses \<noteq> Awaiting r \<or> s_out ses \<noteq> []" for r
      using same(2) t(2) acquire_replies [of "listening s" now cl r] by blast
    ultimately show ?thesis by (auto simp: waiting_ok_def split: task_phase.splits)
  next
    case (answered r res' old)
    then show ?thesis by (simp add: waiting_ok_def)
  qed
  with assms(1) t(1,3) show ?thesis by (simp add: progress_inv_def)
qed

lemma timeout_progress:
  assumes "progress_inv s" "sess_step fmt pol K P s (EvTimeout now) t" shows "progress_inv t"
  using assms(2)
proof (rule timed_out_state)
  fix e' out
  assume t: "x_d t = (x_d s)\<lparr>d_sys := \<lparr>eng = e', clock = now\<rparr>\<rparr>" "x_sess t = push_all out (x_sess s)"
  have "waiting_ok (d_mail (x_d s)) cl ses" if "map_of (push_all out (x_sess s)) cl = Some ses" for cl ses
  proof -
    from push_all_waiting [OF that] obtain old where old: "map_of (x_sess s) cl = Some old"
      "s_phase ses = s_phase old" "s_out ses = s_out old" by blast
    from progress_waiting [OF assms(1) old(1)] show ?thesis by (simp only: waiting_ok_same [OF old(2,3)])
  qed
  with assms(1) t show ?thesis by (simp add: progress_inv_def)
qed

lemma accept_progress:
  assumes "progress_inv s" "sess_step fmt pol K P s EvAccept t" shows "progress_inv t"
proof -
  obtain cl ch iv k n where t: "has_room s" "t = post (CmdRegister cl ch)
      (s\<lparr>x_d := (x_d s)\<lparr>d_open := insert cl (d_open (x_d s)), d_next := n\<rparr>, x_sess := (cl, new_session cl ch iv k) # x_sess s,
         x_next_chan := ch + 1\<rparr>)"
    using assms(2) by (auto simp: sess_step_def Let_def case_prod_beta split: if_splits)
  have "progress_inv (s\<lparr>x_d := (x_d s)\<lparr>d_open := insert cl (d_open (x_d s)), d_next := n\<rparr>,
      x_sess := (cl, new_session cl ch iv k) # x_sess s, x_next_chan := ch + 1\<rparr>)"
    using assms(1) by (auto simp: progress_inv_def new_session_def waiting_ok_def)
  with t show ?thesis by (simp add: progress_post has_room_def)
qed

lemma sess_step_progress:
  assumes "progress_inv s" "sess_step fmt pol K P s ev t" shows "progress_inv t"
proof (cases ev)
  case (EvHandle now)
  with assms show ?thesis by (blast intro: handle_progress)
next
  case (EvTimeout now)
  with assms show ?thesis by (blast intro: timeout_progress)
next
  case EvAccept
  with assms show ?thesis by (blast intro: accept_progress)
next
  case (EvRequest cl req wr now)
  with assms show ?thesis
    by (auto simp: sess_step_def split: option.splits if_splits intro: task_request_progress)
next
  case (EvHangup cl)
  with assms(2) show ?thesis
    by (auto simp: sess_step_def waiting_ok_def split: option.splits if_splits intro!: progress_update [OF assms(1)])
next
  case (EvClose cl)
  with assms(2) show ?thesis
    by (auto simp: sess_step_def task_close_def waiting_ok_def split: option.splits if_splits intro!: progress_update [OF assms(1)])
next
  case (EvSend cl)
  with assms show ?thesis
    by (auto simp: sess_step_def split: option.splits list.splits if_splits intro: task_sent_progress)
next
  case (EvPass fs)
  with assms(2) show ?thesis
    by (auto simp: sess_step_def case_prod_beta Let_def split: if_splits intro!: progress_mail [OF assms(1)])
next
  case EvPublish
  with assms(2) show ?thesis
    by (auto simp: sess_step_def split: list.splits intro!: progress_mail [OF assms(1)])
next
  case EvTell
  then obtain cmd iv adv todo where "has_room s"
    "t = post cmd (s\<lparr>x_d := (x_d s)\<lparr>d_inv := iv, d_adv := adv, d_todo := todo\<rparr>\<rparr>)"
    using assms(2) by (auto simp: sess_step_def split: list.splits if_splits)
  then show ?thesis by (simp add: progress_post progress_mail [OF assms(1)] has_room_def)
qed (use assms in \<open>auto simp: sess_step_def task_control_def
      simp del: process_control_message.simps split: option.splits if_splits list.splits task_phase.splits
      intro: task_greet_progress run_task_progress\<close>)

interpretation progress: invariant_system "sess_init K k fb fs fmt var pol" "sess_step fmt pol K P" progress_inv
  for K k fb fs fmt var pol P
proof
  fix s assume "sess_init K k fb fs fmt var pol s"
  then show "progress_inv s" by (auto simp: sess_init_def progress_inv_def daemon_boot_def Let_def case_prod_beta)
qed (rule sess_step_progress)

section \<open>The mailbox is emptied\<close>

lemma run_append: "sess_run fmt pol K P (xs @ ys) s = Option.bind (sess_run fmt pol K P xs s) (sess_run fmt pol K P ys)"
proof (induction xs arbitrary: s)
  case (Cons x xs)
  then show ?case by (cases "sess_exec fmt pol K P x s") simp_all
qed simp

lemma handle_enabled:
  assumes "d_mail (x_d s) = cmd # mail" "clock (d_sys (x_d s)) \<le> now"
  obtains t where "sess_step fmt pol K P s (EvHandle now) t"
  using assms by (auto simp: sess_step_def Let_def case_prod_beta)

text \<open>What a turn of the engine leaves of a task that is about to send, and of one that waits.\<close>

lemma handled_session:
  assumes "sess_step fmt pol K P s (EvHandle now) t" "map_of (x_sess s) cl = Some ses"
  shows "\<exists>ses'. map_of (x_sess t) cl = Some ses' \<and> s_conn ses' = s_conn ses \<and> s_out ses' = s_out ses \<and>
    (s_phase ses' = s_phase ses \<or> s_out ses = [] \<and> (\<exists>r res. s_phase ses = Awaiting r \<and> s_phase ses' = Answered r res))"
  using assms(1)
proof (rule handled_state)
  fix cmd mail res e' out
  assume "x_sess t = reply_to cmd res (push_all out (x_sess s))"
  with assms(2) show ?thesis
    by (cases "(cmd, res)" rule: reply_to.cases) (auto simp: push_all_def)
qed

lemma handled_mail:
  "sess_step fmt pol K P s (EvHandle now) t \<Longrightarrow>
    length (d_mail (x_d s)) = Suc (length (d_mail (x_d t))) \<and> clock (d_sys (x_d t)) = now \<and> d_todo (x_d t) = d_todo (x_d s)"
  by (erule handled_state) simp

lemma make_room:
  assumes "progress_inv s" "clock (d_sys (x_d s)) \<le> now"
  obtains n t where "n \<le> 1" "sess_run fmt pol K P (replicate n (EvHandle now)) s = Some t" "has_room t"
    "d_todo (x_d t) = d_todo (x_d s)" "clock (d_sys (x_d t)) \<le> now" "progress_inv t"
    "\<And>cl ses. map_of (x_sess s) cl = Some ses \<Longrightarrow> s_out ses \<noteq> [] \<Longrightarrow>
      \<exists>ses'. map_of (x_sess t) cl = Some ses' \<and> s_conn ses' = s_conn ses \<and> s_out ses' = s_out ses \<and> s_phase ses' = s_phase ses"
proof (cases "has_room s")
  case True
  show thesis by (rule that [of 0 s]) (use True assms in auto)
next
  case False
  with assms(1) have full: "length (d_mail (x_d s)) = MAILBOX" by (simp add: progress_inv_def has_room_def)
  then obtain cmd mail where "d_mail (x_d s) = cmd # mail" by (cases "d_mail (x_d s)") (simp_all add: MAILBOX_def)
  then obtain t where t: "sess_step fmt pol K P s (EvHandle now) t" using assms(2) by (rule handle_enabled)
  show thesis
  proof (rule that [of 1 t])
    show "sess_run fmt pol K P (replicate 1 (EvHandle now)) s = Some t" using t by (simp add: sess_step_def)
    show "has_room t" using handled_mail [OF t] full by (simp add: has_room_def)
    show "progress_inv t" by (rule handle_progress [OF assms(1) t])
    show "\<exists>ses'. map_of (x_sess t) cl = Some ses' \<and> s_conn ses' = s_conn ses \<and> s_out ses' = s_out ses \<and> s_phase ses' = s_phase ses"
      if "map_of (x_sess s) cl = Some ses" "s_out ses \<noteq> []" for cl ses
      using handled_session [OF t that(1)] that(2) by blast
  qed (use handled_mail [OF t] in simp_all)
qed

lemma waiting_is_answered:
  assumes "progress_inv s" "map_of (x_sess s) cl = Some ses" "s_phase ses = Awaiting r" "s_out ses = []"
    and "clock (d_sys (x_d s)) \<le> now"
  shows "\<exists>n\<le>length (d_mail (x_d s)). \<exists>t ses' res. sess_run fmt pol K P (replicate n (EvHandle now)) s = Some t \<and>
    map_of (x_sess t) cl = Some ses' \<and> s_conn ses' = s_conn ses \<and> s_phase ses' = Answered r res \<and> s_out ses' = []"
  using assms
proof (induction "length (d_mail (x_d s))" arbitrary: s ses)
  case 0
  then have "waiting_ok (d_mail (x_d s)) cl ses" by (simp add: progress_inv_def)
  with 0 show ?case by (simp add: waiting_ok_def)
next
  case (Suc m)
  then obtain cmd mail where "d_mail (x_d s) = cmd # mail" by (cases "d_mail (x_d s)") auto
  then obtain u where u: "sess_step fmt pol K P s (EvHandle now) u" using Suc.prems(5) by (rule handle_enabled)
  obtain ses1 where ses1: "map_of (x_sess u) cl = Some ses1" "s_conn ses1 = s_conn ses" "s_out ses1 = []"
    "s_phase ses1 = Awaiting r \<or> (\<exists>res. s_phase ses1 = Answered r res)"
    using handled_session [OF u Suc.prems(2)] Suc.prems(3,4) by auto
  have len: "length (d_mail (x_d s)) = Suc (length (d_mail (x_d u)))" "clock (d_sys (x_d u)) = now"
    using handled_mail [OF u] by auto
  from u have run: "sess_run fmt pol K P (replicate (Suc n) (EvHandle now)) s =
      sess_run fmt pol K P (replicate n (EvHandle now)) u" for n
    by (simp add: sess_step_def)
  from ses1(4) show ?case
  proof
    assume "s_phase ses1 = Awaiting r"
    then obtain n t ses' res where n: "n \<le> length (d_mail (x_d u))"
      "sess_run fmt pol K P (replicate n (EvHandle now)) u = Some t" "map_of (x_sess t) cl = Some ses'"
      "s_conn ses' = s_conn ses1" "s_phase ses' = Answered r res" "s_out ses' = []"
      using Suc.hyps(1) [OF _ handle_progress [OF Suc.prems(1) u] ses1(1)] Suc.hyps(2) len ses1(3) by auto
    show ?thesis
      using n ses1(2) len run [of n] by (intro exI [of _ "Suc n"]) auto
  next
    assume "\<exists>res. s_phase ses1 = Answered r res"
    with ses1(1-3) len run [of 0] show ?thesis by (intro exI [of _ "Suc 0"]) auto
  qed
qed

lemma acquire_gets_through:
  assumes "progress_inv s" "map_of (x_sess s) cl = Some ses" "s_phase ses = Awaiting r" "clock (d_sys (x_d s)) \<le> now"
  shows "\<exists>evs t ses' res. set evs \<subseteq> {EvSend cl, EvHandle now} \<and> length evs \<le> MAILBOX + 2 \<and>
    sess_run fmt pol K P evs s = Some t \<and> map_of (x_sess t) cl = Some ses' \<and> s_conn ses' = s_conn ses \<and>
    s_phase ses' = Answered r res \<and> s_out ses' = []"
proof (cases "s_out ses = []")
  case True
  obtain n t ses' res where n: "n \<le> length (d_mail (x_d s))" "sess_run fmt pol K P (replicate n (EvHandle now)) s = Some t"
    "map_of (x_sess t) cl = Some ses'" "s_conn ses' = s_conn ses" "s_phase ses' = Answered r res" "s_out ses' = []"
    using waiting_is_answered [OF assms(1-3) True assms(4), of fmt pol K P] by blast
  moreover have "n \<le> MAILBOX" using n(1) assms(1) by (simp add: progress_inv_def)
  ultimately show ?thesis by (intro exI [of _ "replicate n (EvHandle now)"]) auto
next
  case False
  then have out: "s_out ses = [CmdAcquire cl r]"
    using progress_waiting [OF assms(1,2)] assms(3) by (simp add: waiting_ok_def)
  obtain n u ses1 where n: "n \<le> 1" "sess_run fmt pol K P (replicate n (EvHandle now)) s = Some u" "has_room u"
    and u: "clock (d_sys (x_d u)) \<le> now" "progress_inv u"
    and ses1: "map_of (x_sess u) cl = Some ses1" "s_conn ses1 = s_conn ses" "s_out ses1 = s_out ses" "s_phase ses1 = s_phase ses"
    by (rule make_room [OF assms(1,4), of fmt pol K P]) (use assms(2) False in blast)
  let ?v = "task_sent cl (CmdAcquire cl r) [] ses1 u" and ?ses = "ses1\<lparr>s_out := []\<rparr>"
  have send: "sess_run fmt pol K P [EvSend cl] u = Some ?v" "map_of (x_sess ?v) cl = Some ?ses" "clock (d_sys (x_d ?v)) \<le> now"
    using n(3) u(1) ses1 out assms(3) by (simp_all add: task_sent_def)
  have v: "progress_inv ?v" using task_sent_progress [OF u(2) n(3) ses1(1)] ses1(3) out by simp
  obtain m t ses' res where m: "m \<le> length (d_mail (x_d ?v))" "sess_run fmt pol K P (replicate m (EvHandle now)) ?v = Some t"
    "map_of (x_sess t) cl = Some ses'" "s_conn ses' = s_conn ?ses" "s_phase ses' = Answered r res" "s_out ses' = []"
    using waiting_is_answered [OF v send(2) _ _ send(3), of r fmt pol K P] ses1(4) assms(3) by auto
  have "m \<le> MAILBOX" using m(1) v by (simp add: progress_inv_def)
  moreover have "sess_run fmt pol K P (replicate n (EvHandle now) @ [EvSend cl] @ replicate m (EvHandle now)) s = Some t"
    using n(2) send(1) m(2) by (simp only: run_append bind.bind_lunit)
  ultimately show ?thesis
    using n(1) m(3-6) ses1(2)
    by (intro exI [of _ "replicate n (EvHandle now) @ [EvSend cl] @ replicate m (EvHandle now)"]) auto
qed

text \<open>The third client of the run has asked for the card, and the command is still to be sent.\<close>

definition asking_task :: "toy_k session" where
  "asking_task =
     (card_task 2 free_card (23, []) [CmdRegister 3 2, CmdAcquire 3 (Drm 0)] [] None [])
       \<lparr>s_phase := Awaiting (Drm 0), s_out := [CmdAcquire 3 (Drm 0)]\<rparr>"

definition asking_state :: "toy_k sessions" where
  "asking_state = handed_over\<lparr>x_sess := AList.update 3 asking_task (x_sess handed_over)\<rparr>"

lemma asking_reachable: "card_reachable asking_state"
proof -
  have "card_run [EvRequest 3 (ReqAcquire (Drm 0)) all_ok 4] handed_over = Some asking_state"
    by code_simp
  with late_reachable(2) show ?thesis by (rule run_reach)
qed

lemma asking_simps:
  "map_of (x_sess asking_state) 3 = Some asking_task" "s_phase asking_task = Awaiting (Drm 0)"
  "s_out asking_task = [CmdAcquire 3 (Drm 0)]" "clock (d_sys (x_d asking_state)) \<le> 4"
  by (simp_all add: asking_state_def asking_task_def handed_over_def card_daemon_def)

text \<open>C17. Every Acquire is answered: from every state the daemon can reach with a task inside
  \<open>engine.acquire\<close>, its own send and the engine's steps, no more than the mailbox holds and two,
  bring it its answer, nothing of its connection having changed meanwhile; and once it is there the
  task goes on, back into its loop or out of it, whatever its socket does.\<close>

theorem acquire_is_answered:
  assumes "reach (sess_init K k fb fs fmt var pol) (sess_step fmt pol K P) s"
    and "map_of (x_sess s) cl = Some ses" "s_phase ses = Awaiting r" "clock (d_sys (x_d s)) \<le> now"
  shows "\<exists>evs t ses' res. set evs \<subseteq> {EvSend cl, EvHandle now} \<and> length evs \<le> MAILBOX + 2 \<and>
    sess_run fmt pol K P evs s = Some t \<and>
    map_of (x_sess t) cl = Some ses' \<and> s_conn ses' = s_conn ses \<and> s_phase ses' = Answered r res \<and>
    (\<exists>u after. sess_step fmt pol K P t (EvAnswer cl wr later) u \<and> map_of (x_sess u) cl = Some after \<and>
      s_phase after \<in> {Ready, Leaving})"
proof -
  have inv: "progress_inv s" by (rule progress.reach_inv [OF assms(1)])
  obtain evs t ses' res where n: "set evs \<subseteq> {EvSend cl, EvHandle now}" "length evs \<le> MAILBOX + 2"
    "sess_run fmt pol K P evs s = Some t" "map_of (x_sess t) cl = Some ses'"
    "s_conn ses' = s_conn ses" "s_phase ses' = Answered r res" "s_out ses' = []"
    using acquire_gets_through [OF inv assms(2-4), of fmt pol K P] by blast
  have "phase_after x \<in> {Ready, Leaving}" for x by (cases x) simp_all
  then have "\<exists>u after. sess_step fmt pol K P t (EvAnswer cl wr later) u \<and> map_of (x_sess u) cl = Some after \<and>
      s_phase after \<in> {Ready, Leaving}"
    using n(4,6,7) by (simp add: sess_step_def run_task_def case_prod_beta)
  with n show ?thesis by blast
qed

theorem acquire_is_answered_witness:
  "\<exists>evs t ses' res. length evs \<le> 66 \<and> card_run evs asking_state = Some t \<and>
    map_of (x_sess t) 3 = Some ses' \<and> s_phase ses' = Answered (Drm 0) res"
  using acquire_is_answered [OF asking_reachable asking_simps(1,2,4), of all_ok 4] unfolding MAILBOX_def
  by auto

end
