(* ===== verification/Session_Lists.thy ===== *)
theory Session_Lists
  imports Session_Demo
begin

text \<open>
  What the clients know of the devices: every change of the advertised list is on its way to every
  client, so that a client that has nothing more to expect has been shown the list as it is.
\<close>

section \<open>The newest list of a stream of messages\<close>

definition newest :: "('m \<Rightarrow> advertised option) \<Rightarrow> 'm list \<Rightarrow> advertised \<Rightarrow> advertised" where
  "newest f = fold (\<lambda>m l. case f m of None \<Rightarrow> l | Some l' \<Rightarrow> l')"

lemma newest_simps [simp]:
  "newest f [] l = l" "newest f (m # ms) l = newest f ms (case f m of None \<Rightarrow> l | Some l' \<Rightarrow> l')"
  "newest f (ms @ ms') l = newest f ms' (newest f ms l)"
  by (simp_all add: newest_def)

lemma newest_none: "(\<And>m. m \<in> set ms \<Longrightarrow> f m = None) \<Longrightarrow> newest f ms l = l"
  by (induction ms) simp_all

lemma newest_constant: "ms \<noteq> [] \<Longrightarrow> (\<And>m. m \<in> set ms \<Longrightarrow> f m = Some l') \<Longrightarrow> newest f ms l = l'"
  by (induction ms arbitrary: l rule: induct_list012) simp_all

text \<open>A stream either leaves the list alone or sets it.\<close>

lemma newest_cases: "newest f ms = id \<or> (\<exists>l. newest f ms = (\<lambda>_. l))"
proof (induction ms)
  case (Cons m ms)
  then show ?case by (cases "f m") (auto simp: fun_eq_iff)
qed (simp add: fun_eq_iff)

fun cmd_list :: "engine_command \<Rightarrow> advertised option" where
  "cmd_list (CmdBroadcast (CtlAdvertise l)) = Some l"
| "cmd_list _ = None"

fun ctl_list :: "control_message \<Rightarrow> advertised option" where
  "ctl_list (CtlAdvertise l) = Some l"
| "ctl_list _ = None"

fun msg_list :: "server_message \<times> fd option \<Rightarrow> advertised option" where
  "msg_list (MsgAdvertise l, _) = Some l"
| "msg_list _ = None"

section \<open>The engine pushes lists only when it is told to\<close>

definition no_lists :: "outbox \<Rightarrow> bool" where
  "no_lists out \<longleftrightarrow> (\<forall>ch l. (ch, CtlAdvertise l) \<notin> set out)"

lemma no_lists_simps [simp]:
  "no_lists []" "no_lists (xs @ ys) \<longleftrightarrow> no_lists xs \<and> no_lists ys"
  "no_lists (send ok ch (CtlGrant r))" "no_lists (send ok ch (CtlRevoke r))" "no_lists [(ch, CtlGrant r)]"
  by (auto simp: no_lists_def send_def)

lemma no_lists_concat: "(\<And>x. x \<in> set xs \<Longrightarrow> no_lists (f x)) \<Longrightarrow> no_lists (concat (map f xs))"
  by (auto simp: no_lists_def)

lemma grant_next_no_lists [simp]: "no_lists (snd (grant_next ok reg r s))"
  by (induction ok reg r s rule: grant_next.induct) (subst grant_next.simps, auto split: option.splits)

lemma revoke_held_no_lists [simp]: "no_lists (snd (revoke_held ok now c rs e))"
  by (induction ok now c rs e rule: revoke_held.induct) (auto simp: case_prod_beta Let_def split: option.splits)

lemma release_all_no_lists [simp]: "no_lists (snd (release_all_seats ok now cs e))"
  by (induction cs arbitrary: e) (simp_all add: release_seat_inputs_def case_prod_beta Let_def)

lemma each_slot_no_lists: "(\<And>r s. no_lists (snd (f r s))) \<Longrightarrow> no_lists (snd (each_slot f e))"
  by (auto simp: each_slot_def case_prod_beta Let_def intro!: no_lists_concat)

lemma handle_timeout_no_lists: "no_lists (snd (handle_timeout ok now e))"
  by (auto simp: handle_timeout_def reclaim_slot_def force_reclaim_def case_prod_beta Let_def intro!: each_slot_no_lists)

lemma handle_command_no_lists:
  assumes "\<And>m. cmd \<noteq> CmdBroadcast m" shows "no_lists (snd (snd (handle_command ok now cmd e)))"
proof (cases cmd)
  case (CmdAcquire c r)
  then show ?thesis
    by (auto simp: acquire_one_def queue_waiter_def case_prod_beta Let_def split: option.splits acquire_decision.splits)
next
  case (CmdDisconnected c)
  then show ?thesis
    by (auto simp: handle_disconnected_def disconnect_slot_def Let_def intro!: each_slot_no_lists)
qed (use assms in \<open>auto simp: handle_release_cmd_def release_one_def release_slot_def release_seat_inputs_def handle_resume_def
    case_prod_beta Let_def split: option.splits\<close>)

section \<open>A pass announces what it changes\<close>

text \<open>
  Whatever command of a pass is sent next, the list as it then is and the lists still to be sent
  end in the list the pass has left.
\<close>

fun settles :: "(engine_command \<times> inventory \<times> advertised) list \<Rightarrow> advertised \<Rightarrow> advertised \<Rightarrow> bool" where
  "settles [] l end_list \<longleftrightarrow> l = end_list"
| "settles ((cmd, iv, adv) # todo) l end_list \<longleftrightarrow>
     newest cmd_list (cmd # map fst todo) l = end_list \<and> newest cmd_list (cmd # map fst todo) adv = end_list \<and>
     settles todo adv end_list"

lemma settles_newest: "settles todo l end_list \<Longrightarrow> newest cmd_list (map fst todo) l = end_list"
  by (cases todo) auto

lemma settles_pushed: "settles (todo @ [x, (CmdBroadcast (CtlAdvertise a), iv, a)]) l a"
proof (induction todo arbitrary: l)
  case Nil
  then show ?case by (cases x) simp
next
  case (Cons y todo)
  then show ?case by (cases y) simp
qed

definition announces :: "advertised \<Rightarrow> hp \<Rightarrow> bool" where
  "announces l s \<longleftrightarrow> settles (hp_out s) l (hp_adv s)"

lemma suspend_announces: "announces l (suspend p h s)"
  using settles_pushed
  by (simp add: suspend_def announces_def push_def tell_engine_def adv_snapshot_def Let_def)

lemma adopt_announces: "announces l s \<Longrightarrow> announces l (snd (adopt fs pol p c s))"
  using settles_pushed
  by (auto simp: adopt_def announces_def push_def tell_engine_def adv_snapshot_def Let_def split: option.splits)

lemma resume_announces: "announces l s \<Longrightarrow> announces l (snd (resume fs old_p p h s))"
  using settles_pushed
  by (auto simp: resume_def announces_def push_def tell_engine_def adv_snapshot_def Let_def split: option.splits)

lemma reopen_announces: "announces l s \<Longrightarrow> announces l (snd (reopen fs p r s))"
  by (auto simp: reopen_def announces_def split: option.splits)

lemma park_announces: "announces l s \<Longrightarrow> announces l (park fmt p s)"
  by (auto simp: park_def announces_def split: option.splits)

lemma reconcile_device_announces: "announces l s \<Longrightarrow> announces l (snd (reconcile_device fs fmt pol d s))"
  by (auto simp: reconcile_device_def replace_device_def split: option.splits prod.splits
      intro: resume_announces adopt_announces park_announces reopen_announces suspend_announces)

lemma reconcile_devices_announces: "announces l s \<Longrightarrow> announces l (snd (reconcile_devices fs fmt pol ds s))"
  by (induction ds arbitrary: s) (auto simp: case_prod_beta Let_def intro: reconcile_device_announces)

lemma suspend_missing_announces: "announces l s \<Longrightarrow> announces l (suspend_missing fs present es s)"
  by (induction fs present es s rule: suspend_missing.induct) (auto intro: suspend_announces)

lemma reconcile_announces:
  assumes "reconcile fs fmt pol (h\<lparr>hp_out := []\<rparr>) = (retry, h')" shows "settles (hp_out h') (hp_adv h) (hp_adv h')"
proof -
  have "announces (hp_adv h) (h\<lparr>hp_out := []\<rparr>)" by (simp add: announces_def)
  then have "announces (hp_adv h) (snd (reconcile fs fmt pol (h\<lparr>hp_out := []\<rparr>)))"
    by (simp add: reconcile_def case_prod_beta Let_def suspend_missing_announces reconcile_devices_announces)
  with assms show ?thesis by (simp add: announces_def)
qed

section \<open>What is on its way to a client\<close>

fun registers :: "chan \<Rightarrow> engine_command \<Rightarrow> bool" where
  "registers ch (CmdRegister c ch') \<longleftrightarrow> ch' = ch"
| "registers ch _ \<longleftrightarrow> False"

text \<open>The part of the mailbox that is handled once the channel is registered.\<close>

definition reaching :: "chan \<Rightarrow> engine_command list \<Rightarrow> engine_command list" where
  "reaching ch mail = (if list_ex (registers ch) mail then tl (dropWhile (\<lambda>cmd. \<not> registers ch cmd) mail) else mail)"

lemma reaching_Cons:
  "reaching ch (cmd # mail) =
     (if registers ch cmd then mail else if list_ex (registers ch) mail then reaching ch mail else cmd # mail)"
  by (simp add: reaching_def)

lemma reaching_snoc: "\<not> registers ch cmd \<Longrightarrow> reaching ch (mail @ [cmd]) = reaching ch mail @ [cmd]"
  by (induction mail) (simp_all add: reaching_Cons, simp add: reaching_def)

lemma reaching_fresh: "\<not> list_ex (registers ch) mail \<Longrightarrow> registers ch cmd \<Longrightarrow> reaching ch (mail @ [cmd]) = []"
  by (induction mail) (simp_all add: reaching_Cons)

definition live :: "'k session \<Rightarrow> bool" where
  "live ses \<longleftrightarrow> s_phase ses \<noteq> Leaving \<and> s_phase ses \<noteq> Closing"

text \<open>
  The list a client has been shown, or \<open>l\<close> if it has been shown none; before the first write, the one
  it is about to be shown.
\<close>

definition shown :: "daemon \<Rightarrow> 'k session \<Rightarrow> advertised \<Rightarrow> advertised" where
  "shown d ses l = (if s_phase ses = Greeting then d_adv d else newest msg_list (wire (s_conn ses)) l)"

definition expects :: "daemon \<Rightarrow> 'k session \<Rightarrow> advertised \<Rightarrow> advertised" where
  "expects d ses l = newest cmd_list (reaching (s_chan ses) (d_mail d)) (newest ctl_list (s_inbox ses) l)"

definition linked :: "daemon \<Rightarrow> client_id \<Rightarrow> chan \<Rightarrow> bool" where
  "linked d cl ch \<longleftrightarrow>
     (if list_ex (registers ch) (d_mail d) then \<forall>c. map_of (control_reg (eng (d_sys d))) c \<noteq> Some ch
      else map_of (control_reg (eng (d_sys d))) cl = Some ch) \<and>
     (\<forall>cmd\<in>set (reaching ch (d_mail d)). cmd \<noteq> CmdDisconnected cl \<and> (\<forall>ch'. cmd \<noteq> CmdRegister cl ch'))"

definition informed :: "daemon \<Rightarrow> client_id \<Rightarrow> 'k session \<Rightarrow> bool" where
  "informed d cl ses \<longleftrightarrow>
     (live ses \<longrightarrow> linked d cl (s_chan ses) \<and>
        (\<forall>l. newest cmd_list (map fst (d_todo d)) (expects d ses (shown d ses l)) = hp_adv (d_hp d)))"

definition lists_inv :: "'k sessions \<Rightarrow> bool" where
  "lists_inv s \<longleftrightarrow>
     settles (d_todo (x_d s)) (d_adv (x_d s)) (hp_adv (d_hp (x_d s))) \<and>
     (\<forall>cl ses. map_of (x_sess s) cl = Some ses \<longrightarrow> informed (x_d s) cl ses)"

lemma lists_informed: "lists_inv s \<Longrightarrow> map_of (x_sess s) cl = Some ses \<Longrightarrow> informed (x_d s) cl ses"
  by (simp add: lists_inv_def)

lemma informed_same:
  assumes "d_mail d' = d_mail d" "d_adv d' = d_adv d" "d_todo d' = d_todo d" "d_hp d' = d_hp d" "d_sys d' = d_sys d"
    and "s_phase ses' = s_phase ses" "s_chan ses' = s_chan ses" "s_inbox ses' = s_inbox ses" "s_conn ses' = s_conn ses"
  shows "informed d' cl ses' = informed d cl ses"
proof -
  have "live ses' = live ses" "shown d' ses' = shown d ses" "expects d' ses' = expects d ses" "linked d' = linked d"
    using assms by (simp_all add: live_def shown_def expects_def linked_def fun_eq_iff)
  with assms(3,4,7) show ?thesis by (simp add: informed_def)
qed

lemma informed_open [simp]:
  "informed (d\<lparr>d_open := S\<rparr>) cl ses = informed d cl ses"
  "informed (d\<lparr>d_open := S, d_mail := m\<rparr>) cl ses = informed (d\<lparr>d_mail := m\<rparr>) cl ses"
  by (rule informed_same; simp)+

lemma expects_cases: "expects d ses = id \<or> (\<exists>l. expects d ses = (\<lambda>_. l))"
  using newest_cases [of cmd_list "reaching (s_chan ses) (d_mail d)"] newest_cases [of ctl_list "s_inbox ses"]
  by (auto simp: expects_def fun_eq_iff)

section \<open>Steps of the tasks\<close>

lemma lists_update:
  assumes "lists_inv s" "map_of (x_sess s) cl = Some old" "x_sess t = AList.update cl ses (x_sess s)" "x_d t = x_d s"
    and "s_chan ses = s_chan old"
    and "live ses \<Longrightarrow> live old \<and>
      (\<forall>l. newest ctl_list (s_inbox ses) (shown (x_d s) ses l) = newest ctl_list (s_inbox old) (shown (x_d s) old l))"
  shows "lists_inv t"
proof -
  have "informed (x_d s) cl ses"
    using lists_informed [OF assms(1,2)] assms(5,6) by (simp add: informed_def expects_def)
  with assms(1,3,4) show ?thesis by (simp add: lists_inv_def)
qed

text \<open>A handler that goes on has relayed the lists it was called for, and no others.\<close>

locale relay_handler = task_handler handler cl
  for handler :: "'k conn \<Rightarrow> (server_error + unit) \<times> 'k conn" and cl :: client_id +
  fixes ms :: "control_message list"
  assumes relays: "fst (handler c) = Inr () \<Longrightarrow>
    newest msg_list (wire (snd (handler c))) l = newest ctl_list ms (newest msg_list (wire c) l)"
begin

lemma keeps_lists:
  assumes "lists_inv s" "map_of (x_sess s) cl = Some old" "live old" "s_phase old \<noteq> Greeting"
    and "s_inbox old = ms @ s_inbox ses" "s_conn ses = s_conn old" "s_chan ses = s_chan old"
  shows "lists_inv (run_task handler cl ses s)"
proof -
  obtain res c where h: "handler (borrow s (s_conn ses)) = (res, c)" by fastforce
  let ?ses = "ses\<lparr>s_phase := phase_after res, s_conn := c, s_out := drop (length (told (s_conn ses))) (told c)\<rparr>"
  have "newest ctl_list (s_inbox ?ses) (shown (x_d s) ?ses l) = newest ctl_list (s_inbox old) (shown (x_d s) old l)"
    if "live ?ses" for l
  proof -
    have "res = Inr ()" using that by (cases res) (simp_all add: live_def)
    with relays [of "borrow s (s_conn ses)"] h assms(4-6) show ?thesis by (simp add: shown_def)
  qed
  with assms(3,7) h show ?thesis
    by (intro lists_update [OF assms(1,2), of _ ?ses]) (simp_all add: run_task_def)
qed

end

lemma write_msg_relays:
  "fst (write_msg E m f c) = Inr () \<Longrightarrow>
    newest msg_list (wire (snd (write_msg E m f c))) l = newest msg_list [(m, f)] (newest msg_list (wire c) l)"
  by (simp add: write_msg_wire)

lemma write_msg_silent:
  "msg_list (m, f) = None \<Longrightarrow> newest msg_list (wire (snd (write_msg E m f c))) l = newest msg_list (wire c) l"
  by (simp add: write_msg_wire)

lemma deliver_grant_silent: "newest msg_list (wire (snd (deliver_grant E now cl r c))) l = newest msg_list (wire c) l"
  by (simp add: deliver_grant_def send_grant_def case_prod_beta write_msg_silent tell_def split: sum.split)

lemma acquire_answered_silent:
  "newest msg_list (wire (snd (acquire_answered E now cl r res c))) l = newest msg_list (wire c) l"
  by (cases res) (simp_all add: acquire_answered_def deliver_grant_silent write_msg_silent)

lemma dispatch_silent: "newest msg_list (wire (snd (dispatch_request E now cl req c))) l = newest msg_list (wire c) l"
proof (cases req)
  case (ReqAcquire r)
  have "wire (snd (engine_acquire E cl r c)) = wire c"
    by (simp add: engine_acquire_def tell_def split: option.split)
  with ReqAcquire show ?thesis by (simp add: handle_acquire_def case_prod_beta acquire_answered_silent)
qed (simp_all add: handle_release_def tell_def case_prod_beta Let_def)

interpretation control_relay: relay_handler "process_control_message E now cl m" cl "[m]" for E :: "'k env" and now cl m
  by unfold_locales (cases m; simp add: write_msg_relays deliver_grant_silent write_msg_silent)

interpretation answer_relay: relay_handler "acquire_answered E now cl r res" cl "[]" for E :: "'k env" and now cl r res
  by unfold_locales (simp add: acquire_answered_silent)

interpretation request_relay: relay_handler "dispatch_request E now cl req" cl "[]" for E :: "'k env" and now cl req
  by unfold_locales (simp add: dispatch_silent)

interpretation ack_relay: relay_handler "\<lambda>c :: 'k conn. (Inr (), c\<lparr>ack_deadline := None\<rparr>)" cl "[]" for cl
  by unfold_locales simp

lemma drop_session_lists:
  assumes "lists_inv s" shows "lists_inv (drop_session cl s)"
  using assms by (simp add: lists_inv_def drop_session_def)

lemma task_greet_lists:
  assumes "lists_inv s" "map_of (x_sess s) cl = Some ses" "s_phase ses = Greeting"
  shows "lists_inv (task_greet E cl ses s)"
proof -
  let ?m = "MsgAdvertise (adv_snapshot (d_adv (x_d s)))"
  obtain res c where w: "write_msg E ?m None (borrow s (s_conn ses)) = (res, c)" by fastforce
  show ?thesis
  proof (cases res)
    case (Inr u)
    then have "newest msg_list (wire c) l = d_adv (x_d s)" for l
      using write_msg_relays [of E ?m None "borrow s (s_conn ses)" l] w by (simp add: adv_snapshot_def)
    with assms(3) have "lists_inv (give_back cl (ses\<lparr>s_phase := Ready\<rparr>) c s)"
      by (intro lists_update [OF assms(1,2) give_back_simps(1)]) (simp_all add: shown_def live_def)
    with w Inr show ?thesis by (simp add: task_greet_def)
  qed (use w assms(1) in \<open>simp add: task_greet_def drop_session_lists\<close>)
qed

lemma task_request_lists:
  assumes "lists_inv s" "map_of (x_sess s) cl = Some ses" "s_phase ses = Ready"
  shows "lists_inv (task_request E now cl req ses s)"
proof (cases req)
  case (ReqAcquire r)
  have "lists_inv (give_back cl (ses\<lparr>s_phase := Awaiting r\<rparr>) (tell (CmdAcquire cl r) (borrow s (s_conn ses))) s)"
    by (rule lists_update [OF assms(1,2) give_back_simps(1)]) (simp_all add: shown_def live_def assms(3) tell_def)
  with ReqAcquire show ?thesis by simp
qed (use assms in \<open>auto intro!: request_relay.keeps_lists simp: live_def simp del: dispatch_request.simps\<close>)

section \<open>Steps that send\<close>

text \<open>A command that no live task is registered or disconnected by, and that carries no list.\<close>

lemma informed_post:
  assumes "informed d cl ses" "cmd_list cmd = None" "\<And>c ch. cmd \<noteq> CmdRegister c ch"
    and "live ses \<Longrightarrow> cmd \<noteq> CmdDisconnected cl"
  shows "informed (d\<lparr>d_mail := d_mail d @ [cmd]\<rparr>) cl ses"
proof -
  have "\<not> registers ch cmd" for ch using assms(3) by (cases cmd) auto
  with assms show ?thesis
    by (auto simp: informed_def linked_def expects_def shown_def reaching_snoc)
qed

lemma task_sent_lists:
  assumes "lists_inv s" "sess_inv s" "map_of (x_sess s) cl = Some ses" "s_out ses = cmd # rest"
  shows "lists_inv (task_sent cl cmd rest ses s)"
proof -
  let ?t = "if s_phase ses = Closing then drop_session cl s else s\<lparr>x_sess := AList.update cl (ses\<lparr>s_out := rest\<rparr>) (x_sess s)\<rparr>"
  let ?d = "(x_d s)\<lparr>d_mail := d_mail (x_d s) @ [cmd]\<rparr>"
  have cmd: "if s_phase ses = Closing then cmd = CmdDisconnected cl else own_request cl cmd"
    using sess_inv_sending [OF assms(2,3)] assms(4) by (auto simp: sending_ok_def split: if_splits)
  have "informed ?d c old" if "map_of (x_sess ?t) c = Some old" for c old
  proof (rule informed_post)
    have "informed (x_d s) cl (ses\<lparr>s_out := rest\<rparr>)"
      using lists_informed [OF assms(1,3)] informed_same [of "x_d s" "x_d s" "ses\<lparr>s_out := rest\<rparr>" ses] by simp
    with that lists_informed [OF assms(1)] show "informed (x_d s) c old"
      by (auto simp: drop_session_def split: if_splits)
  qed (use cmd that in \<open>auto simp: own_request_def drop_session_def live_def split: if_splits\<close>)
  with assms(1) show ?thesis
    by (auto simp: task_sent_def lists_inv_def drop_session_def)
qed

text \<open>The reconciler moves on: the list changes, but what is still to come ends in the same list.\<close>

lemma informed_publish:
  assumes "informed d cl ses" "d_todo d = (cmd, iv, adv) # todo" "settles (d_todo d) (d_adv d) (hp_adv (d_hp d))"
  shows "informed (d\<lparr>d_inv := iv, d_adv := adv\<rparr>) cl ses"
proof -
  let ?d = "d\<lparr>d_inv := iv, d_adv := adv\<rparr>"
  have e: "expects ?d ses = expects d ses" by (simp add: expects_def fun_eq_iff)
  have "newest cmd_list (map fst (d_todo d)) adv = hp_adv (d_hp d)" using assms(2,3) by simp
  with expects_cases [of d ses] assms(1) show ?thesis
    by (auto simp: informed_def linked_def shown_def e)
qed

lemma informed_tell:
  assumes "informed d cl ses" "d_todo d = (cmd, iv, adv) # todo" "\<And>c ch. cmd \<noteq> CmdRegister c ch" "cmd \<noteq> CmdDisconnected cl"
  shows "informed (d\<lparr>d_todo := todo, d_mail := d_mail d @ [cmd]\<rparr>) cl ses"
proof -
  let ?d = "d\<lparr>d_todo := todo, d_mail := d_mail d @ [cmd]\<rparr>"
  have "\<not> registers ch cmd" for ch using assms(3) by (cases cmd) auto
  then have "shown ?d ses = shown d ses" "linked d cl ch \<Longrightarrow> linked ?d cl ch" for ch
    using assms(3,4) by (auto simp: shown_def linked_def reaching_snoc)
  moreover have "expects ?d ses l = newest cmd_list [cmd] (expects d ses l)" for l
    using \<open>\<And>ch. \<not> registers ch cmd\<close> by (simp add: expects_def reaching_snoc)
  ultimately show ?thesis using assms(1,2) by (simp add: informed_def)
qed

lemma tell_lists:
  assumes "lists_inv s" "list_all timely (d_todo (x_d s))" "sess_step fmt pol K P s EvTell t" shows "lists_inv t"
proof -
  obtain cmd iv adv todo where todo: "d_todo (x_d s) = (cmd, iv, adv) # todo"
    and t: "t = post cmd (s\<lparr>x_d := (x_d s)\<lparr>d_inv := iv, d_adv := adv, d_todo := todo\<rparr>\<rparr>)"
    using assms(3) by (auto simp: sess_step_def split: list.splits if_splits)
  have cmd: "cmd \<noteq> CmdRegister c ch" "cmd \<noteq> CmdDisconnected c" for c ch
    using assms(2) todo by (cases cmd; simp)+
  have set: "settles (d_todo (x_d s)) (d_adv (x_d s)) (hp_adv (d_hp (x_d s)))" using assms(1) by (simp add: lists_inv_def)
  have "informed ((x_d s)\<lparr>d_inv := iv, d_adv := adv, d_todo := todo, d_mail := d_mail (x_d s) @ [cmd]\<rparr>) cl ses"
    if "map_of (x_sess s) cl = Some ses" for cl ses
    using informed_tell [OF informed_publish [OF lists_informed [OF assms(1) that] todo set], of cmd iv adv todo] todo cmd
    by simp
  with set todo t show ?thesis by (simp add: lists_inv_def)
qed

lemma publish_lists:
  assumes "lists_inv s" "sess_step fmt pol K P s EvPublish t" shows "lists_inv t"
proof (cases "d_todo (x_d s)")
  case Nil
  with assms(1) have "d_adv (x_d s) = hp_adv (d_hp (x_d s))" by (simp add: lists_inv_def)
  with Nil assms(2) have t: "x_sess t = x_sess s" "d_mail (x_d t) = d_mail (x_d s)" "d_adv (x_d t) = d_adv (x_d s)"
    "d_todo (x_d t) = d_todo (x_d s)" "d_hp (x_d t) = d_hp (x_d s)" "d_sys (x_d t) = d_sys (x_d s)"
    by (auto simp: sess_step_def)
  have "informed (x_d t) cl ses" if "map_of (x_sess s) cl = Some ses" for cl ses
    using lists_informed [OF assms(1) that] informed_same [OF t(2-6) refl refl refl refl, of cl ses] by simp
  with assms(1) t show ?thesis by (simp add: lists_inv_def)
next
  case (Cons x todo)
  obtain cmd iv adv where x: "x = (cmd, iv, adv)" by (rule prod_cases3)
  have set: "settles (d_todo (x_d s)) (d_adv (x_d s)) (hp_adv (d_hp (x_d s)))" using assms(1) by (simp add: lists_inv_def)
  have "informed ((x_d s)\<lparr>d_inv := iv, d_adv := adv\<rparr>) cl ses" if "map_of (x_sess s) cl = Some ses" for cl ses
    using informed_publish [OF lists_informed [OF assms(1) that] Cons [unfolded x] set] .
  with assms(2) Cons x set show ?thesis
    by (auto simp: sess_step_def lists_inv_def)
qed

lemma pass_lists:
  assumes "lists_inv s" "sess_step fmt pol K P s (EvPass fs) t" shows "lists_inv t"
proof -
  obtain retry h where h: "reconcile fs fmt pol ((d_hp (x_d s))\<lparr>hp_out := []\<rparr>) = (retry, h)" by fastforce
  with assms(2) have t: "d_todo (x_d s) = []" "t = s\<lparr>x_d := (x_d s)\<lparr>d_hp := h, d_todo := hp_out h\<rparr>\<rparr>"
    by (auto simp: sess_step_def split: if_splits)
  have set: "settles (hp_out h) (hp_adv (d_hp (x_d s))) (hp_adv h)" by (rule reconcile_announces [OF h])
  have "informed ((x_d s)\<lparr>d_hp := h, d_todo := hp_out h\<rparr>) cl ses" if "map_of (x_sess s) cl = Some ses" for cl ses
    using lists_informed [OF assms(1) that] t(1) settles_newest [OF set]
    by (auto simp: informed_def linked_def expects_def shown_def)
  with set t assms(1) show ?thesis by (simp add: lists_inv_def)
qed

section \<open>Steps of the engine\<close>

lemma registry_kept:
  assumes "cmd \<noteq> CmdDisconnected c" "\<And>ch. cmd \<noteq> CmdRegister c ch"
  shows "map_of (control_reg (fst (snd (handle_command ok now cmd e)))) c = map_of (control_reg e) c"
  using assms
  by (cases cmd) (auto simp: handle_disconnected_def handle_release_cmd_def handle_resume_def handle_suspend_def
      handle_offer_def case_prod_beta Let_def split: option.splits)

text \<open>What an engine step pushes to a channel: the lists it is told to broadcast, if the channel is registered.\<close>

lemma pushed_none: "no_lists out \<Longrightarrow> newest ctl_list (pushed out ch) l = l"
proof (rule newest_none)
  fix m assume "no_lists out" "m \<in> set (pushed out ch)"
  then show "ctl_list m = None" by (cases m) (auto simp: pushed_def no_lists_def)
qed

lemma in_pushed: "m \<in> set (pushed out ch) \<longleftrightarrow> (ch, m) \<in> set out"
  by (force simp: pushed_def)

lemma in_broadcast: "(ch, m') \<in> set (handle_broadcast ok m e) \<longleftrightarrow> m' = m \<and> ok ch m \<and> (\<exists>c. (c, ch) \<in> set (control_reg e))"
proof -
  have "(ch, m') \<in> set (send ok ch' m) \<longleftrightarrow> m' = m \<and> ok ch m \<and> ch' = ch" for ch'
    by (auto simp: send_def)
  then show ?thesis by (simp add: handle_broadcast_def case_prod_beta) (metis fst_conv snd_conv surj_pair)
qed

lemma pushed_broadcast:
  assumes "\<And>m. ok ch m"
  shows "newest ctl_list (pushed (handle_broadcast ok (CtlAdvertise l') e) ch) l =
    (if \<exists>c. (c, ch) \<in> set (control_reg e) then l' else l)"
proof (cases "\<exists>c. (c, ch) \<in> set (control_reg e)")
  case True
  then have "CtlAdvertise l' \<in> set (pushed (handle_broadcast ok (CtlAdvertise l') e) ch)"
    using assms by (simp add: in_pushed in_broadcast)
  then have "pushed (handle_broadcast ok (CtlAdvertise l') e) ch \<noteq> []" by (auto simp only: empty_iff list.set)
  then have "newest ctl_list (pushed (handle_broadcast ok (CtlAdvertise l') e) ch) l = l'"
    by (rule newest_constant) (simp add: in_pushed in_broadcast)
  with True show ?thesis by simp
next
  case False
  have "newest ctl_list (pushed (handle_broadcast ok (CtlAdvertise l') e) ch) l = l"
    by (rule newest_none) (use False in \<open>simp add: in_pushed in_broadcast\<close>)
  with False show ?thesis by simp
qed

lemma pushed_command:
  assumes "handle_command ok now cmd e = (res, e', out)" "harmless cmd" "\<And>m. ok ch m" "distinct (map fst (control_reg e))"
  shows "newest ctl_list (pushed out ch) l =
    (if \<exists>c. map_of (control_reg e) c = Some ch then newest cmd_list [cmd] l else l)"
proof (cases "\<exists>m. cmd = CmdBroadcast m")
  case True
  with assms(1,2) obtain l' where "cmd = CmdBroadcast (CtlAdvertise l')" "out = handle_broadcast ok (CtlAdvertise l') e" by auto
  with pushed_broadcast [where ok = ok and ch = ch, of l' e l] assms(3,4) show ?thesis by simp
next
  case False
  then have "cmd_list cmd = None" by (cases cmd) auto
  moreover have "no_lists out" using handle_command_no_lists [of cmd ok now e] False assms(1) by auto
  ultimately show ?thesis by (simp add: pushed_none)
qed

lemma informed_handled:
  assumes "informed d cl ses" "d_mail d = cmd # mail"
    and "handle_command ok now cmd (eng (d_sys d)) = (res, e', out)"
    and "\<And>l. newest ctl_list ms l =
      (if \<exists>c. map_of (control_reg (eng (d_sys d))) c = Some (s_chan ses) then newest cmd_list [cmd] l else l)"
    and "\<And>c. CmdRegister c (s_chan ses) \<in> set (d_mail d) \<Longrightarrow> c = cl"
    and "s_chan ses' = s_chan ses" "s_conn ses' = s_conn ses" "s_inbox ses' = s_inbox ses @ ms"
    and "live ses' = live ses" "s_phase ses' = Greeting \<longleftrightarrow> s_phase ses = Greeting"
  shows "informed (d\<lparr>d_sys := \<lparr>eng = e', clock = now\<rparr>, d_mail := mail\<rparr>) cl ses'"
  unfolding informed_def
proof
  let ?d = "d\<lparr>d_sys := \<lparr>eng = e', clock = now\<rparr>, d_mail := mail\<rparr>" and ?ch = "s_chan ses"
  assume "live ses'"
  with assms(1,9) have linked: "linked d cl ?ch"
    and ends: "newest cmd_list (map fst (d_todo d)) (expects d ses (shown d ses l)) = hp_adv (d_hp d)" for l
    by (simp_all add: informed_def)
  have reg: "\<not> list_ex (registers ?ch) mail \<and> cmd = CmdRegister cl ?ch" if "registers ?ch cmd"
  proof
    show "cmd = CmdRegister cl ?ch" using that assms(2,5) by (cases cmd) auto
    show "\<not> list_ex (registers ?ch) mail"
    proof
      assume "list_ex (registers ?ch) mail"
      then obtain c where "CmdRegister c ?ch \<in> set mail" by (auto simp: list_ex_iff elim!: registers.elims)
      moreover from this assms(2,5) have "c = cl" by simp
      ultimately show False using linked that assms(2) by (auto simp: linked_def reaching_Cons)
    qed
  qed
  have "linked ?d cl ?ch \<and> (\<forall>l. expects ?d ses' l = expects d ses l)"
  proof (cases "registers ?ch cmd")
    case True
    with reg linked assms(2,3,4,6,8) show ?thesis
      by (auto simp: linked_def expects_def reaching_def)
  next
    case False
    show ?thesis
    proof (cases "list_ex (registers ?ch) mail")
      case True
      have "map_of (control_reg e') c \<noteq> Some ?ch" for c
        using registry_command [of ok now cmd "eng (d_sys d)" c ?ch] assms(2,3) False True linked
        by (auto simp: linked_def)
      with True False linked assms(2,4,6,8) show ?thesis
        by (auto simp: linked_def expects_def reaching_Cons)
    next
      case none: False
      have "map_of (control_reg e') cl = map_of (control_reg (eng (d_sys d))) cl"
        using registry_kept [of cmd cl ok now "eng (d_sys d)"] assms(2,3) False none linked
        by (auto simp: linked_def reaching_Cons)
      with none False linked assms(2,4,6,8) show ?thesis
        by (auto simp: linked_def expects_def reaching_def)
    qed
  qed
  moreover have "shown ?d ses' = shown d ses" using assms(7,10) by (simp add: shown_def fun_eq_iff)
  ultimately show "linked ?d cl (s_chan ses') \<and>
      (\<forall>l. newest cmd_list (map fst (d_todo ?d)) (expects ?d ses' (shown ?d ses' l)) = hp_adv (d_hp ?d))"
    using ends assms(6) by simp
qed

lemma replied_lookup:
  assumes "map_of (reply_to cmd res (push_all out ss)) cl = Some ses'"
  obtains ses where "map_of ss cl = Some ses" "s_chan ses' = s_chan ses" "s_conn ses' = s_conn ses"
    "s_inbox ses' = s_inbox ses @ pushed out (s_chan ses)" "live ses' = live ses"
    "s_phase ses' = Greeting \<longleftrightarrow> s_phase ses = Greeting"
proof -
  obtain mid where mid: "map_of (push_all out ss) cl = Some mid" "s_chan ses' = s_chan mid" "s_conn ses' = s_conn mid"
    "s_inbox ses' = s_inbox mid" "live ses' = live mid" "s_phase ses' = Greeting \<longleftrightarrow> s_phase mid = Greeting"
    using assms by (cases "(cmd, res)" rule: reply_to.cases) (auto simp: live_def split: if_splits)
  from mid(1) obtain ses where "map_of ss cl = Some ses" "mid = ses\<lparr>s_inbox := s_inbox ses @ pushed out (s_chan ses)\<rparr>"
    by (auto simp: push_all_def)
  with mid that show thesis by (auto simp: live_def)
qed

lemma session_listens: "map_of (x_sess s) cl = Some ses \<Longrightarrow> listening s (s_chan ses) m"
  by (auto simp: listening_def list_ex_iff dest!: map_of_SomeD)

lemma handle_lists:
  assumes "lists_inv s" "channels_inv s" "engine_inv (eng (d_sys (x_d s)))" "sess_step fmt pol K P s (EvHandle now) t"
  shows "lists_inv t"
  using assms(4)
proof (rule handled_state)
  fix cmd mail res e' out
  assume t: "d_mail (x_d s) = cmd # mail" "handle_command (listening s) now cmd (eng (d_sys (x_d s))) = (res, e', out)"
    "x_d t = (x_d s)\<lparr>d_sys := \<lparr>eng = e', clock = now\<rparr>, d_mail := mail\<rparr>"
    "x_sess t = reply_to cmd res (push_all out (x_sess s))"
  have harmless: "harmless cmd" using assms(2) t(1) by (simp add: channels_inv_def)
  have "informed (x_d t) cl ses'" if look: "map_of (x_sess t) cl = Some ses'" for cl ses'
  proof (rule replied_lookup [OF look [unfolded t(4)]])
    fix ses
    assume ses: "map_of (x_sess s) cl = Some ses" "s_chan ses' = s_chan ses" "s_conn ses' = s_conn ses"
      "s_inbox ses' = s_inbox ses @ pushed out (s_chan ses)" "live ses' = live ses"
      "s_phase ses' = Greeting \<longleftrightarrow> s_phase ses = Greeting"
    have own: "c = cl" if "CmdRegister c (s_chan ses) \<in> set (d_mail (x_d s))" for c
    proof -
      have "claims s c (s_chan ses)" "claims s cl (s_chan ses)" using that ses(1) by (auto simp: claims_def)
      with assms(2) show ?thesis by (simp add: channels_inv_def)
    qed
    show ?thesis
      unfolding t(3)
      by (rule informed_handled [OF lists_informed [OF assms(1) ses(1)] t(1,2) _ own ses(2-6)])
        (rule pushed_command [OF t(2) harmless session_listens [OF ses(1)] engine_invD(2) [OF assms(3)]])
  qed
  with assms(1) t(3) show ?thesis by (simp add: lists_inv_def)
qed

lemma timeout_lists:
  assumes "lists_inv s" "engine_inv (eng (d_sys (x_d s)))" "sess_step fmt pol K P s (EvTimeout now) t"
  shows "lists_inv t"
  using assms(3)
proof (rule timed_out_state)
  fix e' out
  assume t: "handle_timeout (listening s) now (eng (d_sys (x_d s))) = (e', out)"
    "x_d t = (x_d s)\<lparr>d_sys := \<lparr>eng = e', clock = now\<rparr>\<rparr>" "x_sess t = push_all out (x_sess s)"
  have reg: "control_reg e' = control_reg (eng (d_sys (x_d s)))"
    using handle_timeout_reg [OF assms(2), of "listening s" now] t(1) by simp
  have quiet: "no_lists out" using handle_timeout_no_lists [of "listening s" now "eng (d_sys (x_d s))"] t(1) by simp
  have "informed (x_d t) cl ses'" if "map_of (x_sess t) cl = Some ses'" for cl ses'
  proof -
    from that t(3) obtain ses where ses: "map_of (x_sess s) cl = Some ses"
      "ses' = ses\<lparr>s_inbox := s_inbox ses @ pushed out (s_chan ses)\<rparr>"
      by (auto simp: push_all_def)
    have "expects (x_d t) ses' = expects (x_d s) ses" "shown (x_d t) ses' = shown (x_d s) ses" "live ses' = live ses"
      "linked (x_d t) cl (s_chan ses') = linked (x_d s) cl (s_chan ses)"
      using ses(2) t(2) reg by (simp_all add: expects_def shown_def live_def linked_def fun_eq_iff pushed_none [OF quiet])
    with lists_informed [OF assms(1) ses(1)] t(2) show ?thesis by (simp add: informed_def)
  qed
  with assms(1) t(2) show ?thesis by (simp add: lists_inv_def)
qed

text \<open>
  A new client is shown the list of the moment; what is broadcast before it is registered does not
  reach it, and has not to.
\<close>

lemma informed_accept:
  assumes "informed d cl ses" "c \<noteq> cl" "ch \<noteq> s_chan ses"
  shows "informed (d\<lparr>d_open := S, d_next := n, d_mail := d_mail d @ [CmdRegister c ch]\<rparr>) cl ses"
  using assms by (auto simp: informed_def linked_def expects_def shown_def reaching_snoc)

lemma informed_new:
  assumes "settles (d_todo d) (d_adv d) (hp_adv (d_hp d))" "\<not> list_ex (registers ch) (d_mail d)"
    and "\<And>c. map_of (control_reg (eng (d_sys d))) c \<noteq> Some ch"
  shows "informed (d\<lparr>d_open := S, d_next := n, d_mail := d_mail d @ [CmdRegister cl ch]\<rparr>) cl (new_session cl ch iv k)"
  using assms by (simp add: informed_def linked_def expects_def shown_def new_session_def reaching_fresh settles_newest)

lemma accept_lists:
  assumes "lists_inv s" "channels_inv s" "sess_step fmt pol K P s EvAccept t" shows "lists_inv t"
proof -
  let ?ch = "x_next_chan s"
  obtain cl n where a: "alloc_client_id (d_next (x_d s)) = (cl, n)" by fastforce
  let ?d = "(x_d s)\<lparr>d_open := insert cl (d_open (x_d s)), d_next := n, d_mail := d_mail (x_d s) @ [CmdRegister cl ?ch]\<rparr>"
  from a assms(3) have t: "map_of (x_sess s) cl = None" "x_d t = ?d"
    "x_sess t = (cl, new_session cl ?ch (shared_inv s) (x_k s)) # x_sess s"
    by (auto simp: sess_step_def Let_def split: if_splits)
  have fresh: "\<not> claims s c ?ch" for c using assms(2) by (auto simp: channels_inv_def)
  then have "\<not> list_ex (registers ?ch) (d_mail (x_d s))" "map_of (control_reg (eng (d_sys (x_d s)))) c \<noteq> Some ?ch" for c
    by (auto simp: claims_def list_ex_iff elim!: registers.elims)
  with assms(1) have "informed ?d cl (new_session cl ?ch (shared_inv s) (x_k s))"
    by (intro informed_new) (auto simp: lists_inv_def)
  moreover have "informed ?d c ses" if "map_of (x_sess s) c = Some ses" for c ses
    using that t(1) fresh [of c] by (intro informed_accept lists_informed [OF assms(1) that]) (auto simp: claims_def)
  ultimately show ?thesis using assms(1) t(2,3) by (auto simp: lists_inv_def)
qed

section \<open>Every client is told\<close>

lemma lists_leave:
  assumes "lists_inv s" "map_of (x_sess s) cl = Some old" "\<not> live ses" "s_chan ses = s_chan old"
  shows "lists_inv (s\<lparr>x_sess := AList.update cl ses (x_sess s)\<rparr>)"
  by (rule lists_update [OF assms(1,2), where ses = ses]) (simp_all add: assms(3,4))

lemma task_step_lists:
  assumes "lists_inv s" "sess_inv s" "sess_step fmt pol K P s ev t"
    and "\<exists>cl wr req now. ev \<in> {EvGreet cl wr, EvRequest cl req wr now, EvControl cl wr now, EvAnswer cl wr now,
      EvAckTimeout cl now, EvHangup cl, EvClose cl, EvSend cl}"
  shows "lists_inv t"
  using assms
  by (cases ev) (auto simp: sess_step_def task_control_def task_close_def live_def simp del: process_control_message.simps
      split: option.splits if_splits list.splits task_phase.splits
      intro!: task_greet_lists task_request_lists lists_leave control_relay.keeps_lists answer_relay.keeps_lists
        ack_relay.keeps_lists task_sent_lists)

lemma sess_step_lists:
  assumes "full_inv fmt s" "lists_inv s" "sess_step fmt pol K P s ev t" shows "lists_inv t"
proof -
  have inv: "sess_inv s" "channels_inv s" "engine_inv (eng (d_sys (x_d s)))" "list_all timely (d_todo (x_d s))"
    using assms(1) engine_reach.reach_inv by (auto simp: full_inv_def daemon_inv_def)
  show ?thesis
  proof (cases ev)
    case (EvPass fs)
    with assms pass_lists show ?thesis by blast
  next
    case EvPublish
    with assms publish_lists show ?thesis by blast
  next
    case EvTell
    with assms inv tell_lists show ?thesis by blast
  next
    case EvAccept
    with assms inv accept_lists show ?thesis by blast
  next
    case (EvHandle now)
    with assms inv handle_lists show ?thesis by blast
  next
    case (EvTimeout now)
    with assms inv timeout_lists show ?thesis by blast
  qed (use task_step_lists [OF assms(2) inv(1) assms(3)] in auto)
qed

lemma sess_init_lists: "sess_init K k fb fs fmt var pol s \<Longrightarrow> lists_inv s"
  by (auto simp: sess_init_def lists_inv_def daemon_boot_def startup_hp_def case_prod_beta Let_def)

interpretation lists_system: invariant_system "sess_init K k fb fs fmt var pol" "sess_step fmt pol K P"
  "\<lambda>s. full_inv fmt s \<and> lists_inv s"
  for K k fb fs fmt var pol P
  by unfold_locales (auto intro: sess_init_full sess_init_lists sess_step_full sess_step_lists)

lemma newest_last:
  assumes "\<And>l. newest msg_list w l = a"
  shows "\<exists>pre post f. w = pre @ (MsgAdvertise a, f) # post \<and> (\<forall>l f. (MsgAdvertise l, f) \<notin> set post)"
  using assms
proof (induction w rule: rev_induct)
  case Nil
  from Nil [of "[]"] Nil [of "[Drm 0]"] show ?case by simp
next
  case (snoc m w)
  show ?case
  proof (cases "msg_list m")
    case None
    with snoc obtain pre post f where "w = pre @ (MsgAdvertise a, f) # post" "\<forall>l f. (MsgAdvertise l, f) \<notin> set post" by auto
    moreover from None have "\<forall>l f. m \<noteq> (MsgAdvertise l, f)" by auto
    ultimately have "w @ [m] = pre @ (MsgAdvertise a, f) # post @ [m] \<and> (\<forall>l f. (MsgAdvertise l, f) \<notin> set (post @ [m]))"
      by auto
    then show ?thesis by blast
  next
    case (Some l')
    with snoc(2) have "l' = a" by simp
    with Some obtain f where "m = (MsgAdvertise a, f)" by (cases m rule: msg_list.cases) auto
    then show ?thesis by (intro exI [of _ w] exI [of _ "[]"] exI [of _ f]) simp
  qed
qed

text \<open>A keyboard is plugged into the machine with one card, and the third client reads its channel.\<close>

definition plugged_run :: "sess_event list" where
  "plugged_run =
     [EvPass demo_fs_unplugged, EvTell, EvPublish, EvTell, EvHandle 2, EvHandle 2, EvControl 3 all_ok 2]"

definition plugged :: "toy_k sessions" where
  "plugged = the (card_run plugged_run first_granted)"

lemma plugged_reachable: "card_reachable plugged"
proof -
  have "card_run plugged_run first_granted \<noteq> None" by code_simp
  then have "card_run plugged_run first_granted = Some plugged" by (auto simp: plugged_def)
  with late_reachable(1) show ?thesis by (rule run_reach)
qed

lemma plugged_daemon:
  "d_todo (x_d plugged) = [] \<and> d_mail (x_d plugged) = [] \<and> d_adv (x_d plugged) = [Drm 0, Input (Keyboard 0)]"
  by code_simp

lemma plugged_task:
  "map_option (\<lambda>ses. (s_phase ses, s_inbox ses, map fst (wire (s_conn ses)))) (map_of (x_sess plugged) 3) =
     Some (Ready, [], [MsgAdvertise [Drm 0], MsgAdvertise [Drm 0, Input (Keyboard 0)]])"
  by code_simp

text \<open>C18. No client is left with an old list of devices: in every state the daemon can reach, when the
  reconciler has nothing left to tell the engine, the engine's mailbox is empty and the task of a
  client has read its channel, then the last list this client was sent is the list that is now
  advertised, which is the one the reconciler's last pass arrived at - whatever was plugged,
  unplugged, registered or broadcast meanwhile, and in whatever order.\<close>

theorem clients_are_up_to_date:
  assumes "reach (sess_init K k fb fs fmt var pol) (sess_step fmt pol K P) s"
    and "map_of (x_sess s) cl = Some ses" "s_phase ses \<notin> {Greeting, Leaving, Closing}"
    and "d_todo (x_d s) = []" "d_mail (x_d s) = []" "s_inbox ses = []"
  shows "d_adv (x_d s) = hp_adv (d_hp (x_d s)) \<and>
    (\<exists>pre post f. wire (s_conn ses) = pre @ (MsgAdvertise (d_adv (x_d s)), f) # post \<and>
      (\<forall>l f. (MsgAdvertise l, f) \<notin> set post))"
proof
  have inv: "lists_inv s" using lists_system.reach_inv [OF assms(1)] by simp
  with assms(4) show adv: "d_adv (x_d s) = hp_adv (d_hp (x_d s))" by (simp add: lists_inv_def)
  from lists_informed [OF inv assms(2)] assms(3-6) adv
  have "newest msg_list (wire (s_conn ses)) l = d_adv (x_d s)" for l
    by (simp add: informed_def live_def expects_def shown_def reaching_def)
  then show "\<exists>pre post f. wire (s_conn ses) = pre @ (MsgAdvertise (d_adv (x_d s)), f) # post \<and>
      (\<forall>l f. (MsgAdvertise l, f) \<notin> set post)"
    by (rule newest_last)
qed

theorem clients_are_up_to_date_witness:
  "\<exists>ses. map_of (x_sess plugged) 3 = Some ses \<and>
     map fst (wire (s_conn ses)) = [MsgAdvertise [Drm 0], MsgAdvertise [Drm 0, Input (Keyboard 0)]] \<and>
     (\<exists>pre post f. wire (s_conn ses) = pre @ (MsgAdvertise [Drm 0, Input (Keyboard 0)], f) # post \<and>
       (\<forall>l f. (MsgAdvertise l, f) \<notin> set post))"
proof -
  obtain ses where ses: "map_of (x_sess plugged) 3 = Some ses" "s_phase ses = Ready" "s_inbox ses = []"
    "map fst (wire (s_conn ses)) = [MsgAdvertise [Drm 0], MsgAdvertise [Drm 0, Input (Keyboard 0)]]"
    using plugged_task by auto
  have "\<exists>pre post f. wire (s_conn ses) = pre @ (MsgAdvertise (d_adv (x_d plugged)), f) # post \<and>
      (\<forall>l f. (MsgAdvertise l, f) \<notin> set post)"
    by (rule conjunct2 [OF clients_are_up_to_date [OF plugged_reachable ses(1)]]) (simp_all add: ses plugged_daemon)
  with ses(1,4) show ?thesis unfolding plugged_daemon [THEN conjunct2, THEN conjunct2]
    by (intro exI [of _ ses] conjI)
qed

end
