(* ===== verification/Hotplug_Timed.thy ===== *)
theory Hotplug_Timed
  imports Hotplug_Watch
begin

text \<open>
  The reconciler's loops in time: the sleeps and the safety interval of \<open>run_watched\<close>,
  \<open>run_polling\<close> and \<open>Watch::changed\<close> (\<open>src/resource_manager/hotplug.rs\<close>) around the untimed steps
  of the loops.  Instants are milliseconds.  The executor may be late: whatever has become ready is
  run within \<open>lag\<close> milliseconds, a parameter of the model; a pass itself takes no time.
\<close>

section \<open>State\<close>

definition COALESCE :: nat where
  "COALESCE = 200"

definition SAFETY_INTERVAL :: nat where
  "SAFETY_INTERVAL = 60 * 1000"

definition OPEN_RETRY :: nat where
  "OPEN_RETRY = 500"

definition FALLBACK_INTERVAL :: nat where
  "FALLBACK_INTERVAL = 2 * 1000"

lemmas interval_defs = COALESCE_def SAFETY_INTERVAL_def OPEN_RETRY_def FALLBACK_INTERVAL_def

text \<open>
  \<open>t_timer\<close> is when the task is next ready by itself: the end of the sleep it is in, or the moment it
  became runnable; \<open>t_safety\<close> is the next tick of the safety interval, \<open>t_last\<close> the last pass (or the
  start of the loops), \<open>t_since\<close> the first change of the directory no pass has looked at, and \<open>t_told\<close>
  the first of those the loops were told of (see \<open>w_told\<close>).
\<close>

record timed_watcher =
  t_w :: watcher
  t_now :: instant
  t_timer :: instant
  t_safety :: instant
  t_last :: instant
  t_since :: "instant option"
  t_told :: "instant option"

text \<open>How long the task sleeps in the phase it enters.\<close>

fun pause :: "watch_phase \<Rightarrow> nat" where
  "pause Settling = COALESCE"
| "pause (Retrying _) = OPEN_RETRY"
| "pause Polling = FALLBACK_INTERVAL"
| "pause _ = 0"

text \<open>\<open>run\<close>: the first tick of the safety interval is immediate and skipped.\<close>

definition timed_start :: "io_error + unit \<Rightarrow> fs_view \<Rightarrow> hp \<Rightarrow> bool \<Rightarrow> instant \<Rightarrow> timed_watcher" where
  "timed_start watch_new fs h stale now =
     (let w = run_start watch_new fs h stale
      in \<lparr>t_w = w, t_now = now, t_timer = now + pause (w_phase w), t_safety = now + SAFETY_INTERVAL,
          t_last = now, t_since = (if w_stale w then Some now else None), t_told = (if w_told w then Some now else None)\<rparr>)"

text \<open>
  When the task must run next.  \<open>select!\<close> waits for the watch and for the safety tick, from the
  moment the last pass is over; a tick that came due during the retries is taken there.
\<close>

definition due :: "timed_watcher \<Rightarrow> instant" where
  "due s =
     (case w_phase (t_w s) of
        Selecting \<Rightarrow> max (t_last s) (if w_ready (t_w s) then min (t_timer s) (t_safety s) else t_safety s)
      | Settling \<Rightarrow> max (t_last s) (min (t_timer s) (t_safety s))
      | _ \<Rightarrow> t_timer s)"

section \<open>Steps\<close>

datatype timed_event = Elapse nat | Act watch_event

definition by_itself :: "watch_event \<Rightarrow> bool" where
  "by_itself ev \<longleftrightarrow> ev \<notin> {NodeChange, SilentChange}"

text \<open>A sleep that is over, a tick that is due; the other steps wait for nothing but the executor.\<close>

definition ready :: "watch_event \<Rightarrow> timed_watcher \<Rightarrow> bool" where
  "ready ev s \<longleftrightarrow>
     (ev \<in> {Settled, RetryDue, Poll} \<longrightarrow> t_timer s \<le> t_now s) \<and> (ev = SafetyTick \<longrightarrow> t_safety s \<le> t_now s)"

text \<open>
  \<open>MissedTickBehavior::Delay\<close>: a tick taken late puts the next one a full interval after it was
  taken, a tick taken in time a full interval after it was due; \<open>next\<close> is between the two.
\<close>

definition next_tick :: "watch_event \<Rightarrow> timed_watcher \<Rightarrow> instant \<Rightarrow> bool" where
  "next_tick ev s next \<longleftrightarrow>
     (if ev = SafetyTick then t_safety s + SAFETY_INTERVAL \<le> next \<and> next \<le> t_now s + SAFETY_INTERVAL
      else next = t_safety s)"

definition looks :: "watch_event \<Rightarrow> bool" where
  "looks ev \<longleftrightarrow> ev \<in> {Pass, Poll}"

definition acted :: "watch_event \<Rightarrow> watcher \<Rightarrow> instant \<Rightarrow> timed_watcher \<Rightarrow> timed_watcher" where
  "acted ev w next s =
     s\<lparr>t_w := w, t_timer := t_now s + pause (w_phase w), t_safety := next,
       t_last := (if looks ev then t_now s else t_last s),
       t_since := (if looks ev then None else t_since s), t_told := (if looks ev then None else t_told s)\<rparr>"

text \<open>A change of the directory; one that the watch reports wakes a task that waits and was not ready.\<close>

definition since :: "bool \<Rightarrow> instant \<Rightarrow> instant option \<Rightarrow> instant option" where
  "since news now t = (if news \<and> t = None then Some now else t)"

definition changed :: "watch_event \<Rightarrow> watcher \<Rightarrow> timed_watcher \<Rightarrow> timed_watcher" where
  "changed ev w s =
     s\<lparr>t_w := w,
       t_timer := (if ev = NodeChange \<and> w_phase w = Selecting \<and> \<not> w_ready (t_w s) then t_now s else t_timer s),
       t_since := since True (t_now s) (t_since s),
       t_told := since (ev = NodeChange \<or> w_phase w = Polling) (t_now s) (t_told s)\<rparr>"

inductive timed_step ::
  "(resource \<Rightarrow> string) \<Rightarrow> policy \<Rightarrow> nat \<Rightarrow> timed_watcher \<Rightarrow> timed_event \<Rightarrow> timed_watcher \<Rightarrow> bool"
  for fmt :: "resource \<Rightarrow> string" and pol :: policy and lag :: nat where
  elapse:
    "t_now s + d \<le> due s + lag \<Longrightarrow> timed_step fmt pol lag s (Elapse d) (s\<lparr>t_now := t_now s + d\<rparr>)"
| act:
    "watch_step fmt pol (t_w s) ev w \<Longrightarrow> by_itself ev \<Longrightarrow> ready ev s \<Longrightarrow> next_tick ev s next \<Longrightarrow>
     timed_step fmt pol lag s (Act ev) (acted ev w next s)"
| change:
    "watch_step fmt pol (t_w s) ev w \<Longrightarrow> \<not> by_itself ev \<Longrightarrow>
     timed_step fmt pol lag s (Act ev) (changed ev w s)"

definition timed_init :: "(resource \<Rightarrow> string) \<Rightarrow> timed_watcher \<Rightarrow> bool" where
  "timed_init fmt s \<longleftrightarrow> inj fmt \<and> (\<exists>w fs h stale now. hp_ok fmt h \<and> s = timed_start w fs h stale now)"

section \<open>The timed loops refine the untimed ones\<close>

lemma timed_step_untimed:
  "timed_step fmt pol lag s ev t \<Longrightarrow>
    (case ev of Elapse d \<Rightarrow> t_w t = t_w s | Act e \<Rightarrow> watch_step fmt pol (t_w s) e (t_w t))"
  by (induction rule: timed_step.induct) (simp_all add: acted_def changed_def)

lemma timed_reach_untimed:
  assumes "reach (timed_init fmt) (timed_step fmt pol lag) s"
  shows "reach (watch_start fmt) (watch_step fmt pol) (t_w s)"
  using assms
proof (induction rule: reach.induct)
  case (reach_start s)
  then show ?case
    unfolding timed_init_def watch_start_def by (intro reach.reach_start) (force simp: timed_start_def Let_def)
next
  case (reach_step s e t)
  from timed_step_untimed [OF reach_step(2)] reach_step(3) show ?case
    by (cases e) (auto intro: reach.reach_step)
qed

section \<open>The invariant\<close>

text \<open>How old a change the loops were told of can be when the task's timer fires, by the phase the task is in.\<close>

fun backlog :: "nat \<Rightarrow> watch_phase \<Rightarrow> nat" where
  "backlog lag Selecting = 0"
| "backlog lag Settling = COALESCE + lag"
| "backlog lag (Reconciling _) = OPEN_RETRY + 2 * lag"
| "backlog lag (Retrying _) = OPEN_RETRY"
| "backlog lag Polling = FALLBACK_INTERVAL + lag"

text \<open>How long after the last pass the timer can fire.\<close>

fun respite :: "nat \<Rightarrow> watch_phase \<Rightarrow> nat" where
  "respite lag (Reconciling _) = SAFETY_INTERVAL + lag"
| "respite lag (Retrying _) = OPEN_RETRY"
| "respite lag Polling = SAFETY_INTERVAL + FALLBACK_INTERVAL + lag"
| "respite lag _ = SAFETY_INTERVAL + FALLBACK_INTERVAL + lag"

definition tick_inv :: "timed_watcher \<Rightarrow> bool" where
  "tick_inv s \<longleftrightarrow>
     (case w_phase (t_w s) of
        Reconciling _ \<Rightarrow> t_timer s \<le> t_now s \<and> t_safety s \<le> t_timer s + SAFETY_INTERVAL
      | Polling \<Rightarrow> True
      | ph \<Rightarrow> t_safety s \<le> t_last s + SAFETY_INTERVAL)"

definition timing :: "nat \<Rightarrow> timed_watcher \<Rightarrow> bool" where
  "timing lag s \<longleftrightarrow>
     (t_since s \<noteq> None \<longleftrightarrow> w_stale (t_w s)) \<and> (t_told s \<noteq> None \<longleftrightarrow> w_told (t_w s)) \<and>
     t_last s \<le> t_now s \<and> t_now s \<le> due s + lag \<and> tick_inv s \<and>
     t_timer s \<le> t_now s + pause (w_phase (t_w s)) \<and>
     (\<forall>t. t_since s = Some t \<longrightarrow> t_last s \<le> t \<and> t \<le> t_now s) \<and>
     (\<forall>t. t_told s = Some t \<longrightarrow> t_last s \<le> t \<and> t \<le> t_now s \<and> t_timer s \<le> t + backlog lag (w_phase (t_w s))) \<and>
     (w_phase (t_w s) \<notin> {Selecting, Settling} \<longrightarrow> t_timer s \<le> t_last s + respite lag (w_phase (t_w s)))"

definition timed_inv :: "(resource \<Rightarrow> string) \<Rightarrow> nat \<Rightarrow> timed_watcher \<Rightarrow> bool" where
  "timed_inv fmt lag s \<longleftrightarrow> watch_inv fmt (t_w s) \<and> timing lag s"

lemma timed_start_inv: "timed_init fmt s \<Longrightarrow> timed_inv fmt lag s"
proof -
  assume "timed_init fmt s"
  then obtain w fs h stale now where s: "inj fmt" "hp_ok fmt h" "s = timed_start w fs h stale now"
    by (auto simp: timed_init_def)
  then have "watch_inv fmt (run_start w fs h stale)" by (intro watch_start_inv) (auto simp: watch_start_def)
  with s(3) show ?thesis
    by (cases w) (auto simp: timed_inv_def timing_def timed_start_def Let_def due_def tick_inv_def run_start_def interval_defs)
qed

text \<open>A task that waits with a change unseen that it was told of is about to be woken.\<close>

lemma waiting_is_ready: "watch_inv fmt w \<Longrightarrow> w_told w \<Longrightarrow> w_phase w = Selecting \<Longrightarrow> w_ready w"
  by (simp add: watch_inv_def)

lemma looked_timing:
  assumes "timing lag s" "looks ev" "\<not> w_stale w" "\<not> w_told w"
    and "w_phase w = Polling \<or> w_phase (t_w s) = Reconciling n \<and> (w_phase w = Selecting \<or> (\<exists>m. w_phase w = Retrying m))"
  shows "timing lag (acted ev w (t_safety s) s)"
proof -
  have "timing lag (acted ev w (t_safety s) s) \<longleftrightarrow>
      t_now s \<le> due (acted ev w (t_safety s) s) + lag \<and> tick_inv (acted ev w (t_safety s) s) \<and>
      (w_phase w \<notin> {Selecting, Settling} \<longrightarrow> pause (w_phase w) \<le> respite lag (w_phase w))"
    using assms(2-4) by (simp add: timing_def acted_def)
  moreover have "t_safety s \<le> t_now s + SAFETY_INTERVAL" if "w_phase (t_w s) = Reconciling n"
    using assms(1) that by (simp add: timing_def tick_inv_def)
  ultimately show ?thesis
    using assms(2,5) by (auto simp: due_def tick_inv_def acted_def looks_def interval_defs)
qed

lemma timingD:
  assumes "timing lag s"
  shows "t_last s \<le> t_now s" "t_now s \<le> due s + lag" "tick_inv s" "t_timer s \<le> t_now s + pause (w_phase (t_w s))"
    and "t_told s = Some t \<Longrightarrow> t_last s \<le> t \<and> t \<le> t_now s \<and> t_timer s \<le> t + backlog lag (w_phase (t_w s))"
    and "w_phase (t_w s) \<notin> {Selecting, Settling} \<Longrightarrow> t_timer s \<le> t_last s + respite lag (w_phase (t_w s))"
  using assms by (simp_all add: timing_def)

text \<open>What is to be shown of a step that is no pass.\<close>

lemma unlooked_timing:
  assumes "timing lag s" "\<not> looks ev" "w_stale w = w_stale (t_w s)" "w_told w = w_told (t_w s)"
    and "t_now s \<le> due (acted ev w next s) + lag" "tick_inv (acted ev w next s)"
    and "\<And>t. t_told s = Some t \<Longrightarrow> t_now s + pause (w_phase w) \<le> t + backlog lag (w_phase w)"
    and "w_phase w \<notin> {Selecting, Settling} \<Longrightarrow> t_now s + pause (w_phase w) \<le> t_last s + respite lag (w_phase w)"
  shows "timing lag (acted ev w next s)"
  using assms by (simp add: timing_def acted_def)

lemma told_due:
  assumes "timing lag s" "watch_inv fmt (t_w s)" "t_told s = Some t"
  shows "t_now s \<le> t + backlog lag (w_phase (t_w s)) + lag"
proof -
  have "due s \<le> max (t_last s) (t_timer s)"
    using assms waiting_is_ready [OF assms(2)] by (auto simp: due_def timing_def split: watch_phase.split)
  with timingD(2) [OF assms(1)] timingD(5) [OF assms(1,3)] show ?thesis by (auto simp: max_def split: if_splits)
qed

lemma acted_timing:
  assumes "timing lag s" "watch_inv fmt (t_w s)" "watch_step fmt pol (t_w s) ev w"
    and "by_itself ev" "ready ev s" "next_tick ev s next"
  shows "timing lag (acted ev w next s)"
proof -
  note d = timingD [OF assms(1)] and told = told_due [OF assms(1,2)]
  note defs = looks_def next_tick_def due_def tick_inv_def acted_def interval_defs
  from assms(3) show ?thesis
  proof cases
    case (pass n retry s')
    with look_ok [of fmt pol "t_w s" retry s'] assms(2,6) show ?thesis
      by (auto intro!: looked_timing [OF assms(1), where n = n] simp: looks_def next_tick_def after_pass_def Let_def watch_inv_def)
  next
    case (poll retry)
    with look_ok [of fmt pol "t_w s" retry w] assms(2,6) show ?thesis
      by (auto intro!: looked_timing [OF assms(1)] simp: looks_def next_tick_def watch_inv_def)
  next
    case (woken events rest)
    show ?thesis
      by (rule unlooked_timing [OF assms(1)]) (use d(2,3) told woken assms(6) in \<open>simp_all add: defs\<close>)
  next
    case spurious
    then have "t_told s = None" using assms(1,2) by (auto simp: timing_def watch_inv_def)
    then show ?thesis
      by (intro unlooked_timing [OF assms(1)]) (use d(2,3) spurious assms(6) in \<open>simp_all add: defs\<close>)
  next
    case (settled events rest)
    show ?thesis
      by (rule unlooked_timing [OF assms(1)]) (use d(1-3) told settled assms(5,6) in \<open>auto simp: defs dest: told\<close>)
  next
    case safety_tick
    show ?thesis
      by (rule unlooked_timing [OF assms(1)]) (use d(2,3) safety_tick assms(6) in \<open>auto simp: defs dest!: told split: if_splits\<close>)
  next
    case watch_failed
    show ?thesis
      by (rule unlooked_timing [OF assms(1)]) (use d(2,3) watch_failed assms(6) in \<open>auto simp: defs dest!: told split: if_splits\<close>)
  next
    case (retry_due n)
    have "t_now s \<le> t_timer s + lag" "t_safety s \<le> t_last s + SAFETY_INTERVAL" "t_timer s \<le> t_last s + OPEN_RETRY"
      using d(2,3,6) retry_due by (simp_all add: due_def tick_inv_def)
    then show ?thesis
      by (intro unlooked_timing [OF assms(1)]) (use d(1) told retry_due assms(6) in \<open>simp_all add: defs\<close>)
  qed (use assms(4) in \<open>simp_all add: by_itself_def\<close>)
qed

text \<open>A change leaves the phase alone, and the timer unless it wakes the task.\<close>

lemma changed_timing:
  assumes "timing lag s" "watch_inv fmt (t_w s)" "watch_step fmt pol (t_w s) ev w" "\<not> by_itself ev"
  shows "timing lag (changed ev w s)"
proof -
  let ?t = "changed ev w s" and ?ph = "w_phase (t_w s)"
  note d = timingD [OF assms(1)]
  from assms(3) have w: "w_phase w = ?ph" "w_stale w" "w_told w \<longleftrightarrow> w_told (t_w s) \<or> ev = NodeChange \<or> ?ph = Polling"
    "?ph = Selecting \<Longrightarrow> w_ready w \<longleftrightarrow> w_ready (t_w s) \<or> ev = NodeChange"
    by (cases, use assms(4) in \<open>auto simp: by_itself_def\<close>)+
  have timer: "t_timer ?t = (if ev = NodeChange \<and> ?ph = Selecting \<and> \<not> w_ready (t_w s) then t_now s else t_timer s)"
    by (simp add: changed_def w(1))
  have "due ?t = due s \<or> due ?t = max (t_last s) (min (t_now s) (t_safety s)) \<and> due s = max (t_last s) (t_safety s)"
    using w(1,4) by (auto simp: due_def changed_def split: watch_phase.split)
  with d(2) have due: "t_now s \<le> due ?t + lag" by auto
  have tick: "tick_inv ?t" using d(3) w(1) by (auto simp: tick_inv_def changed_def split: watch_phase.splits)
  have told: "t_last s \<le> t \<and> t \<le> t_now s \<and> t_timer ?t \<le> t + backlog lag ?ph" if "t_told ?t = Some t" for t
  proof (cases "t_told s")
    case None
    with that have "t = t_now s" by (auto simp: changed_def since_def split: if_splits)
    with d(1,4) timer show ?thesis by (cases ?ph) (auto simp: interval_defs)
  next
    case (Some t0)
    with that have "t = t0" by (simp add: changed_def since_def)
    moreover have "w_told (t_w s)" using Some assms(1) by (simp add: timing_def)
    ultimately show ?thesis using d(5) [OF Some] timer waiting_is_ready [OF assms(2)] by auto
  qed
  show ?thesis
    unfolding timing_def using assms(1) w d(1,4,6) due tick told timer
    by (auto simp: timing_def changed_def since_def)
qed

lemma timed_step_inv:
  assumes "timed_inv fmt lag s" "timed_step fmt pol lag s ev t" shows "timed_inv fmt lag t"
proof -
  have inv: "watch_inv fmt (t_w s)" "timing lag s" using assms(1) by (simp_all add: timed_inv_def)
  have "watch_inv fmt (t_w t)"
    using timed_step_untimed [OF assms(2)] inv(1) by (cases ev) (auto intro: watch_step_inv)
  moreover from assms(2) have "timing lag t"
  proof cases
    case (elapse d)
    with inv(2) show ?thesis
      by (auto simp: timing_def tick_inv_def due_def split: watch_phase.splits if_splits)
  qed (simp_all add: acted_timing [OF inv(2,1)] changed_timing [OF inv(2,1)])
  ultimately show ?thesis by (simp add: timed_inv_def)
qed

interpretation timed_loop: invariant_system "timed_init fmt" "timed_step fmt pol lag" "timed_inv fmt lag" for fmt pol lag
  by unfold_locales (rule timed_start_inv, assumption, rule timed_step_inv, assumption+)

section \<open>Every change is seen in time\<close>

text \<open>What the reconciler and the clock do without anything else happening.\<close>

definition own_step :: "(resource \<Rightarrow> string) \<Rightarrow> policy \<Rightarrow> nat \<Rightarrow> timed_watcher \<Rightarrow> timed_watcher \<Rightarrow> bool" where
  "own_step fmt pol lag s t \<longleftrightarrow>
     (\<exists>ev. timed_step fmt pol lag s ev t \<and>
        (case ev of Elapse _ \<Rightarrow> True | Act e \<Rightarrow> by_itself e \<and> e \<noteq> WatchFailed))"

abbreviation own_steps :: "(resource \<Rightarrow> string) \<Rightarrow> policy \<Rightarrow> nat \<Rightarrow> timed_watcher \<Rightarrow> timed_watcher \<Rightarrow> bool" where
  "own_steps fmt pol lag \<equiv> (own_step fmt pol lag)\<^sup>*\<^sup>*"

lemma own_act:
  assumes "watch_step fmt pol (t_w s) ev w" "by_itself ev" "ev \<noteq> WatchFailed" "ready ev s" "next_tick ev s next"
  shows "own_step fmt pol lag s (acted ev w next s)"
  unfolding own_step_def using act [OF assms(1,2,4,5)] assms(2,3) by (intro exI [of _ "Act ev"]) simp

text \<open>The clock can run up to the moment the task is due.\<close>

definition at_due :: "timed_watcher \<Rightarrow> timed_watcher" where
  "at_due s = s\<lparr>t_now := max (t_now s) (due s)\<rparr>"

lemma own_wait: "t_now s \<le> due s + lag \<Longrightarrow> own_step fmt pol lag s (at_due s)"
  unfolding own_step_def at_due_def
  using elapse [of s "due s - t_now s" lag fmt pol] by (intro exI [of _ "Elapse (due s - t_now s)"]) (auto simp: max_def)

lemma at_due_simps [simp]: "t_w (at_due s) = t_w s" "t_timer (at_due s) = t_timer s"
  "t_safety (at_due s) = t_safety s" "due s \<le> t_now (at_due s)"
  by (simp_all add: at_due_def)

text \<open>Each phase leads to a pass.\<close>

lemma reconciling_seen:
  assumes "w_phase (t_w s) = Reconciling n"
  shows "\<exists>u. own_steps fmt pol lag s u \<and> t_since u = None"
proof -
  let ?w = "(snd (look fmt pol (t_w s)))\<lparr>w_phase := after_pass (fst (look fmt pol (t_w s))) n\<rparr>"
  have "own_step fmt pol lag s (acted Pass ?w (t_safety s) s)"
    by (rule own_act [OF watch_step.pass [OF assms prod.collapse [symmetric]]])
      (simp_all add: by_itself_def ready_def next_tick_def)
  moreover have "t_since (acted Pass ?w (t_safety s) s) = None" by (simp add: acted_def looks_def)
  ultimately show ?thesis by blast
qed

lemma step_seen:
  assumes "own_step fmt pol lag s t" "\<exists>u. own_steps fmt pol lag t u \<and> t_since u = None"
  shows "\<exists>u. own_steps fmt pol lag s u \<and> t_since u = None"
  using assms by (blast intro: converse_rtranclp_into_rtranclp)

lemma polling_seen:
  assumes "w_phase (t_w s) = Polling" "t_now s \<le> due s + lag"
  shows "\<exists>u. own_steps fmt pol lag s u \<and> t_since u = None"
proof (rule step_seen [OF own_wait [OF assms(2)]])
  let ?w = "snd (look fmt pol (t_w s))"
  have "t_timer s \<le> t_now (at_due s)" using at_due_simps(4) [of s] assms(1) by (simp add: due_def)
  then have "own_step fmt pol lag (at_due s) (acted Poll ?w (t_safety s) (at_due s))"
    by (intro own_act watch_step.poll [of _ _ _ "fst (look fmt pol (t_w s))"])
      (simp_all add: assms(1) by_itself_def ready_def next_tick_def)
  moreover have "t_since (acted Poll ?w (t_safety s) (at_due s)) = None" by (simp add: acted_def looks_def)
  ultimately show "\<exists>u. own_steps fmt pol lag (at_due s) u \<and> t_since u = None" by blast
qed

lemma retrying_seen:
  assumes "w_phase (t_w s) = Retrying n" "t_now s \<le> due s + lag"
  shows "\<exists>u. own_steps fmt pol lag s u \<and> t_since u = None"
proof (rule step_seen [OF own_wait [OF assms(2)]])
  let ?w = "(t_w s)\<lparr>w_phase := Reconciling n\<rparr>"
  have "t_timer s \<le> t_now (at_due s)" using at_due_simps(4) [of s] assms(1) by (simp add: due_def)
  then have "own_step fmt pol lag (at_due s) (acted RetryDue ?w (t_safety s) (at_due s))"
    using retry_due [of "t_w s" n fmt pol] assms(1)
    by (intro own_act) (simp_all add: by_itself_def ready_def next_tick_def)
  then show "\<exists>u. own_steps fmt pol lag (at_due s) u \<and> t_since u = None"
    by (rule step_seen) (rule reconciling_seen [where n = n], simp add: acted_def)
qed

lemma settling_seen:
  assumes "w_phase (t_w s) = Settling" "t_now s \<le> due s + lag"
  shows "\<exists>u. own_steps fmt pol lag s u \<and> t_since u = None"
proof (rule step_seen [OF own_wait [OF assms(2)]])
  let ?s = "at_due s"
  have "min (t_timer s) (t_safety s) \<le> t_now ?s" using at_due_simps(4) [of s] assms(1) by (simp add: due_def)
  then consider "t_timer s \<le> t_now ?s" | "t_safety s \<le> t_now ?s" by linarith
  then show "\<exists>u. own_steps fmt pol lag ?s u \<and> t_since u = None"
  proof cases
    case 1
    have "own_step fmt pol lag ?s (acted Settled ((t_w s)\<lparr>w_phase := Reconciling 0, w_queue := []\<rparr>) (t_safety s) ?s)"
      using settled [of "t_w s" "w_queue (t_w s)" "[]" fmt pol] assms(1) 1
      by (intro own_act) (simp_all add: by_itself_def ready_def next_tick_def)
    then show ?thesis by (rule step_seen) (rule reconciling_seen [where n = 0], simp add: acted_def)
  next
    case 2
    have "own_step fmt pol lag ?s
        (acted SafetyTick ((t_w s)\<lparr>w_phase := Reconciling 0\<rparr>) (t_now ?s + SAFETY_INTERVAL) ?s)"
      using safety_tick [of "t_w s" fmt pol] assms(1) 2
      by (intro own_act) (simp_all add: by_itself_def ready_def next_tick_def)
    then show ?thesis by (rule step_seen) (rule reconciling_seen [where n = 0], simp add: acted_def)
  qed
qed

lemma idle_seen:
  assumes "w_phase (t_w s) = Selecting" "\<not> w_ready (t_w s)" "t_now s \<le> due s + lag"
  shows "\<exists>u. own_steps fmt pol lag s u \<and> t_since u = None"
proof (rule step_seen [OF own_wait [OF assms(3)]])
  let ?s = "at_due s"
  have "t_safety s \<le> t_now ?s" using at_due_simps(4) [of s] assms(1,2) by (simp add: due_def)
  then have "own_step fmt pol lag ?s (acted SafetyTick ((t_w s)\<lparr>w_phase := Reconciling 0\<rparr>) (t_now ?s + SAFETY_INTERVAL) ?s)"
    using safety_tick [of "t_w s" fmt pol] assms(1)
    by (intro own_act) (simp_all add: by_itself_def ready_def next_tick_def)
  then show "\<exists>u. own_steps fmt pol lag ?s u \<and> t_since u = None"
    by (rule step_seen) (rule reconciling_seen [where n = 0], simp add: acted_def)
qed

lemma act_due:
  assumes "timed_inv fmt lag s" "watch_step fmt pol (t_w s) ev w" "by_itself ev" "ready ev s" "next_tick ev s next"
  shows "t_now (acted ev w next s) \<le> due (acted ev w next s) + lag"
  using timed_step_inv [OF assms(1) act [OF assms(2-5)]] by (simp only: timed_inv_def timing_def)

lemma selecting_seen:
  assumes "w_phase (t_w s) = Selecting" "timed_inv fmt lag s"
  shows "\<exists>u. own_steps fmt pol lag s u \<and> t_since u = None"
proof (cases "w_ready (t_w s)")
  case False
  then show ?thesis by (rule idle_seen [OF assms(1)]) (use assms(2) in \<open>simp add: timed_inv_def timing_def\<close>)
next
  case ready: True
  have ok: "by_itself ev" "ev \<noteq> WatchFailed" "ready ev s" "next_tick ev s (t_safety s)" if "ev \<in> {Woken, Spurious}" for ev
    using that by (auto simp: by_itself_def ready_def next_tick_def)
  show ?thesis
  proof (cases "w_queue (t_w s) = []")
    case True
    have step: "watch_step fmt pol (t_w s) Spurious ((t_w s)\<lparr>w_ready := False\<rparr>)"
      by (rule spurious [OF assms(1) ready True])
    show ?thesis
      by (rule step_seen [OF own_act [OF step ok], simplified], rule idle_seen)
        (use assms(1) act_due [OF assms(2) step ok(1,3,4)] in \<open>simp_all add: acted_def\<close>)
  next
    case False
    have step: "watch_step fmt pol (t_w s) Woken ((t_w s)\<lparr>w_phase := Settling, w_queue := [], w_ready := False\<rparr>)"
      by (rule woken [OF assms(1) ready, of "w_queue (t_w s)"]) (simp_all add: False)
    show ?thesis
      by (rule step_seen [OF own_act [OF step ok], simplified], rule settling_seen)
        (use act_due [OF assms(2) step ok(1,3,4)] in \<open>simp_all add: acted_def\<close>)
  qed
qed

lemma pending_is_seen:
  assumes inv: "timed_inv fmt lag s"
  shows "\<exists>u. own_steps fmt pol lag s u \<and> t_since u = None"
proof -
  have due: "t_now s \<le> due s + lag" using assms by (simp add: timed_inv_def timing_def)
  show ?thesis
    using selecting_seen [OF _ inv] settling_seen [OF _ due] reconciling_seen retrying_seen [OF _ due] polling_seen [OF _ due]
    by (cases "w_phase (t_w s)") blast+
qed

text \<open>The bounds the invariant gives, for an unseen change and for the last pass.\<close>

lemma told_age:
  assumes "timed_inv fmt lag s" "t_told s = Some t"
  shows "t_now s \<le> t + (if w_phase (t_w s) = Polling then FALLBACK_INTERVAL + 2 * lag else OPEN_RETRY + 3 * lag)"
  using told_due [of lag s fmt t] assms by (cases "w_phase (t_w s)") (auto simp: timed_inv_def interval_defs)

lemma last_pass_age:
  assumes "timed_inv fmt lag s"
  shows "t_now s \<le> t_last s + SAFETY_INTERVAL + (if w_phase (t_w s) = Polling then FALLBACK_INTERVAL else 0) + 2 * lag"
  using assms
  by (cases "w_phase (t_w s)") (auto simp: timed_inv_def timing_def due_def tick_inv_def interval_defs split: if_splits)

text \<open>C23. A change of \<open>/dev/input\<close> is seen in time, wherever the loops start from.  In every state they can
  reach, a change that no pass has looked at yet and that the watch has reported (or that came while
  the directory was polled) is at most \<open>OPEN_RETRY\<close> (500 ms) old while the directory is watched, plus
  three times the executor's lateness, and at most \<open>FALLBACK_INTERVAL\<close> (2 s) plus twice the lateness
  when it is polled.  A change that was not reported, because it came before the watch was in place or
  because the watch's mask leaves it out, is at most \<open>SAFETY_INTERVAL\<close> (60 s) old, plus one
  \<open>FALLBACK_INTERVAL\<close> when the directory is polled, plus twice the lateness.  The loops are never stuck with either: letting time
  pass and running the reconciler, with no further change, leads to a pass.\<close>

theorem change_seen_in_time:
  assumes "reach (timed_init fmt) (timed_step fmt pol lag) s"
  shows "(\<forall>t. t_told s = Some t \<longrightarrow>
      t_now s \<le> t + (if w_phase (t_w s) = Polling then FALLBACK_INTERVAL + 2 * lag else OPEN_RETRY + 3 * lag)) \<and>
    (\<forall>t. t_since s = Some t \<longrightarrow>
      t_now s \<le> t + SAFETY_INTERVAL + (if w_phase (t_w s) = Polling then FALLBACK_INTERVAL else 0) + 2 * lag) \<and>
    (\<exists>u. own_steps fmt pol lag s u \<and> t_since u = None)"
proof (intro conjI allI impI)
  have inv: "timed_inv fmt lag s" by (rule timed_loop.reach_inv [OF assms])
  show "t_now s \<le> t + (if w_phase (t_w s) = Polling then FALLBACK_INTERVAL + 2 * lag else OPEN_RETRY + 3 * lag)"
    if "t_told s = Some t" for t by (rule told_age [OF inv that])
  show "t_now s \<le> t + SAFETY_INTERVAL + (if w_phase (t_w s) = Polling then FALLBACK_INTERVAL else 0) + 2 * lag"
    if "t_since s = Some t" for t
  proof -
    have "t_last s \<le> t" using inv that by (simp add: timed_inv_def timing_def)
    with last_pass_age [OF inv] show ?thesis by linarith
  qed
  show "\<exists>u. own_steps fmt pol lag s u \<and> t_since u = None" by (rule pending_is_seen [OF inv])
qed

text \<open>
  The demonstration machine: something has changed before the watch was in place, the mouse is
  unplugged 100 ms after the start, and 50 ms pass.
\<close>

definition demo_timed :: timed_watcher where
  "demo_timed =
     \<lparr>t_w = (run_start (Inr ()) demo_fs demo_start True)
        \<lparr>w_fs := demo_fs_unplugged, w_told := True, w_ready := True, w_queue := [NodeEvent]\<rparr>,
      t_now = 150, t_timer = 100, t_safety = 60000, t_last = 0, t_since = Some 0, t_told = Some 100\<rparr>"

lemma demo_timed_reach: "reach (timed_init show_resource) (timed_step show_resource FairQueue 50) demo_timed"
proof -
  let ?s = "timed_start (Inr ()) demo_fs demo_start True 0"
  let ?w = "(t_w ?s)\<lparr>w_fs := demo_fs_unplugged, w_stale := True, w_told := True, w_ready := True, w_queue := [NodeEvent]\<rparr>"
  let ?s1 = "?s\<lparr>t_now := t_now ?s + 100\<rparr>" and ?s2 = "changed NodeChange ?w (?s\<lparr>t_now := t_now ?s + 100\<rparr>)"
  have "timed_init show_resource ?s"
    unfolding timed_init_def using inj_show_resource demo_start_ok by blast
  moreover have "timed_step show_resource FairQueue 50 ?s (Elapse 100) ?s1"
    by (rule elapse) (simp add: timed_start_def run_start_def due_def interval_defs Let_def)
  moreover have "watch_step show_resource FairQueue (t_w ?s1) NodeChange ?w"
    using node_change [where fmt = show_resource and pol = FairQueue and s = "t_w ?s1" and fs = demo_fs_unplugged
        and ev = NodeEvent] by (simp add: timed_start_def run_start_def Let_def)
  then have "timed_step show_resource FairQueue 50 ?s1 (Act NodeChange) ?s2"
    by (rule change) (simp add: by_itself_def)
  moreover have "timed_step show_resource FairQueue 50 ?s2 (Elapse 50) (?s2\<lparr>t_now := t_now ?s2 + 50\<rparr>)"
    by (rule elapse) (simp add: timed_start_def run_start_def due_def interval_defs Let_def changed_def)
  ultimately have "reach (timed_init show_resource) (timed_step show_resource FairQueue 50) (?s2\<lparr>t_now := t_now ?s2 + 50\<rparr>)"
    by (blast intro: reach.intros)
  then show ?thesis by (simp add: demo_timed_def timed_start_def run_start_def changed_def since_def interval_defs Let_def)
qed

theorem change_seen_in_time_witness:
  "t_told demo_timed = Some 100 \<and> t_now demo_timed \<le> 100 + OPEN_RETRY + 3 * 50 \<and>
    t_since demo_timed = Some 0 \<and> t_now demo_timed \<le> 0 + SAFETY_INTERVAL + 2 * 50 \<and>
    (\<exists>u. own_steps show_resource FairQueue 50 demo_timed u \<and> t_since u = None)"
proof -
  have "t_told demo_timed = Some 100" "t_since demo_timed = Some 0" "w_phase (t_w demo_timed) = Selecting"
    by (simp_all add: demo_timed_def run_start_def Let_def)
  with change_seen_in_time [OF demo_timed_reach] show ?thesis by simp
qed

text \<open>C24. The reconciler never falls silent: in every state the loops can reach, the last pass (or the
  start of the loops) is at most \<open>SAFETY_INTERVAL\<close> (60 s) ago while the directory is watched, and at
  most one polling interval more after the watch has failed, plus twice the executor's lateness.\<close>

theorem pass_every_interval:
  assumes "reach (timed_init fmt) (timed_step fmt pol lag) s"
  shows "t_now s \<le> t_last s + SAFETY_INTERVAL + (if w_phase (t_w s) = Polling then FALLBACK_INTERVAL else 0) + 2 * lag"
  by (rule last_pass_age [OF timed_loop.reach_inv [OF assms]])

theorem pass_every_interval_witness:
  "t_now demo_timed \<le> t_last demo_timed + SAFETY_INTERVAL + 2 * 50"
  using pass_every_interval [OF demo_timed_reach] by (simp add: demo_timed_def run_start_def Let_def)

section \<open>The gap at startup\<close>

text \<open>Nothing changes in the directory any more, and the watch works.\<close>

definition quiet_step ::
  "(resource \<Rightarrow> string) \<Rightarrow> policy \<Rightarrow> nat \<Rightarrow> timed_watcher \<Rightarrow> timed_event \<Rightarrow> timed_watcher \<Rightarrow> bool" where
  "quiet_step fmt pol lag s ev t \<longleftrightarrow>
     timed_step fmt pol lag s ev t \<and> ev \<noteq> Act NodeChange \<and> ev \<noteq> Act WatchFailed"

definition timed_gap_inv :: "instant \<Rightarrow> hp \<Rightarrow> timed_watcher \<Rightarrow> bool" where
  "timed_gap_inv start h s \<longleftrightarrow>
     start + SAFETY_INTERVAL \<le> t_now s \<or>
     gap_inv h (t_w s) \<and> t_safety s = start + SAFETY_INTERVAL \<and> t_since s = Some start"

interpretation timed_gap: invariant_system "\<lambda>s. s = timed_start (Inr ()) fs h True start" "quiet_step fmt pol lag"
  "timed_gap_inv start h" for fs h start fmt pol lag
proof
  fix s assume "s = timed_start (Inr ()) fs h True start"
  then show "timed_gap_inv start h s" by (simp add: timed_gap_inv_def gap_inv_def timed_start_def run_start_def Let_def)
next
  fix s ev t assume inv: "timed_gap_inv start h s" and "quiet_step fmt pol lag s ev t"
  then have step: "timed_step fmt pol lag s ev t" "ev \<noteq> Act NodeChange" "ev \<noteq> Act WatchFailed" by (simp_all add: quiet_step_def)
  from step(1) show "timed_gap_inv start h t"
  proof cases
    case (act e w "next")
    show ?thesis
    proof (cases "start + SAFETY_INTERVAL \<le> t_now s")
      case True
      with act show ?thesis by (simp add: timed_gap_inv_def acted_def)
    next
      case False
      with inv act(5) have "gap_inv h (t_w s)" "e \<noteq> SafetyTick" by (auto simp: timed_gap_inv_def ready_def)
      with act(3,4) step(3) act(1) have False
        by (cases rule: watch_step.cases) (auto simp: gap_inv_def by_itself_def)
      then show ?thesis ..
    qed
  next
    case (change e w)
    from change(3) show ?thesis
      by cases (use inv step(2) change in \<open>auto simp: timed_gap_inv_def gap_inv_def changed_def since_def by_itself_def\<close>)
  qed (use inv in \<open>auto simp: timed_gap_inv_def\<close>)
qed

text \<open>C39. The gap before the watch is open for a full safety interval: if the directory changed after the
  daemon enumerated it and before the watch was in place, then for \<open>SAFETY_INTERVAL\<close> (60 s) from the
  start of the loops, as long as nothing else changes and the watch works, no pass is made and the
  change stays unseen; and the clock does get there.\<close>

theorem startup_gap_lasts:
  assumes "reach (\<lambda>s. s = timed_start (Inr ()) fs h True start) (quiet_step fmt pol lag) s"
    and "t_now s < start + SAFETY_INTERVAL"
  shows "t_since s = Some start \<and> w_hp (t_w s) = h \<and>
    (\<exists>u. quiet_step fmt pol lag s (Elapse (start + SAFETY_INTERVAL - t_now s)) u)"
proof -
  have inv: "gap_inv h (t_w s)" "t_safety s = start + SAFETY_INTERVAL" "t_since s = Some start"
    using timed_gap.reach_inv [OF assms(1)] assms(2) by (auto simp: timed_gap_inv_def)
  then have "timed_step fmt pol lag s (Elapse (start + SAFETY_INTERVAL - t_now s))
      (s\<lparr>t_now := t_now s + (start + SAFETY_INTERVAL - t_now s)\<rparr>)"
    using assms(2) by (intro elapse) (simp add: due_def gap_inv_def)
  with inv show ?thesis by (auto simp: quiet_step_def gap_inv_def)
qed

theorem startup_gap_lasts_witness:
  "\<exists>s. reach (\<lambda>s. s = timed_start (Inr ()) demo_fs_unplugged demo_start True 0) (quiet_step show_resource FairQueue 0) s \<and>
    t_now s = 59999 \<and> t_since s = Some 0 \<and> w_hp (t_w s) = demo_start \<and> w_fs (t_w s) = demo_fs_unplugged"
proof -
  let ?s = "timed_start (Inr ()) demo_fs_unplugged demo_start True 0"
  let ?t = "?s\<lparr>t_now := t_now ?s + 59999\<rparr>"
  have "timed_step show_resource FairQueue 0 ?s (Elapse 59999) ?t"
    by (rule elapse) (simp add: timed_start_def run_start_def due_def interval_defs Let_def)
  then have "quiet_step show_resource FairQueue 0 ?s (Elapse 59999) ?t" by (simp add: quiet_step_def)
  with reach_start [of "\<lambda>s. s = ?s", OF refl]
  have r: "reach (\<lambda>s. s = ?s) (quiet_step show_resource FairQueue 0) ?t" by (rule reach_step)
  from startup_gap_lasts [OF r] r show ?thesis
    by (intro exI [of _ ?t]) (simp add: timed_start_def run_start_def interval_defs Let_def)
qed

end
