(* ===== verification/Spec2Isabelle.thy ===== *)
theory Spec2Isabelle
  imports Session_Properties Session_Progress Session_Lists Hotplug_Timed
begin

text \<open>
  A verification library for the simple graphics controller: a daemon that owns the display cards,
  the framebuffer and the input devices of a machine and lends them to clients over a socket.

  \<^bold>\<open>The program.\<close>  \<open>src/main.rs\<close> opens the devices (\<open>src/resource_manager/\<close>), starts the policy
  engine (\<open>src/windowing/engine.rs\<close>, an actor with a mailbox that alone decides who owns what), the
  hot-plug reconciler (\<open>src/resource_manager/hotplug.rs\<close>) and the accept loop (\<open>src/server.rs\<close>), which
  gives every connection a task (\<open>src/client_handler/\<close>).  Tasks interact by sending commands to the
  engine, by the control messages the engine pushes to a connection, and by two shared structures:
  the inventory (fd table, DRM cards, input index) and the advertised list (\<open>src/types.rs\<close>).

  \<^bold>\<open>Theories and sources.\<close>
  \<^item> \<open>Sgc_Prelude\<close>: lemma collections, hash maps as association lists, reachability with the locale of
    inductive invariants, and the locales of queues that are served in a known order.
  \<^item> \<open>Sgc_Types\<close>: resource names, client identities, the advertised list (\<open>types.rs\<close>).
  \<^item> \<open>Windowing_Policy\<close>: \<open>policy.rs\<close>: \<open>decide\<close>, \<open>pop_waiter\<close>, \<open>requeue_waiter\<close>, the parser; every policy is an
    interpretation of a queue locale.
  \<^item> \<open>Engine_Model\<close>: \<open>engine.rs\<close>: slots, \<open>grant_next\<close>, \<open>force_reclaim\<close>, \<open>release_seat_inputs\<close>, \<open>acquire_one\<close>,
    \<open>release_one\<close>, every arm of \<open>handle_command\<close>, the timeout arm and the loop of \<open>run_engine\<close> as the
    step relation \<open>engine_step\<close>.  A hash map of slots is an association list with distinct keys.
  \<^item> \<open>Engine_Service\<close>, \<open>Engine_Invariants\<close>, \<open>Engine_Frames\<close>, \<open>Engine_Absence\<close>: the service order of a slot,
    the invariant of the engine and its preservation by every operation, what each operation leaves
    alone, and the suspended flags as a map of their own.
  \<^item> \<open>Engine_Properties\<close>, \<open>Engine_Timing\<close>, \<open>Engine_Laws\<close>, \<open>Engine_Seat\<close>, \<open>Engine_Arbiter\<close>, \<open>Engine_Runs\<close>: who
    loses and gains ownership, where grants go, timeouts, disconnects, suspend and resume, the seat's
    claim on inputs, the refinement of an abstract arbiter, and the runs of the documentation.
  \<^item> \<open>Rust_Numbers\<close>, \<open>Drm_Devices\<close>: \<open>drm.rs\<close>: the lease state machine and the discovery of cards.
  \<^item> \<open>Input_Devices\<close>, \<open>Inventory\<close>: \<open>input.rs\<close>, \<open>mod.rs\<close>, \<open>fbdev.rs\<close>: classification, probing, names, grants,
    startup, the consistency checker and the invariant it decides.
  \<^item> \<open>Hotplug\<close>, \<open>Hotplug_Invariants\<close>, \<open>Hotplug_Properties\<close>, \<open>Hotplug_Watch\<close>: \<open>hotplug.rs\<close>: the transitions
    \<open>reopen\<close>, \<open>adopt\<close>, \<open>suspend\<close>, \<open>resume\<close>, \<open>park\<close>, a whole \<open>reconcile\<close> pass as a refinement of four abstract
    transitions, the retry loop, and the loops of \<open>run\<close> around it as a step relation.
  \<^item> \<open>Hotplug_Timed\<close>: the same loops with a clock: the sleeps, the safety interval and its missed ticks, and an
    executor that may be late.  The loops start with or without an unseen change, and changes that the watch does
    not report are part of the model; the readiness of the watch is edge-triggered as in \<open>AsyncFd\<close>.  \<open>Hotplug_Displays\<close>: a pass leaves cards and framebuffer alone.
  \<^item> \<open>Client_Handler\<close>, \<open>Client_Properties\<close>: \<open>client_handler/\<close> and \<open>error.rs\<close>: frames, requests, pushed
    messages and the life of a connection.
  \<^item> \<open>Daemon\<close>: \<open>main.rs\<close> and \<open>server.rs\<close>: the policy from the environment, the policy map, the accept loop.
  \<^item> \<open>Daemon_System\<close>: the tasks of \<open>main\<close> side by side, with the mailbox between them, and the invariant
    that relates engine, mailbox, reconciler and connections.
  \<^item> \<open>Daemon_Sessions\<close>: the connection tasks of \<open>server.rs\<close> and \<open>client_handler/mod.rs\<close> inside that daemon: each
    with its control channel, its place in \<open>handle_connection\<close> and the command it is about to send, sharing the
    inventory and the kernel; a mailbox that is full makes senders wait;
    steps are a function of the event, and every step is a sequence of steps of \<open>Daemon_System\<close>.
  \<^item> \<open>Session_Cards\<close>, \<open>Session_Grants\<close>: what the tasks do to the cards and what they send, as invariants.  The
    contract of a handler is the locale \<open>task_handler\<close>, extended by \<open>card_handler\<close> and \<open>grant_handler\<close> and
    interpreted on every handler of the select loop.
  \<^item> \<open>Session_Demo\<close>, \<open>Session_Properties\<close>, \<open>Session_Progress\<close>: a run with three clients and one card, evaluated,
    what holds of the daemon with its tasks, and that every Acquire is answered.
  \<^item> \<open>Session_Lists\<close>: the advertised list on its way from the reconciler through the mailbox and the channels to
    the clients' sockets, as an invariant; \<open>relay_handler\<close> is the part of a handler's contract about lists.
  \<^item> This theory: what holds of the daemon as a whole.

  \<^bold>\<open>What is shown.\<close>  The engine keeps its slots well formed; ownership is lost only by release, disconnect
  or an expired revoke and gained only with a reply or a delivered Grant; a revoke is decided when its
  timeout has passed; slots serve their lines in order.  Leases are never lost nor doubled.  The fd
  table, the input index and the advertised list stay consistent through startup and every pass, and
  every change of the device directory that is reported is looked at.  Frames may be split anywhere.  For the whole
  daemon, under every interleaving: the engine is only driven as its theorems assume, it agrees with
  the reconciler about every device, pushed lists are current when they are delivered, and what is
  advertised can be handed out.  With the tasks spelled out: kernel and registry agree on the leases,
  the registry and the messages are well typed, a client is granted only what the engine has
  decided, every Acquire is answered, and a client that has
  nothing left to read has been sent the current list.  In time: a change of the device directory is looked at
  within half a second when the watch reports it, within two when the directory is polled and within
  the safety interval of a minute in every case, give or take the executor's lateness, and a pass is made in every safety interval.  Some theorems state where
  the code departs from its comments: a
  revoke that a suspend forgets, a seat that is in a device's line already and cannot take the device, a grant of an absent device, a lease killed by a foreign release, a
  replaced device that is not handed over, a device advertised before it is offered, a gap of a
  minute before the watch, a Grant delivered so late that it takes the card from its owner.

  \<^bold>\<open>Parameters and hypotheses.\<close>  Code outside the repository is a parameter.  \<open>send_ok\<close>: whether a channel
  send succeeds, any predicate.  \<open>drm_kernel\<close>: the calls of the \<open>drm\<close> crate; \<open>lease_kernel\<close> says what
  creating and revoking a lease do to the live leases.  \<open>fs_view\<close>: the answers of the file system,
  sysfs and the \<open>evdev\<close> probe, one view per pass.  \<open>fmt\<close>: the derived debug format of a resource, assumed
  injective.  \<open>protocol\<close>: the codec of the wire crate; \<open>framing\<close> says that a request decodes to itself,
  and the frame header is assumed not to be empty.  \<open>engine_reply\<close> and \<open>write_result\<close>: what the engine
  answers to a connection task and what its socket does; with the tasks spelled out the answer comes
  from the engine itself and the outcome of the writes is part of the event.  \<open>fresh_cards\<close>: cards that
  have just been opened have different descriptors and no lease.  \<open>lag\<close>: how late the executor may run
  what is ready, any number.  Witnesses instantiate each of them.

  \<^bold>\<open>Bounds.\<close>  Identities and indices are machine words: 64 bits for client identities, 8 bits for device
  indices, where the theorems say how many connections and devices are allowed.  \<open>grant_next\<close> ends
  because each turn takes a waiter; a wake of the reconciler makes at most \<open>MAX_RETRIES\<close> passes; the
  frame loop is a partial function that is shown to return when the header is not empty.  No fuel is
  used.  Times are milliseconds as natural numbers; a pass over the directory takes no time.

  \<^bold>\<open>Granularity.\<close>  A handler of a connection task is one step: what it does to the cards happens under
  the registry's lock and ends before its write, and a write that blocks is a step that comes late;
  what others do between the two is not told apart.  Sending a command to the engine is a step of its
  own, which needs room in the mailbox (64 commands; that a full channel makes the sender wait, and that it
  keeps the order, is the documented behaviour of the runtime's channel); the task does nothing else until then.  The Deny
  of a grant that failed is written in the handler's step, so before its Release is sent.  A connection
  is accepted and registered in one step, when there is room.  A
  task that waits for the engine's answer to an Acquire handles nothing else meanwhile.  Client
  requests arrive one by one; the frames they come in are treated in \<open>Client_Properties\<close>.  The engine
  reads the clock once per step, where the timeout arm of the code reads it for each slot.  The list
  \<open>x_issued\<close> of the grants the engine has decided is a history variable: no step reads it.

  \<^bold>\<open>Not modelled.\<close>  Logging; binding and accepting on the abstract socket; the inotify and async file
  descriptors behind \<open>Watch\<close>; poisoned locks; builds without one of the backends;
  the unit and integration tests, packaging and scripts, which are not part of the daemon.
\<close>

section \<open>What holds of the daemon at all times\<close>

text \<open>C12. The engine inside the daemon is only ever driven the way its own theorems assume: in every
  state the daemon can reach, whatever the tasks have done in whatever order, the engine is in a
  state it reaches by its own admissible steps, and the command at the head of its mailbox is
  admissible, which an Acquire is only if its client is registered by then.\<close>

theorem daemon_drives_engine:
  assumes "reach (daemon_init K k fb fs fmt var pol) (daemon_step fmt pol) s"
  shows "reach engine_start engine_step (d_sys s) \<and>
    (\<forall>cmd mail. d_mail s = cmd # mail \<longrightarrow> admissible (eng (d_sys s)) cmd)"
  using daemon_system.reach_inv [OF assms] orderly_head unfolding daemon_inv_def by auto

theorem daemon_drives_engine_witness:
  "\<exists>s. demo_reachable demo_fs s \<and> d_mail s = [CmdAcquire 1 Fbdev] \<and>
    reach engine_start engine_step (d_sys s) \<and> admissible (eng (d_sys s)) (CmdAcquire 1 Fbdev)"
proof -
  let ?s1 = "(demo_boot demo_fs)\<lparr>d_open := insert 1 (d_open (demo_boot demo_fs)), d_next := 2,
    d_mail := d_mail (demo_boot demo_fs) @ [CmdRegister 1 101]\<rparr>"
  let ?s2 = "?s1\<lparr>d_mail := d_mail ?s1 @ [CmdAcquire 1 Fbdev]\<rparr>"
  let ?e = "eng (d_sys ?s2)"
  let ?s3 = "?s2\<lparr>d_sys := \<lparr>eng = ?e\<lparr>control_reg := AList.update 1 101 (control_reg ?e)\<rparr>, clock = 0\<rparr>, d_mail := [CmdAcquire 1 Fbdev]\<rparr>"
  have "daemon_step show_resource FairQueue (demo_boot demo_fs) (Connected_as 1 (adv_snapshot (d_adv (demo_boot demo_fs)))) ?s1"
    by (rule connect) (simp_all add: alloc_client_id_def)
  with demo_boot_reachable(1) have "demo_reachable demo_fs ?s1" by (rule reach_step)
  moreover have "daemon_step show_resource FairQueue ?s1 (Requested (CmdAcquire 1 Fbdev)) ?s2"
    by (rule request [of 1]) (simp_all add: own_request_def)
  ultimately have "demo_reachable demo_fs ?s2" by (rule reach_step)
  moreover have "daemon_step show_resource FairQueue ?s2 (Engine (Handled (CmdRegister 1 101) None [])) ?s3"
    by (rule handle [where ok = "\<lambda>_ _. True"]) simp_all
  ultimately have r: "demo_reachable demo_fs ?s3" by (rule reach_step)
  from daemon_drives_engine [OF r] have "reach engine_start engine_step (d_sys ?s3)" "admissible (eng (d_sys ?s3)) (CmdAcquire 1 Fbdev)"
    by simp_all
  with r show ?thesis by (intro exI [of _ ?s3]) simp
qed

text \<open>C13. The engine and the reconciler agree about every device whenever nothing is under way between
  them: with the mailbox empty and every command of the pass sent, the engine has a slot for exactly
  the inputs the reconciler holds, suspended exactly when the device is gone, the consistency checker
  reports nothing, and an Acquire of an advertised input is never denied as unknown or absent.\<close>

theorem daemon_agrees_when_quiet:
  assumes "reach (daemon_init K k fb fs fmt var pol) (daemon_step fmt pol) s"
    and "d_mail s = []" "d_todo s = []"
  shows "in_step (eng (d_sys s)) (hp_inv (d_hp s)) \<and>
    check_consistency (fds (hp_inv (d_hp s))) (inputs (hp_inv (d_hp s))) (hp_adv (d_hp s)) = [] \<and>
    (\<forall>r\<in>set (hp_adv (d_hp s)). is_input r \<longrightarrow>
       fst (acquire_one ok now c r (eng (d_sys s))) \<notin> {OutcomeDenied (NotRegistered r), OutcomeDenied (DeviceAway r)})"
proof -
  let ?e = "eng (d_sys s)"
  have inv: "hp_ok fmt (d_hp s)" "tracks (absence ?e) (hp_inv (d_hp s))"
    using daemon_system.reach_inv [OF assms(1)] assms(2,3) by (simp_all add: daemon_inv_def)
  have "fst (acquire_one ok now c r ?e) \<notin> {OutcomeDenied (NotRegistered r), OutcomeDenied (DeviceAway r)}"
    if "r \<in> set (hp_adv (d_hp s))" "is_input r" for r
  proof -
    have "absence ?e r = Some False"
      using tracks_current [OF inv(2) hp_okD(2) [OF inv(1)]] that by (simp add: current_list_def)
    then obtain sl where "map_of (slots ?e) r = Some sl" "\<not> suspended sl"
      by (auto simp: absence_def)
    then show ?thesis
      by (auto simp: acquire_one_def queue_waiter_def Let_def case_prod_beta
          split: option.splits acquire_decision.splits if_splits)
  qed
  moreover have "check_consistency (fds (hp_inv (d_hp s))) (inputs (hp_inv (d_hp s))) (hp_adv (d_hp s)) = []"
    using inv(1) by (simp add: hp_ok_def checker_decides)
  ultimately show ?thesis using inv(2) by (simp add: in_step_tracks)
qed

theorem daemon_agrees_when_quiet_witness:
  "in_step (eng (d_sys (demo_boot demo_fs))) (hp_inv (d_hp (demo_boot demo_fs))) \<and>
    fst (acquire_one (\<lambda>_ _. True) 0 1 (Input (Keyboard 0)) (eng (d_sys (demo_boot demo_fs)))) \<noteq>
      OutcomeDenied (NotRegistered (Input (Keyboard 0)))"
  using daemon_agrees_when_quiet [OF demo_boot_reachable(1), of "\<lambda>_ _. True" 0 1] by (simp add: demo_boot_lists)

text \<open>C14. A pushed list is never stale when it is delivered: at the moment the engine hands out an
  advertised list, the inputs it names are exactly those that have a slot whose device is present, so
  a client that acts on the list at once is not denied for want of the resource.\<close>

theorem pushed_list_is_current:
  assumes "reach (daemon_init K k fb fs fmt var pol) (daemon_step fmt pol) s"
    and "daemon_step fmt pol s (Engine (Handled (CmdBroadcast (CtlAdvertise rs)) res out)) t" "is_input r"
  shows "r \<in> set rs \<longleftrightarrow> (\<exists>sl. map_of (slots (eng (d_sys t))) r = Some sl \<and> \<not> suspended sl)"
proof -
  obtain mail where mail: "d_mail s = CmdBroadcast (CtlAdvertise rs) # mail" "eng (d_sys t) = eng (d_sys s)"
    using assms(2) by (rule daemon_handleE) auto
  then have "current_list (absence (eng (d_sys s))) rs"
    using daemon_system.reach_inv [OF assms(1)] by (simp add: daemon_inv_def)
  with assms(3) mail(2) show ?thesis
    by (auto simp: current_list_def absence_def)
qed

text \<open>A pass on the machine whose mice have been unplugged, up to its first pushed list.\<close>

lemma demo_push_reachable:
  obtains s t out where "demo_reachable demo_fs s"
    "daemon_step show_resource FairQueue s (Engine (Handled
       (CmdBroadcast (CtlAdvertise [Fbdev, Input (Keyboard 0), Input (Mouse 1)])) None out)) t"
proof -
  let ?s0 = "demo_boot demo_fs" and ?push = "CmdBroadcast (CtlAdvertise [Fbdev, Input (Keyboard 0), Input (Mouse 1)])"
  obtain retry h where h: "reconcile demo_fs_unplugged show_resource FairQueue ((d_hp ?s0)\<lparr>hp_out := []\<rparr>) = (retry, h)"
    by fastforce
  have "take 2 (map fst (hp_out (snd (reconcile demo_fs_unplugged show_resource FairQueue ((d_hp ?s0)\<lparr>hp_out := []\<rparr>))))) =
      [CmdSuspend (Input (Mouse 0)), ?push]"
    by code_simp
  then obtain i1 a1 i2 a2 todo where out: "hp_out h = (CmdSuspend (Input (Mouse 0)), i1, a1) # (?push, i2, a2) # todo"
    unfolding h by (cases "hp_out h" rule: remdups_adj.cases) auto
  let ?s1 = "?s0\<lparr>d_hp := h, d_todo := hp_out h\<rparr>"
  let ?s2 = "?s1\<lparr>d_inv := i1, d_adv := a1, d_todo := (?push, i2, a2) # todo, d_mail := d_mail ?s1 @ [CmdSuspend (Input (Mouse 0))]\<rparr>"
  let ?s3 = "?s2\<lparr>d_inv := i2, d_adv := a2, d_todo := todo, d_mail := d_mail ?s2 @ [?push]\<rparr>"
  let ?s4 = "?s3\<lparr>d_sys := \<lparr>eng = handle_suspend (Input (Mouse 0)) (eng (d_sys ?s3)), clock = 0\<rparr>, d_mail := [?push]\<rparr>"
  let ?out = "handle_broadcast (\<lambda>_ _. True) (CtlAdvertise [Fbdev, Input (Keyboard 0), Input (Mouse 1)]) (eng (d_sys ?s4))"
  have "daemon_step show_resource FairQueue ?s0 PassStarted ?s1"
    by (rule pass [OF _ h]) simp
  with demo_boot_reachable(1) have "demo_reachable demo_fs ?s1" by (rule reach_step)
  moreover have "daemon_step show_resource FairQueue ?s1 (Told (CmdSuspend (Input (Mouse 0)))) ?s2"
    by (rule tells) (simp add: out)
  ultimately have "demo_reachable demo_fs ?s2" by (rule reach_step)
  moreover have "daemon_step show_resource FairQueue ?s2 (Told ?push) ?s3"
    by (rule tells) simp
  ultimately have "demo_reachable demo_fs ?s3" by (rule reach_step)
  moreover have "daemon_step show_resource FairQueue ?s3 (Engine (Handled (CmdSuspend (Input (Mouse 0))) None [])) ?s4"
    by (rule handle [where ok = "\<lambda>_ _. True"]) simp_all
  ultimately have "demo_reachable demo_fs ?s4" by (rule reach_step)
  moreover have "daemon_step show_resource FairQueue ?s4 (Engine (Handled ?push None ?out))
      (?s4\<lparr>d_sys := \<lparr>eng = eng (d_sys ?s4), clock = 0\<rparr>, d_mail := []\<rparr>)"
    by (rule handle [where ok = "\<lambda>_ _. True"]) simp_all
  ultimately show thesis by (rule that)
qed

theorem pushed_list_is_current_witness:
  "\<exists>s. demo_reachable demo_fs s \<and>
    (\<exists>sl. map_of (slots (eng (d_sys s))) (Input (Keyboard 0)) = Some sl \<and> \<not> suspended sl) \<and>
    \<not> (\<exists>sl. map_of (slots (eng (d_sys s))) (Input (Mouse 0)) = Some sl \<and> \<not> suspended sl)"
proof -
  obtain s t out where run: "demo_reachable demo_fs s"
    "daemon_step show_resource FairQueue s (Engine (Handled
       (CmdBroadcast (CtlAdvertise [Fbdev, Input (Keyboard 0), Input (Mouse 1)])) None out)) t"
    by (rule demo_push_reachable)
  from pushed_list_is_current [OF run, of "Input (Keyboard 0)"] pushed_list_is_current [OF run, of "Input (Mouse 0)"]
    reach_step [OF run]
  show ?thesis by (intro exI [of _ t]) simp
qed

text \<open>What is advertised can be handed out: whenever a task looks, every input in the advertised
  list has a descriptor in the shared table, so that granting it can fail only if the descriptor
  cannot be duplicated.\<close>

theorem advertised_has_descriptor:
  assumes "reach (daemon_init K k fb fs fmt var pol) (daemon_step fmt pol) s"
    and "r \<in> set (d_adv s)" "is_input r"
  shows "\<exists>f. map_of (fds (d_inv s)) r = Some f \<and>
    grant_fd K' k' r (d_inv s) =
      (case k_try_clone K' k' f of
         (Inl e, k'') \<Rightarrow> (Inl (DupFailed r e), d_inv s, k'')
       | (Inr f', k'') \<Rightarrow> (Inr f', d_inv s, k''))"
proof -
  have "adv_backed (d_inv s) (d_adv s)"
    using daemon_system.reach_inv [OF assms(1)] by (simp add: daemon_inv_def)
  with assms(2,3) obtain f where "map_of (fds (d_inv s)) r = Some f"
    by (auto simp: adv_backed_def)
  moreover obtain i where "r = Input i" using assms(3) by (cases r) auto
  ultimately show ?thesis by (auto simp: dup_fd_def)
qed

theorem advertised_has_descriptor_witness:
  "\<exists>f. map_of (fds (d_inv (demo_boot demo_fs))) (Input (Keyboard 0)) = Some f"
  using advertised_has_descriptor [OF demo_boot_reachable(1), of "Input (Keyboard 0)" toy_kernel "(20, [])"]
  by (auto simp: demo_boot_lists)

section \<open>Connections as clients of the daemon\<close>

text \<open>Every connection is one of the daemon's clients: whatever its socket, its peer and the engine
  answer, the commands a connection task sends, from the registration on, are put into the mailbox by
  client steps of the daemon, in the order the task sends them, with nothing else changed; when the
  task has ended the connection is no longer open.\<close>

theorem connection_is_a_client:
  assumes "handle_connection E cl ch iv k adv ts = (st, c)"
    and "alloc_client_id (d_next s) = (cl, n)" "cl \<notin> d_open s"
  shows "daemon_steps fmt pol s
    (s\<lparr>d_mail := d_mail s @ told c, d_next := n,
       d_open := (case st of Ended _ \<Rightarrow> d_open s | _ \<Rightarrow> insert cl (d_open s))\<rparr>)"
proof -
  let ?t = "s\<lparr>d_mail := d_mail s @ told c, d_next := n,
       d_open := (case st of Ended _ \<Rightarrow> d_open s | _ \<Rightarrow> insert cl (d_open s))\<rparr>"
  let ?s1 = "s\<lparr>d_open := insert cl (d_open s), d_next := n, d_mail := d_mail s @ [CmdRegister cl ch]\<rparr>"
  have first: "daemon_steps fmt pol s ?s1"
    using connect [where fmt = fmt and pol = pol and ch = ch, OF assms(2,3)] by blast
  obtain body tail where told: "told c = CmdRegister cl ch # body @ tail" and body: "list_all (own_request cl) body"
    and tail: "tail = [CmdDisconnected cl] \<and> (\<exists>res. st = Ended res) \<or> tail = [] \<and> (\<forall>res. st \<noteq> Ended res) \<or>
       tail = [] \<and> body = [] \<and> (\<exists>res. st = Ended res)"
    using connection_session [OF assms(1)] by blast
  let ?s2 = "?s1\<lparr>d_mail := d_mail ?s1 @ body\<rparr>"
  have "daemon_steps fmt pol ?s1 ?s2"
    by (rule requests_are_steps [OF body]) simp
  with first have second: "daemon_steps fmt pol s ?s2" by (rule rtranclp_trans)
  have closed: "daemon_step fmt pol ?s2 (Closed cl)
      (?s2\<lparr>d_open := d_open ?s2 - {cl}, d_mail := d_mail ?s2 @ [CmdDisconnected cl]\<rparr>)"
    and broken: "daemon_step fmt pol ?s2 (Broken cl) (?s2\<lparr>d_open := d_open ?s2 - {cl}\<rparr>)"
    by (rule close, simp) (rule break_off, simp)
  from tail consider (ends) res where "tail = [CmdDisconnected cl]" "st = Ended res"
    | (lives) "tail = []" "\<And>res. st \<noteq> Ended res" | (broke) res where "tail = []" "body = []" "st = Ended res"
    by blast
  then show ?thesis
  proof cases
    case ends
    have "?s2\<lparr>d_open := d_open ?s2 - {cl}, d_mail := d_mail ?s2 @ [CmdDisconnected cl]\<rparr> = ?t"
      using ends told assms(3) by (cases s) simp
    with daemon_steps_step [OF second closed] show ?thesis by (simp only:)
  next
    case lives
    from lives(2) have "?s2 = ?t" using told lives(1) by (cases s; cases st) auto
    with second show ?thesis by (simp only:)
  next
    case broke
    have "?s2\<lparr>d_open := d_open ?s2 - {cl}\<rparr> = ?t"
      using broke told assms(3) by (cases s) simp
    with daemon_steps_step [OF second broken] show ?thesis by (simp only:)
  qed
qed

theorem connection_is_a_client_witness:
  "\<exists>t. daemon_steps show_resource FairQueue (demo_boot demo_fs) t \<and> d_open t = {} \<and>
    d_mail t = [CmdRegister 1 101, CmdDisconnected 1]"
proof -
  let ?ts = "[\<lparr>turn_now = 3, turn_inv = conn_inv toy_conn, turn_k = conn_k toy_conn, turn_event = WireReadable [ReadEof]\<rparr>]"
  let ?run = "handle_connection toy_env 1 101 (conn_inv toy_conn) (conn_k toy_conn) [Fbdev] ?ts"
  have run: "fst ?run = Ended (Inr ())" "told (snd ?run) = [CmdRegister 1 101, CmdDisconnected 1]" by code_simp+
  have "?run = (fst ?run, snd ?run)" by simp
  from connection_is_a_client [OF this, of "demo_boot demo_fs" 2 show_resource FairQueue] run
  show ?thesis
    by (intro exI [of _ "(demo_boot demo_fs)\<lparr>d_mail := [CmdRegister 1 101, CmdDisconnected 1], d_next := 2, d_open := {}\<rparr>"])
      (simp add: alloc_client_id_def)
qed

section \<open>A window\<close>

text \<open>C40. A client can be shown a resource the engine does not know yet: the reconciler puts an adopted
  device on the advertised list before it offers it to the engine, so that a client that connects in
  between is shown the device, and its Acquire is denied as unregistered.\<close>

theorem adopted_device_window:
  assumes "reach (daemon_init K k fb fs fmt var pol) (daemon_step fmt pol) s"
    and "d_todo s = (CmdOffer r p, iv, adv) # todo" "d_mail s = []" "map_of (slots (eng (d_sys s))) r = None"
    and "alloc_client_id (d_next s) = (c, n)" "c \<notin> d_open s"
  shows "\<exists>s1 s2 s3 s4 s5 rs. daemon_step fmt pol s Published s1 \<and>
    daemon_step fmt pol s1 (Connected_as c rs) s2 \<and> r \<in> set rs \<and>
    daemon_step fmt pol s2 (Requested (CmdAcquire c r)) s3 \<and>
    daemon_step fmt pol s3 (Engine (Handled (CmdRegister c ch) None [])) s4 \<and>
    daemon_step fmt pol s4 (Engine (Handled (CmdAcquire c r) (Some (OutcomeDenied (NotRegistered r))) [])) s5"
proof -
  have "timely (CmdOffer r p, iv, adv)"
    using daemon_system.reach_inv [OF assms(1)] assms(2) by (simp add: daemon_inv_def)
  then have r: "r \<in> set adv" by simp
  let ?s1 = "s\<lparr>d_inv := iv, d_adv := adv\<rparr>"
  let ?s2 = "?s1\<lparr>d_open := insert c (d_open ?s1), d_next := n, d_mail := d_mail ?s1 @ [CmdRegister c ch]\<rparr>"
  let ?s3 = "?s2\<lparr>d_mail := d_mail ?s2 @ [CmdAcquire c r]\<rparr>"
  let ?e = "eng (d_sys s)" and ?now = "clock (d_sys s)"
  let ?e4 = "?e\<lparr>control_reg := AList.update c ch (control_reg ?e)\<rparr>"
  let ?s4 = "?s3\<lparr>d_sys := \<lparr>eng = ?e4, clock = ?now\<rparr>, d_mail := [CmdAcquire c r]\<rparr>"
  have 1: "daemon_step fmt pol s Published ?s1" by (rule publish [OF assms(2)])
  have 2: "daemon_step fmt pol ?s1 (Connected_as c (adv_snapshot (d_adv ?s1))) ?s2"
    by (rule connect) (use assms(5,6) in simp_all)
  have 3: "r \<in> set (adv_snapshot (d_adv ?s1))" using r by (simp add: adv_snapshot_def)
  have 4: "daemon_step fmt pol ?s2 (Requested (CmdAcquire c r)) ?s3"
    by (rule request [of c]) (simp_all add: own_request_def)
  have 5: "daemon_step fmt pol ?s3 (Engine (Handled (CmdRegister c ch) None [])) ?s4"
    by (rule handle [where ok = "\<lambda>_ _. True"]) (use assms(3) in simp_all)
  have 6: "daemon_step fmt pol ?s4 (Engine (Handled (CmdAcquire c r) (Some (OutcomeDenied (NotRegistered r))) []))
      (?s4\<lparr>d_sys := \<lparr>eng = ?e4, clock = ?now\<rparr>, d_mail := []\<rparr>)"
    by (rule handle [where ok = "\<lambda>_ _. True"]) (use assms(4) in \<open>simp_all add: acquire_one_def Let_def\<close>)
  show ?thesis by (intro exI conjI) (rule 1, rule 2, rule 3, rule 4, rule 5, rule 6)
qed

theorem adopted_device_window_witness:
  "\<exists>s c rs s'. demo_reachable demo_fs_unplugged s \<and>
    daemon_step show_resource FairQueue s (Connected_as c rs) s' \<and> Input (Mouse 0) \<in> set rs \<and>
    map_of (slots (eng (d_sys s'))) (Input (Mouse 0)) = None"
proof -
  let ?boot = "demo_boot demo_fs_unplugged"
  obtain retry h where h: "reconcile demo_fs show_resource FairQueue ((d_hp ?boot)\<lparr>hp_out := []\<rparr>) = (retry, h)"
    by fastforce
  have "take 1 (map fst (hp_out (snd (reconcile demo_fs show_resource FairQueue ((d_hp ?boot)\<lparr>hp_out := []\<rparr>))))) =
      [CmdOffer (Input (Mouse 0)) FairQueue]"
    by code_simp
  then obtain iv adv todo where out: "hp_out h = (CmdOffer (Input (Mouse 0)) FairQueue, iv, adv) # todo"
    unfolding h by (cases "hp_out h") auto
  let ?s = "?boot\<lparr>d_hp := h, d_todo := hp_out h\<rparr>"
  have "daemon_step show_resource FairQueue ?boot PassStarted (?boot\<lparr>d_hp := h, d_todo := hp_out h\<rparr>)"
    by (rule pass [OF _ h]) simp
  with demo_boot_reachable(2) have r: "demo_reachable demo_fs_unplugged ?s" by (rule reach_step)
  have new: "map_of (slots (eng (d_sys ?s))) (Input (Mouse 0)) = None"
  proof -
    have "map_of (slots (eng (d_sys ?boot))) (Input (Mouse 0)) = None" by code_simp
    then show ?thesis by simp
  qed
  from adopted_device_window [OF r, of "Input (Mouse 0)" FairQueue iv adv todo 1 2 101] out new
  obtain s1 s2 rs where steps: "daemon_step show_resource FairQueue ?s Published s1"
    "daemon_step show_resource FairQueue s1 (Connected_as 1 rs) s2" "Input (Mouse 0) \<in> set rs"
    by (auto simp: alloc_client_id_def)
  have "d_sys s1 = d_sys ?s" using steps(1) by (cases rule: daemon_step.cases) simp_all
  moreover have "d_sys s2 = d_sys s1" using steps(2) by (cases rule: daemon_step.cases) simp_all
  ultimately show ?thesis using reach_step [OF r steps(1)] steps(2,3) new by metis
qed

end
